(* ===== verification/Prelude.thy ===== *)
theory Prelude
  imports "HOL-Library.Word" "HOL-Library.Monad_Syntax" "HOL-Library.Multiset"
begin

text \<open>
  Shared vocabulary of the kernel model: the machine's integer types (\<open>lib/hw.h\<close>) and
  generic facts on words, lists and the option monad.

  A kernel routine that may fault (a store through a null pointer, an access to an object
  that has been freed) or that may not return (a walk over a cyclic list) has a result in
  the option monad: \<open>None\<close> is the fault or the divergence, \<open>Some\<close> carries the results.
\<close>

type_synonym u64 = "64 word"
type_synonym u32 = "32 word"
type_synonym u8 = "8 word"

subsection \<open>Words\<close>

lemma unat_of_nat_small: "n < 2 ^ 64 \<Longrightarrow> unat (of_nat n :: u64) = n"
  by (simp add: unat_of_nat take_bit_nat_eq_self)

lemma of_nat_inj_small: "m < 2 ^ 64 \<Longrightarrow> n < 2 ^ 64 \<Longrightarrow> (of_nat m :: u64) = of_nat n \<longleftrightarrow> m = n"
  using unat_of_nat_small by metis

lemma of_nat_less_small: "m < 2 ^ 64 \<Longrightarrow> (of_nat m :: u64) < w \<longleftrightarrow> m < unat w"
  by (simp add: word_less_nat_alt unat_of_nat_small)

lemma of_nat_eq_word: "m < 2 ^ 64 \<Longrightarrow> (w :: u64) = of_nat m \<longleftrightarrow> unat w = m"
  using unat_of_nat_small [of m] by (auto simp: word_unat_eq_iff)

lemma unat_plus_small: "unat (a :: u64) + n < 2 ^ 64 \<Longrightarrow> unat (a + of_nat n) = unat a + n"
  by (simp add: unat_word_ariths unat_of_nat take_bit_nat_eq_self)

subsection \<open>Lists\<close>

lemma takeWhile_dropWhile_Cons:
  assumes "dropWhile P xs = y # ys"
  shows "xs = takeWhile P xs @ y # ys" and "\<not> P y"
  using assms takeWhile_dropWhile_id [of P xs] by (simp_all add: dropWhile_eq_Cons_conv)

end
