(* ===== verification/MemoryAllocator.thy ===== *)
theory MemoryAllocator
  imports Prelude
begin

text \<open>
  The kernel's allocator, \<open>h/_memoryAllocator.hpp\<close> and \<open>src/_memoryAllocator.cpp\<close>, over a
  word memory. A block starts with a two-word header: word 0 is the address of the next block
  of its list, word 1 its size in blocks of 64 bytes. Free blocks are a list sorted by
  address, taken blocks a list in order of allocation.

  \<open>heap\<close> holds the memory and the static members of the class; \<open>HEAP_START_ADDR\<close> and
  \<open>HEAP_END_ADDR\<close> are the extern constants of \<open>lib/hw.h\<close>. \<open>kmalloc\<close> and \<open>kmfree\<close> return
  \<open>None\<close> only if a list walk does not end.

  The abstraction is in block indices: block \<open>i\<close> of the heap starts at
  \<open>HEAP_START_ADDR + 64 * i\<close>. \<open>heap_rep h fs ts\<close> says that the two chains in memory are the
  lists \<open>fs\<close> and \<open>ts\<close> of pairs (index, size), that \<open>fs\<close> is sorted with no two adjacent
  blocks, and that together they partition the heap.
\<close>

subsection \<open>The code\<close>

definition MEM_BLOCK_SIZE :: u64 where "MEM_BLOCK_SIZE = 64"
definition SIZE_HEADER :: u64 where "SIZE_HEADER = 2 * 8"

record heap =
  mem :: "u64 \<Rightarrow> u64"
  headFree :: u64
  headTaken :: u64
  totalBlocks :: u64
  initialazed :: bool
  HEAP_START_ADDR :: u64
  HEAP_END_ADDR :: u64

text \<open>The static members before the first call: \<open>M\<close> is the memory, \<open>b\<close> and \<open>e\<close> the ends of the heap.\<close>

definition static_heap :: "(u64 \<Rightarrow> u64) \<Rightarrow> u64 \<Rightarrow> u64 \<Rightarrow> heap" where
  "static_heap M b e = \<lparr>mem = M, headFree = b, headTaken = 0, totalBlocks = (e - b) div MEM_BLOCK_SIZE,
     initialazed = False, HEAP_START_ADDR = b, HEAP_END_ADDR = e\<rparr>"

definition store :: "u64 \<Rightarrow> u64 \<Rightarrow> heap \<Rightarrow> heap" where
  "store a v h = h\<lparr>mem := (mem h)(a := v)\<rparr>"

definition init :: "heap \<Rightarrow> heap" where
  "init h = (if initialazed h then h
     else let h = h\<lparr>headFree := HEAP_START_ADDR h, headTaken := 0,
                    totalBlocks := (HEAP_END_ADDR h - HEAP_START_ADDR h) div MEM_BLOCK_SIZE\<rparr>;
              h = store (headFree h) 0 h;
              h = store (headFree h + 8) (totalBlocks h) h
          in h\<lparr>initialazed := True\<rparr>)"

text \<open>The search loop of \<open>_kmalloc\<close>: current block and its predecessor.\<close>

partial_function (option) find_fit :: "(u64 \<Rightarrow> u64) \<Rightarrow> u64 \<Rightarrow> u64 \<Rightarrow> u64 \<Rightarrow> (u64 \<times> u64) option" where
  "find_fit m n cur prev =
     (if cur \<noteq> 0 \<and> m (cur + 8) < n then find_fit m n (m cur) cur else Some (cur, prev))"

declare find_fit.simps [code]

text \<open>\<open>prev64 ? prev64[0] = p : head = p\<close>\<close>

definition link_free :: "u64 \<Rightarrow> u64 \<Rightarrow> heap \<Rightarrow> heap" where
  "link_free prev p h = (if prev \<noteq> 0 then store prev p h else h\<lparr>headFree := p\<rparr>)"

definition link_taken :: "u64 \<Rightarrow> u64 \<Rightarrow> heap \<Rightarrow> heap" where
  "link_taken prev p h = (if prev \<noteq> 0 then store prev p h else h\<lparr>headTaken := p\<rparr>)"

definition kmalloc :: "u64 \<Rightarrow> heap \<Rightarrow> (u64 \<times> heap) option" where
  "kmalloc numOfBlocks h0 =
     (let h = init h0 in
      if numOfBlocks \<le> 0 then Some (0, h)
      else do {
        (cur, prev) \<leftarrow> find_fit (mem h) numOfBlocks (headFree h) 0;
        if cur = 0 \<or> headFree h = 0 then Some (0, h)
        else
          let next = mem h cur;
              leftover = cur + numOfBlocks * MEM_BLOCK_SIZE;
              h = (if numOfBlocks = mem h (cur + 8) then link_free prev next h
                   else let h = store leftover next h;
                            h = store (leftover + 8) (mem h (cur + 8) - numOfBlocks) h
                        in link_free prev leftover h);
              h = store (cur + 8) numOfBlocks h;
              h = store cur 0 h;
              h = store cur (headTaken h) h;
              h = h\<lparr>headTaken := cur\<rparr>
          in Some (cur + SIZE_HEADER, h)
      })"

text \<open>The first loop of \<open>_kmfree\<close> looks for the block in the taken list, the second for its
  place in the free list.\<close>

partial_function (option) find_taken :: "(u64 \<Rightarrow> u64) \<Rightarrow> u64 \<Rightarrow> u64 \<Rightarrow> u64 \<Rightarrow> (u64 \<times> u64) option" where
  "find_taken m cur next prev =
     (if next \<noteq> 0 \<and> next \<noteq> cur then find_taken m cur (m next) next else Some (next, prev))"

declare find_taken.simps [code]

partial_function (option) find_place :: "(u64 \<Rightarrow> u64) \<Rightarrow> u64 \<Rightarrow> u64 \<Rightarrow> u64 \<Rightarrow> (u64 \<times> u64) option" where
  "find_place m cur next prev =
     (if next \<noteq> 0 \<and> next < cur then find_place m cur (m next) next else Some (next, prev))"

declare find_place.simps [code]

text \<open>The block at \<open>cur\<close> is joined with its predecessor or linked after it (the result is the
  block that now holds \<open>cur\<close>), then joined with or linked to its successor.\<close>

definition merge_prev :: "u64 \<Rightarrow> u64 \<Rightarrow> heap \<Rightarrow> u64 \<times> heap" where
  "merge_prev cur prev h =
     (if prev = 0 then (cur, h\<lparr>headFree := cur\<rparr>)
      else if prev + mem h (prev + 8) * MEM_BLOCK_SIZE = cur
      then (prev, store (prev + 8) (mem h (prev + 8) + mem h (cur + 8)) h)
      else let h = store cur (mem h prev) h in (cur, store prev cur h))"

definition merge_next :: "u64 \<Rightarrow> u64 \<Rightarrow> heap \<Rightarrow> heap" where
  "merge_next cur next h =
     (if next \<noteq> 0
      then if cur + mem h (cur + 8) * MEM_BLOCK_SIZE = next
           then let h = store (cur + 8) (mem h (cur + 8) + mem h (next + 8)) h
                in store cur (mem h next) h
           else store cur next h
      else h)"

definition insert_free :: "u64 \<Rightarrow> heap \<Rightarrow> heap option" where
  "insert_free cur h = do {
     let h = store cur 0 h;
     (next, prev) \<leftarrow> find_place (mem h) cur (headFree h) 0;
     let (cur, h) = merge_prev cur prev h;
     Some (merge_next cur next h)
   }"

definition kmfree :: "u64 \<Rightarrow> heap \<Rightarrow> (int \<times> heap) option" where
  "kmfree toBeFreed h =
     (if toBeFreed = 0 then Some (0, h)
      else do {
        let cur = toBeFreed - SIZE_HEADER;
        (next, prev) \<leftarrow> find_taken (mem h) cur (headTaken h) 0;
        if next = 0 then Some (-1, h)
        else do {
          h \<leftarrow> insert_free cur (link_taken prev (mem h next) h);
          Some (0, h)
        }
      })"

end
