(* ===== verification/HeapRep.thy ===== *)
theory HeapRep
  imports MemoryAllocator
begin

text \<open>
  The representation of the allocator's heap. Memory is read in units of blocks: block \<open>i\<close>
  starts at \<open>adr b i 0\<close>, its header is the two words at offsets 0 and 8, its payload starts at
  offset 16. \<open>heap_rep h fs ts\<close> relates the word memory to the free list \<open>fs\<close> and the taken
  list \<open>ts\<close>, both lists of pairs (index, number of blocks). \<open>afit\<close> (first fit) and \<open>ainsert\<close>
  (ordered insertion with coalescing) are what \<open>_kmalloc\<close> and \<open>_kmfree\<close> do to the free list.
  The lemmas are the pure facts on those two functions, the loops of the code as functions
  of the represented lists, and the frame rules: \<open>agree b S m m'\<close> says that only headers of
  blocks in \<open>S\<close> were written.
\<close>

subsection \<open>Abstract free and taken lists\<close>

type_synonym block = "nat \<times> nat"

definition adr :: "u64 \<Rightarrow> nat \<Rightarrow> nat \<Rightarrow> u64" where
  "adr b i d = b + of_nat (64 * i + d)"

definition geom :: "u64 \<Rightarrow> nat \<Rightarrow> bool" where
  "geom b T \<longleftrightarrow> b \<noteq> 0 \<and> unat b + 64 * T < 2 ^ 64"

lemma unat_adr: "geom b T \<Longrightarrow> 64 * i + d \<le> 64 * T \<Longrightarrow> unat (adr b i d) = unat b + 64 * i + d"
  unfolding geom_def adr_def by (subst unat_plus_small) simp_all

lemma adr_eq_iff:
  "geom b T \<Longrightarrow> 64 * i + d \<le> 64 * T \<Longrightarrow> 64 * j + e \<le> 64 * T \<Longrightarrow>
   adr b i d = adr b j e \<longleftrightarrow> 64 * i + d = 64 * j + e"
  using unat_adr [of b T i d] unat_adr [of b T j e] by (auto simp: word_unat_eq_iff)

lemma adr_less_iff:
  "geom b T \<Longrightarrow> 64 * i + d \<le> 64 * T \<Longrightarrow> 64 * j + e \<le> 64 * T \<Longrightarrow>
   adr b i d < adr b j e \<longleftrightarrow> 64 * i + d < 64 * j + e"
  using unat_adr [of b T i d] unat_adr [of b T j e] by (simp add: word_less_nat_alt)

lemma adr_nz: "geom b T \<Longrightarrow> 64 * i + d \<le> 64 * T \<Longrightarrow> adr b i d \<noteq> 0"
  using unat_adr [of b T i d] by (auto simp: geom_def unat_eq_0 [symmetric])

lemma adr_next: "adr b i 0 + of_nat n * 64 = adr b (i + n) 0"
  by (simp add: adr_def algebra_simps)

lemma adr_field: "adr b i 0 + 8 = adr b i 8" "adr b i 0 + 16 = adr b i 16" "adr b i 16 - 16 = adr b i 0"
  "adr b i 16 + 8 = adr b i 24"
  by (simp_all add: adr_def)

definition cells :: "block list \<Rightarrow> nat list" where
  "cells xs = concat (map (\<lambda>(i, n). [i..<i + n]) xs)"

lemma cells_simps [simp]:
  "cells [] = []" "cells ((i, n) # xs) = [i..<i + n] @ cells xs" "cells (xs @ ys) = cells xs @ cells ys"
  by (simp_all add: cells_def)

lemma set_cells: "set (cells xs) = (\<Union>(i, n)\<in>set xs. {i..<i + n})"
  by (auto simp: cells_def)

fun free_ok :: "nat \<Rightarrow> block list \<Rightarrow> bool" where
  "free_ok lo [] = True"
| "free_ok lo ((i, n) # xs) = (lo \<le> i \<and> 0 < n \<and> free_ok (Suc (i + n)) xs)"

fun chain :: "(u64 \<Rightarrow> u64) \<Rightarrow> u64 \<Rightarrow> u64 \<Rightarrow> block list \<Rightarrow> u64 \<Rightarrow> bool" where
  "chain m b p [] q = (p = q)"
| "chain m b p ((i, n) # xs) q =
     (p = adr b i 0 \<and> m (adr b i 8) = of_nat n \<and> chain m b (m (adr b i 0)) xs q)"

lemma chain_append [simp]:
  "chain m b p (xs @ ys) q \<longleftrightarrow> (\<exists>r. chain m b p xs r \<and> chain m b r ys q)"
  by (induction xs arbitrary: p) auto

lemma chain_cong:
  assumes "\<And>i n. (i, n) \<in> set xs \<Longrightarrow> m (adr b i 0) = m' (adr b i 0) \<and> m (adr b i 8) = m' (adr b i 8)"
  shows "chain m b p xs q = chain m' b p xs q"
  using assms
proof (induction xs arbitrary: p)
  case (Cons x xs)
  obtain i n where x: "x = (i, n)" by (cases x)
  have "m (adr b i 0) = m' (adr b i 0)" "m (adr b i 8) = m' (adr b i 8)"
    using Cons.prems [of i n] x by simp_all
  moreover have "chain m b r xs q = chain m' b r xs q" for r
    by (rule Cons.IH) (use Cons.prems in auto)
  ultimately show ?case by (simp add: x)
qed simp

subsection \<open>First fit and ordered insertion\<close>

definition afit :: "nat \<Rightarrow> block list \<Rightarrow> (nat \<times> block list) option" where
  "afit k fs = (case dropWhile (\<lambda>(i, n). n < k) fs of
       [] \<Rightarrow> None
     | (i, n) # suf \<Rightarrow>
         Some (i, takeWhile (\<lambda>(i, n). n < k) fs @ (if n = k then suf else (i + k, n - k) # suf)))"

fun join :: "block \<Rightarrow> block list \<Rightarrow> block list" where
  "join (i, n) [] = [(i, n)]"
| "join (i, n) ((j, m) # fs) = (if i + n = j then (i, n + m) # fs else (i, n) # (j, m) # fs)"

fun ainsert :: "block \<Rightarrow> block list \<Rightarrow> block list" where
  "ainsert (i, n) [] = [(i, n)]"
| "ainsert (i, n) ((j, m) # fs) =
     (if j < i then if j + m = i then join (j, m + n) fs else (j, m) # ainsert (i, n) fs
      else join (i, n) ((j, m) # fs))"

definition heap_rep :: "heap \<Rightarrow> block list \<Rightarrow> block list \<Rightarrow> bool" where
  "heap_rep h fs ts \<longleftrightarrow> initialazed h \<and> geom (HEAP_START_ADDR h) (unat (totalBlocks h)) \<and>
     chain (mem h) (HEAP_START_ADDR h) (headFree h) fs 0 \<and>
     chain (mem h) (HEAP_START_ADDR h) (headTaken h) ts 0 \<and>
     free_ok 0 fs \<and> (\<forall>(i, n) \<in> set ts. 0 < n) \<and>
     mset (cells fs) + mset (cells ts) = mset [0..<unat (totalBlocks h)]"

subsection \<open>Pure facts\<close>

lemma free_ok_pos: "free_ok lo xs \<Longrightarrow> (i, n) \<in> set xs \<Longrightarrow> lo \<le> i \<and> 0 < n"
proof (induction lo xs rule: free_ok.induct)
  case (2 lo j m xs)
  then show ?case by (cases "(i, n) = (j, m)") fastforce+
qed simp

lemma free_ok_append:
  "free_ok lo (xs @ ys) \<longleftrightarrow> free_ok lo xs \<and>
     (case ys of [] \<Rightarrow> True | (j, m) # ys' \<Rightarrow>
        (case xs of [] \<Rightarrow> lo \<le> j | _ \<Rightarrow> fst (last xs) + snd (last xs) < j) \<and> 0 < m \<and> free_ok (Suc (j + m)) ys')"
proof (induction lo xs rule: free_ok.induct)
  case (1 lo)
  then show ?case by (auto split: list.split)
next
  case (2 lo i n xs)
  then show ?case by (cases xs) (auto split: list.split)
qed

text \<open>A sorted, coalesced list is determined by the set of its cells.\<close>

lemma free_ok_cells_lo: "free_ok lo xs \<Longrightarrow> x \<in> set (cells xs) \<Longrightarrow> lo \<le> x"
  by (auto simp: set_cells dest: free_ok_pos)

lemma free_ok_unique:
  "free_ok lo xs \<Longrightarrow> free_ok lo' ys \<Longrightarrow> set (cells xs) = set (cells ys) \<Longrightarrow> xs = ys"
proof (induction lo xs arbitrary: lo' ys rule: free_ok.induct)
  case (1 lo)
  then show ?case by (cases ys) auto
next
  case (2 lo i n xs)
  then have n: "0 < n" and xs: "free_ok (Suc (i + n)) xs" by auto
  have cx: "set (cells ((i, n) # xs)) = {i..<i + n} \<union> set (cells xs)" by auto
  from cx n "2.prems"(3) have "ys \<noteq> []" by auto
  then obtain j m ys' where ys: "ys = (j, m) # ys'" by (cases ys) auto
  with "2.prems" have m: "0 < m" and ys': "free_ok (Suc (j + m)) ys'" by auto
  have eq: "{i..<i + n} \<union> set (cells xs) = {j..<j + m} \<union> set (cells ys')"
    using "2.prems"(3) ys by simp
  note lo = free_ok_cells_lo [OF xs] free_ok_cells_lo [OF ys']
  have "i \<in> {j..<j + m} \<union> set (cells ys')" using eq n by auto
  then have "j \<le> i" using lo(2) by force
  moreover have "j \<in> {i..<i + n} \<union> set (cells xs)" using eq m by auto
  then have "i \<le> j" using lo(1) by force
  ultimately have ij: "i = j" by simp
  have "i + n \<notin> {i..<i + n} \<union> set (cells xs)" using lo(1) by force
  with eq have "i + n \<notin> {j..<j + m}" by blast
  with ij n m have mn: "m \<le> n" by auto
  have "j + m \<notin> {j..<j + m} \<union> set (cells ys')" using lo(2) by force
  with eq have "j + m \<notin> {i..<i + n}" by blast
  with ij n m have "n \<le> m" by auto
  with mn have nm: "n = m" by simp
  have "set (cells xs) = set (cells ys')"
  proof -
    have "\<And>x. x \<in> set (cells xs) \<Longrightarrow> x \<notin> {i..<i + n}" using lo(1) by force
    moreover have "\<And>x. x \<in> set (cells ys') \<Longrightarrow> x \<notin> {i..<i + n}" using lo(2) ij nm by force
    ultimately show ?thesis using eq ij nm by blast
  qed
  with "2.IH" [OF xs ys'] ij nm ys show ?case by simp
qed

lemma upt_split: "(k :: nat) \<le> n \<Longrightarrow> mset_set {i..<i + n} = mset_set {i..<i + k} + mset_set {i + k..<i + n}"
  using ivl_disj_un_two(3) [of i "i + k" "i + n"] mset_set_Union [of "{i..<i + k}" "{i + k..<i + n}"]
  by simp

lemma afit_cells:
  assumes "afit k fs = Some (i, fs')"
  shows "mset (cells fs) = mset (cells fs') + mset_set {i..<i + k}"
proof -
  from assms obtain n suf where d: "dropWhile (\<lambda>(i, n). n < k) fs = (i, n) # suf"
    and fs': "fs' = takeWhile (\<lambda>(i, n). n < k) fs @ (if n = k then suf else (i + k, n - k) # suf)"
    by (auto simp: afit_def split: list.splits)
  note fs = takeWhile_dropWhile_Cons [OF d]
  have "k \<le> n" using fs(2) by simp
  then show ?thesis
    by (subst fs(1), simp add: fs' upt_split [of k n i] algebra_simps)
qed

lemma afit_free_ok:
  assumes "afit k fs = Some (i, fs')" "free_ok 0 fs" "0 < k"
  shows "free_ok 0 fs'"
proof -
  from assms(1) obtain n suf where d: "dropWhile (\<lambda>(i, n). n < k) fs = (i, n) # suf"
    and fs': "fs' = takeWhile (\<lambda>(i, n). n < k) fs @ (if n = k then suf else (i + k, n - k) # suf)"
    by (auto simp: afit_def split: list.splits)
  note fs = takeWhile_dropWhile_Cons [OF d]
  have kn: "k \<le> n" using fs(2) by simp
  have ok: "free_ok 0 (takeWhile (\<lambda>(i, n). n < k) fs @ (i, n) # suf)"
    using assms(2) fs(1) by simp
  show ?thesis
    using ok kn assms(3) unfolding fs' free_ok_append
    by (auto split: list.splits)
qed

lemma join_cells: "mset (cells (join (i, n) fs)) = mset (cells fs) + mset_set {i..<i + n}"
proof (cases fs)
  case (Cons a fs')
  obtain j m where a: "a = (j, m)" by (cases a)
  show ?thesis
  proof (cases "i + n = j")
    case True
    then show ?thesis using Cons a upt_split [of n "n + m" i] by (auto simp: add.assoc)
  qed (simp add: Cons a)
qed simp

lemma ainsert_cells: "mset (cells (ainsert (i, n) fs)) = mset (cells fs) + mset_set {i..<i + n}"
proof (induction "(i, n)" fs rule: ainsert.induct)
  case (2 j m fs)
  then show ?case
    using upt_split [of m "m + n" j] by (auto simp: join_cells simp del: join.simps)
qed simp

lemma join_free_ok:
  assumes "free_ok lo fs" "\<forall>x\<in>set (cells fs). i + n \<le> x" "0 < n" "lo' \<le> i"
  shows "free_ok lo' (join (i, n) fs)"
proof (cases fs)
  case (Cons a fs')
  obtain j m where a: "a = (j, m)" by (cases a)
  with assms(1) Cons have "j \<in> set (cells fs)" by simp
  with assms(2) have "i + n \<le> j" by blast
  with assms(1,3,4) Cons a show ?thesis by (auto simp: add.assoc)
qed (use assms in simp)

lemma ainsert_free_ok:
  "free_ok lo fs \<Longrightarrow> 0 < n \<Longrightarrow> {i..<i + n} \<inter> set (cells fs) = {} \<Longrightarrow> lo \<le> i \<Longrightarrow>
   free_ok lo (ainsert (i, n) fs)"
proof (induction "(i, n)" fs arbitrary: lo rule: ainsert.induct)
  case (2 j m fs)
  then have m: "0 < m" and fs: "free_ok (Suc (j + m)) fs" by auto
  have "set (cells ((j, m) # fs)) = {j..<j + m} \<union> set (cells fs)" by simp
  with "2.prems"(3) have dj: "{i..<i + n} \<inter> {j..<j + m} = {}" "{i..<i + n} \<inter> set (cells fs) = {}"
    by blast+
  have lo: "\<forall>x\<in>set (cells fs). Suc (j + m) \<le> x" using free_ok_cells_lo [OF fs] by blast
  show ?case
  proof (cases "j < i")
    case True
    have ji: "j + m \<le> i"
    proof (rule ccontr)
      assume "\<not> j + m \<le> i"
      with True "2.prems"(2) have "i \<in> {i..<i + n}" "i \<in> {j..<j + m}" by simp_all
      with dj(1) show False by blast
    qed
    show ?thesis
    proof (cases "j + m = i")
      case True
      have "\<forall>x\<in>set (cells fs). j + (m + n) \<le> x"
      proof
        fix x assume "x \<in> set (cells fs)"
        with lo dj(2) True have "Suc i \<le> x" "x \<notin> {i..<i + n}" by auto
        then show "j + (m + n) \<le> x" using True by auto
      qed
      with fs \<open>j < i\<close> True m "2.prems" show ?thesis by (simp add: join_free_ok)
    next
      case False
      with ji have "Suc (j + m) \<le> i" by simp
      with 2 True False dj fs show ?thesis by auto
    qed
  next
    case False
    have a: "i + n \<le> j"
    proof (rule ccontr)
      assume "\<not> i + n \<le> j"
      with False m have "j \<in> {i..<i + n}" "j \<in> {j..<j + m}" by simp_all
      with dj(1) show False by blast
    qed
    have "\<forall>x\<in>set (cells ((j, m) # fs)). i + n \<le> x" using a lo by auto
    then have "free_ok lo (join (i, n) ((j, m) # fs))"
      using "2.prems" by (intro join_free_ok [of lo])
    with False show ?thesis by simp
  qed
qed simp


subsection \<open>Frames\<close>

definition agree :: "u64 \<Rightarrow> nat set \<Rightarrow> (u64 \<Rightarrow> u64) \<Rightarrow> (u64 \<Rightarrow> u64) \<Rightarrow> bool" where
  "agree b S m m' \<longleftrightarrow> (\<forall>x. (\<forall>j\<in>S. x \<noteq> adr b j 0 \<and> x \<noteq> adr b j 8) \<longrightarrow> m' x = m x)"

lemma agree_refl [simp]: "agree b S m m"
  by (simp add: agree_def)

lemma agree_upd:
  "agree b S m m' \<Longrightarrow> j \<in> S \<Longrightarrow> agree b S m (m'(adr b j 0 := v))"
  "agree b S m m' \<Longrightarrow> j \<in> S \<Longrightarrow> agree b S m (m'(adr b j 8 := v))"
  by (auto simp: agree_def)

lemma agree_trans: "agree b S m m' \<Longrightarrow> agree b S m' m'' \<Longrightarrow> agree b S m m''"
  by (simp add: agree_def)

lemma agree_mono: "agree b S m m' \<Longrightarrow> S \<subseteq> S' \<Longrightarrow> agree b S' m m'"
  by (auto simp: agree_def)

lemma hdr_eq:
  assumes "geom b T" "i < T" "j < T"
  shows "adr b i 0 = adr b j 0 \<longleftrightarrow> i = j" "adr b i 8 = adr b j 8 \<longleftrightarrow> i = j"
    "adr b i 0 \<noteq> adr b j 8" "adr b j 8 \<noteq> adr b i 0"
proof -
  have le: "64 * i + 8 \<le> 64 * T" "64 * j + 8 \<le> 64 * T" using assms(2,3) by simp_all
  then show "adr b i 0 = adr b j 0 \<longleftrightarrow> i = j" "adr b i 8 = adr b j 8 \<longleftrightarrow> i = j"
    by (simp_all add: adr_eq_iff [OF assms(1)])
  have "64 * i \<noteq> 64 * j + 8" by presburger
  with le show "adr b i 0 \<noteq> adr b j 8" "adr b j 8 \<noteq> adr b i 0"
    by (simp_all add: adr_eq_iff [OF assms(1)])
qed

lemma agree_off:
  assumes "geom b T" "agree b S m m'" "S \<subseteq> {..<T}" "i < T" "i \<notin> S"
  shows "m' (adr b i 0) = m (adr b i 0)" "m' (adr b i 8) = m (adr b i 8)"
proof -
  have *: "adr b i 0 \<noteq> adr b j 0 \<and> adr b i 0 \<noteq> adr b j 8 \<and> adr b i 8 \<noteq> adr b j 0 \<and> adr b i 8 \<noteq> adr b j 8"
    if "j \<in> S" for j
  proof -
    have j: "j < T" "i \<noteq> j" using that assms(3,5) by auto
    then show ?thesis using hdr_eq [OF assms(1,4) j(1)] hdr_eq(4) [OF assms(1) j(1) assms(4)] by simp
  qed
  then show "m' (adr b i 0) = m (adr b i 0)" "m' (adr b i 8) = m (adr b i 8)"
    using assms(2) unfolding agree_def by blast+
qed

lemma chain_agree:
  assumes "geom b T" "agree b S m m'" "S \<subseteq> {..<T}" "fst ` set xs \<subseteq> {..<T}" "fst ` set xs \<inter> S = {}"
  shows "chain m b p xs q \<longleftrightarrow> chain m' b p xs q"
proof (rule chain_cong)
  fix i n assume "(i, n) \<in> set xs"
  then have "i \<in> fst ` set xs" by force
  then have "i < T" "i \<notin> S" using assms(4,5) by auto
  then show "m (adr b i 0) = m' (adr b i 0) \<and> m (adr b i 8) = m' (adr b i 8)"
    using agree_off [OF assms(1-3)] by simp
qed

definition first_of :: "u64 \<Rightarrow> block list \<Rightarrow> u64" where
  "first_of b xs = (case xs of [] \<Rightarrow> 0 | (i, n) # _ \<Rightarrow> adr b i 0)"

definition prev_of :: "u64 \<Rightarrow> u64 \<Rightarrow> block list \<Rightarrow> u64" where
  "prev_of b p xs = (if xs = [] then p else adr b (fst (last xs)) 0)"

lemma first_of_simps [simp]: "first_of b [] = 0" "first_of b ((i, n) # xs) = adr b i 0"
  by (simp_all add: first_of_def)

lemma prev_of_simps [simp]:
  "prev_of b p [] = p" "prev_of b p (xs @ [(i, n)]) = adr b i 0"
  "prev_of b p ((i, n) # xs) = prev_of b (adr b i 0) xs"
  by (simp_all add: prev_of_def)

lemma chain_first: "chain m b p xs 0 \<Longrightarrow> p = first_of b xs"
  by (cases xs) auto

lemma chain_relink:
  assumes "geom b T" "chain m b p (xs @ [(i, n)]) r" "fst ` set xs \<subseteq> {..<T}" "i < T" "i \<notin> fst ` set xs"
  shows "chain (m(adr b i 0 := q)) b p (xs @ [(i, n)]) q"
proof -
  have "agree b {i} m (m(adr b i 0 := q))" by (simp add: agree_upd)
  then have "chain (m(adr b i 0 := q)) b p xs (adr b i 0)"
    using assms chain_agree [OF assms(1), of "{i}" m _ xs] by auto
  then show ?thesis
    using assms(2) hdr_eq(4) [OF assms(1,4,4)] by auto
qed

lemma link_free_chain:
  fixes h :: heap
  defines "b \<equiv> HEAP_START_ADDR h" and "T \<equiv> unat (totalBlocks h)"
  assumes "geom b T" "chain (mem h) b (headFree h) xs r" "fst ` set xs \<subseteq> {..<T}" "distinct (map fst xs)"
    and h': "h' = link_free (prev_of b 0 xs) q h"
  shows "chain (mem h') b (headFree h') xs q" "agree b (fst ` set xs) (mem h) (mem h')"
    "headTaken h' = headTaken h" "totalBlocks h' = totalBlocks h"
    "HEAP_START_ADDR h' = HEAP_START_ADDR h" "HEAP_END_ADDR h' = HEAP_END_ADDR h" "initialazed h' = initialazed h"
proof -
  show "headTaken h' = headTaken h" "totalBlocks h' = totalBlocks h"
    "HEAP_START_ADDR h' = HEAP_START_ADDR h" "HEAP_END_ADDR h' = HEAP_END_ADDR h" "initialazed h' = initialazed h"
    by (simp_all add: h' link_free_def store_def)
  have "chain (mem h') b (headFree h') xs q \<and> agree b (fst ` set xs) (mem h) (mem h')"
  proof (cases xs rule: rev_cases)
    case Nil
    then show ?thesis by (simp add: h' link_free_def)
  next
    case (snoc ys y)
    obtain i n where y: "y = (i, n)" by (cases y)
    have "i < T" using assms(5) snoc y by auto
    moreover from this have "adr b i 0 \<noteq> 0" using adr_nz [OF assms(3), of i 0] by simp
    moreover have "i \<notin> fst ` set ys" using assms(6) snoc y by auto
    ultimately show ?thesis
      using assms snoc y chain_relink [OF assms(3), of "mem h" "headFree h" ys i n r q]
      by (auto simp: link_free_def store_def agree_upd)
  qed
  then show "chain (mem h') b (headFree h') xs q" "agree b (fst ` set xs) (mem h) (mem h')" by auto
qed

lemma link_taken_chain:
  fixes h :: heap
  defines "b \<equiv> HEAP_START_ADDR h" and "T \<equiv> unat (totalBlocks h)"
  assumes "geom b T" "chain (mem h) b (headTaken h) xs r" "fst ` set xs \<subseteq> {..<T}" "distinct (map fst xs)"
    and h': "h' = link_taken (prev_of b 0 xs) q h"
  shows "chain (mem h') b (headTaken h') xs q" "agree b (fst ` set xs) (mem h) (mem h')"
    "headFree h' = headFree h" "totalBlocks h' = totalBlocks h"
    "HEAP_START_ADDR h' = HEAP_START_ADDR h" "HEAP_END_ADDR h' = HEAP_END_ADDR h" "initialazed h' = initialazed h"
proof -
  show "headFree h' = headFree h" "totalBlocks h' = totalBlocks h"
    "HEAP_START_ADDR h' = HEAP_START_ADDR h" "HEAP_END_ADDR h' = HEAP_END_ADDR h" "initialazed h' = initialazed h"
    by (simp_all add: h' link_taken_def store_def)
  have "chain (mem h') b (headTaken h') xs q \<and> agree b (fst ` set xs) (mem h) (mem h')"
  proof (cases xs rule: rev_cases)
    case Nil
    then show ?thesis by (simp add: h' link_taken_def)
  next
    case (snoc ys y)
    obtain i n where y: "y = (i, n)" by (cases y)
    have "i < T" using assms(5) snoc y by auto
    moreover from this have "adr b i 0 \<noteq> 0" using adr_nz [OF assms(3), of i 0] by simp
    moreover have "i \<notin> fst ` set ys" using assms(6) snoc y by auto
    ultimately show ?thesis
      using assms snoc y chain_relink [OF assms(3), of "mem h" "headTaken h" ys i n r q]
      by (auto simp: link_taken_def store_def agree_upd)
  qed
  then show "chain (mem h') b (headTaken h') xs q" "agree b (fst ` set xs) (mem h) (mem h')" by auto
qed

subsection \<open>The loops\<close>

lemma find_fit_chain:
  assumes "geom b T" "chain m b cur xs 0" "\<And>i n. (i, n) \<in> set xs \<Longrightarrow> i < T \<and> n \<le> T"
  shows "find_fit m k cur prev = Some (first_of b (dropWhile (\<lambda>(i, n). n < unat k) xs),
     prev_of b prev (takeWhile (\<lambda>(i, n). n < unat k) xs))"
  using assms(2,3)
proof (induction xs arbitrary: cur prev)
  case Nil
  then show ?case by (simp add: find_fit.simps)
next
  case (Cons x xs)
  obtain i n where x: "x = (i, n)" by (cases x)
  with Cons.prems have i: "i < T" "n \<le> T" by auto
  have "n < 2 ^ 64" using i assms(1) by (simp add: geom_def)
  then have l: "(of_nat n :: u64) < k \<longleftrightarrow> n < unat k" by (rule of_nat_less_small)
  have nz: "adr b i 0 \<noteq> 0" using adr_nz [OF assms(1), of i 0] i by simp
  have c: "cur = adr b i 0" "m (adr b i 8) = of_nat n" "chain m b (m (adr b i 0)) xs 0"
    using Cons.prems x by auto
  have IH: "find_fit m k (m (adr b i 0)) p = Some (first_of b (dropWhile (\<lambda>(i, n). n < unat k) xs),
     prev_of b p (takeWhile (\<lambda>(i, n). n < unat k) xs))" for p
    by (rule Cons.IH [OF c(3)]) (use Cons.prems in auto)
  show ?case
    by (subst find_fit.simps) (simp add: c x IH nz adr_field l)
qed

lemma find_taken_chain:
  assumes "geom b T" "chain m b nxt xs 0" "\<And>i n. (i, n) \<in> set xs \<Longrightarrow> i < T"
  shows "find_taken m c nxt prev = Some (first_of b (dropWhile (\<lambda>(i, n). adr b i 0 \<noteq> c) xs),
     prev_of b prev (takeWhile (\<lambda>(i, n). adr b i 0 \<noteq> c) xs))"
  using assms(2,3)
proof (induction xs arbitrary: nxt prev)
  case Nil
  then show ?case by (simp add: find_taken.simps)
next
  case (Cons x xs)
  obtain i n where x: "x = (i, n)" by (cases x)
  with Cons.prems have i: "i < T" by auto
  have nz: "adr b i 0 \<noteq> 0" using adr_nz [OF assms(1), of i 0] i by simp
  have c: "nxt = adr b i 0" "chain m b (m (adr b i 0)) xs 0"
    using Cons.prems x by auto
  have IH: "find_taken m c (m (adr b i 0)) p = Some (first_of b (dropWhile (\<lambda>(i, n). adr b i 0 \<noteq> c) xs),
     prev_of b p (takeWhile (\<lambda>(i, n). adr b i 0 \<noteq> c) xs))" for p
    by (rule Cons.IH [OF c(2)]) (use Cons.prems in auto)
  show ?case
    by (subst find_taken.simps) (simp add: c x IH nz)
qed

lemma find_place_chain:
  assumes "geom b T" "chain m b nxt xs 0" "\<And>j n. (j, n) \<in> set xs \<Longrightarrow> j < T" "i < T"
  shows "find_place m (adr b i 0) nxt prev = Some (first_of b (dropWhile (\<lambda>(j, n). j < i) xs),
     prev_of b prev (takeWhile (\<lambda>(j, n). j < i) xs))"
  using assms(2,3)
proof (induction xs arbitrary: nxt prev)
  case Nil
  then show ?case by (simp add: find_place.simps)
next
  case (Cons x xs)
  obtain j n where x: "x = (j, n)" by (cases x)
  with Cons.prems have j: "j < T" by auto
  have nz: "adr b j 0 \<noteq> 0" using adr_nz [OF assms(1), of j 0] j by simp
  have c: "nxt = adr b j 0" "chain m b (m (adr b j 0)) xs 0"
    using Cons.prems x by auto
  have IH: "find_place m (adr b i 0) (m (adr b j 0)) p = Some (first_of b (dropWhile (\<lambda>(j, n). j < i) xs),
     prev_of b p (takeWhile (\<lambda>(j, n). j < i) xs))" for p
    by (rule Cons.IH [OF c(2)]) (use Cons.prems in auto)
  have l: "adr b j 0 < adr b i 0 \<longleftrightarrow> j < i"
    using adr_less_iff [OF assms(1), of j 0 i 0] j assms(4) by simp
  show ?case
    by (subst find_place.simps) (simp add: c x IH nz l)
qed

end
