(* ===== verification/KmallocProof.thy ===== *)
theory KmallocProof
  imports HeapRep
begin

text \<open>
  \<open>_kmalloc\<close> implements first fit: consequences of the representation, the loop-free part that
  cuts a block in two, and the refinement lemmas \<open>kmalloc_none\<close> and \<open>kmalloc_fit\<close>.
\<close>

subsection \<open>Consequences of the representation\<close>

lemma starts_in_cells: "\<forall>(i, n)\<in>set xs. 0 < n \<Longrightarrow> fst ` set xs \<subseteq> set (cells xs)"
  by (force simp: set_cells)

lemma distinct_starts: "distinct (cells xs) \<Longrightarrow> \<forall>(i, n)\<in>set xs. 0 < n \<Longrightarrow> distinct (map fst xs)"
proof (induction xs)
  case (Cons x xs)
  obtain i n where x: "x = (i, n)" by (cases x)
  from Cons x have n: "0 < n" and xs: "\<forall>(i, n)\<in>set xs. 0 < n" "distinct (cells xs)"
    and d: "{i..<i + n} \<inter> set (cells xs) = {}" by auto
  from n have "i \<in> {i..<i + n}" by simp
  with d starts_in_cells [OF xs(1)] have "i \<notin> fst ` set xs" by blast
  with Cons.IH [OF xs(2,1)] x show ?case by simp
qed simp

lemma heap_repD:
  assumes "heap_rep h fs ts"
  shows "initialazed h" "geom (HEAP_START_ADDR h) (unat (totalBlocks h))"
    "chain (mem h) (HEAP_START_ADDR h) (headFree h) fs 0"
    "chain (mem h) (HEAP_START_ADDR h) (headTaken h) ts 0"
    "free_ok 0 fs" "\<forall>(i, n)\<in>set (fs @ ts). 0 < n"
    "distinct (cells (fs @ ts))" "set (cells (fs @ ts)) = {..<unat (totalBlocks h)}"
proof -
  show "initialazed h" "geom (HEAP_START_ADDR h) (unat (totalBlocks h))"
    "chain (mem h) (HEAP_START_ADDR h) (headFree h) fs 0"
    "chain (mem h) (HEAP_START_ADDR h) (headTaken h) ts 0" "free_ok 0 fs"
    using assms by (auto simp: heap_rep_def)
  show "\<forall>(i, n)\<in>set (fs @ ts). 0 < n"
    using assms by (auto simp: heap_rep_def dest: free_ok_pos)
  have m: "mset (cells (fs @ ts)) = mset [0..<unat (totalBlocks h)]"
    using assms by (simp add: heap_rep_def)
  from m show "distinct (cells (fs @ ts))"
    using mset_eq_imp_distinct_iff distinct_upt by blast
  from m have "set (cells (fs @ ts)) = set [0..<unat (totalBlocks h)]"
    by (rule mset_eq_setD)
  then show "set (cells (fs @ ts)) = {..<unat (totalBlocks h)}"
    by (simp add: atLeast0LessThan)
qed

lemma rep_block:
  assumes "heap_rep h fs ts" "(i, n) \<in> set (fs @ ts)"
  shows "0 < n" "i < unat (totalBlocks h)" "i + n \<le> unat (totalBlocks h)"
proof -
  show n: "0 < n" using heap_repD(6) [OF assms(1)] assms(2) by auto
  have sub: "{i..<i + n} \<subseteq> {..<unat (totalBlocks h)}"
    using heap_repD(8) [OF assms(1)] assms(2) unfolding set_cells by auto
  from n have "i + n - 1 \<in> {i..<i + n}" by auto
  with sub have "i + n - 1 < unat (totalBlocks h)" by blast
  with n show "i < unat (totalBlocks h)" "i + n \<le> unat (totalBlocks h)" by simp_all
qed

lemma rep_starts:
  assumes "heap_rep h fs ts"
  shows "fst ` set fs \<subseteq> {..<unat (totalBlocks h)}" "fst ` set ts \<subseteq> {..<unat (totalBlocks h)}"
    "distinct (map fst (fs @ ts))" "fst ` set ts \<inter> set (cells fs) = {}" "fst ` set fs \<inter> set (cells ts) = {}"
    "set (cells fs) \<subseteq> {..<unat (totalBlocks h)}" "set (cells ts) \<subseteq> {..<unat (totalBlocks h)}"
proof -
  note r = heap_repD [OF assms]
  show "fst ` set fs \<subseteq> {..<unat (totalBlocks h)}" "fst ` set ts \<subseteq> {..<unat (totalBlocks h)}"
    using rep_block(2) [OF assms] by fastforce+
  show "distinct (map fst (fs @ ts))" using distinct_starts [OF r(7,6)] .
  have "set (cells fs) \<inter> set (cells ts) = {}" using r(7) by simp
  moreover have "fst ` set fs \<subseteq> set (cells fs)" "fst ` set ts \<subseteq> set (cells ts)"
    using r(6) by (intro starts_in_cells; auto)+
  ultimately show "fst ` set ts \<inter> set (cells fs) = {}" "fst ` set fs \<inter> set (cells ts) = {}" by blast+
  show "set (cells fs) \<subseteq> {..<unat (totalBlocks h)}" "set (cells ts) \<subseteq> {..<unat (totalBlocks h)}"
    using r(8) by auto
qed

lemma init_id [simp]: "initialazed h \<Longrightarrow> init h = h"
  by (simp add: init_def)

lemma store_fields [simp]:
  "headFree (store a v h) = headFree h" "headTaken (store a v h) = headTaken h"
  "totalBlocks (store a v h) = totalBlocks h" "initialazed (store a v h) = initialazed h"
  "HEAP_START_ADDR (store a v h) = HEAP_START_ADDR h" "HEAP_END_ADDR (store a v h) = HEAP_END_ADDR h"
  "store a v (store a w h) = store a v h"
  by (simp_all add: store_def)

lemma link_free_headTaken [simp]: "headTaken (link_free p q h) = headTaken h"
  by (simp add: link_free_def)

lemma link_taken_headFree [simp]: "headFree (link_taken p q h) = headFree h"
  by (simp add: link_taken_def)

definition same_static :: "heap \<Rightarrow> heap \<Rightarrow> bool" where
  "same_static h h' \<longleftrightarrow> totalBlocks h' = totalBlocks h \<and> HEAP_START_ADDR h' = HEAP_START_ADDR h \<and>
     HEAP_END_ADDR h' = HEAP_END_ADDR h \<and> initialazed h' = initialazed h"

subsection \<open>\<open>_kmalloc\<close> implements first fit\<close>

lemma kmalloc_none:
  assumes rep: "heap_rep h fs ts" and n: "n \<noteq> 0" and fit: "afit (unat n) fs = None"
  shows "kmalloc n h = Some (0, h)"
proof -
  note r = heap_repD [OF rep]
  have "dropWhile (\<lambda>(i, m). m < unat n) fs = []"
    using fit by (auto simp: afit_def split: list.splits)
  moreover have "\<And>i m. (i, m) \<in> set fs \<Longrightarrow> i < unat (totalBlocks h) \<and> m \<le> unat (totalBlocks h)"
    using rep_block [OF rep] by fastforce
  ultimately have "find_fit (mem h) n (headFree h) 0 = Some (0, prev_of (HEAP_START_ADDR h) 0 (takeWhile (\<lambda>(i, m). m < unat n) fs))"
    using find_fit_chain [OF r(2,3), of n 0] by (simp del: dropWhile_eq_Nil_conv)
  then show ?thesis using n r(1) by (simp add: kmalloc_def Let_def)
qed

lemma kmalloc_zero: "initialazed h \<Longrightarrow> kmalloc 0 h = Some (0, h)"
  by (simp add: kmalloc_def)

text \<open>Cutting \<open>k\<close> blocks off the block \<open>(i, m)\<close>: what is left over is written before
  it is linked.\<close>

definition leftover :: "u64 \<Rightarrow> nat \<Rightarrow> nat \<Rightarrow> nat \<Rightarrow> heap \<Rightarrow> heap" where
  "leftover b i m k h = (if m = k then h else
      store (adr b (i + k) 8) (of_nat (m - k)) (store (adr b (i + k) 0) (mem h (adr b i 0)) h))"

lemma leftover_static [simp]:
  "headFree (leftover b i m k h) = headFree h" "headTaken (leftover b i m k h) = headTaken h"
  "totalBlocks (leftover b i m k h) = totalBlocks h" "HEAP_START_ADDR (leftover b i m k h) = HEAP_START_ADDR h"
  "HEAP_END_ADDR (leftover b i m k h) = HEAP_END_ADDR h" "initialazed (leftover b i m k h) = initialazed h"
  by (simp_all add: leftover_def store_def)

lemma leftover_agree: "agree b (if m = k then {} else {i + k}) (mem h) (mem (leftover b i m k h))"
  by (simp add: leftover_def store_def agree_upd)

lemma leftover_chain:
  assumes "geom b T" "chain (mem h) b (mem h (adr b i 0)) suf 0" "0 < k" "k \<le> m" "i + m \<le> T"
    "fst ` set suf \<subseteq> {..<T}" "fst ` set suf \<inter> {i..<i + m} = {}"
  shows "chain (mem (leftover b i m k h)) b (if m = k then mem h (adr b i 0) else adr b (i + k) 0)
     (if m = k then suf else (i + k, m - k) # suf) 0"
proof (cases "m = k")
  case True
  with assms(2) show ?thesis by (simp add: leftover_def)
next
  case False
  with assms have ik: "i + k < T" "i + k \<in> {i..<i + m}" by auto
  have "chain (mem (leftover b i m k h)) b (mem h (adr b i 0)) suf 0"
    using assms(2,6,7) ik False leftover_agree [of b m k i h]
    by (subst chain_agree [OF assms(1), of "{i + k}" "mem h", symmetric]) auto
  then show ?thesis
    using False ik(1) hdr_eq(3,4) [OF assms(1) ik(1) ik(1)] by (simp add: leftover_def store_def)
qed

lemma afit_split:
  assumes "afit k fs = Some (i, fs')"
  obtains pre m suf where "dropWhile (\<lambda>(i, m). m < k) fs = (i, m) # suf" "pre = takeWhile (\<lambda>(i, m). m < k) fs"
    "fs = pre @ (i, m) # suf" "k \<le> m" "fs' = pre @ (if m = k then suf else (i + k, m - k) # suf)"
proof -
  from assms obtain m suf where d: "dropWhile (\<lambda>(i, m). m < k) fs = (i, m) # suf"
    and fs': "fs' = takeWhile (\<lambda>(i, m). m < k) fs @ (if m = k then suf else (i + k, m - k) # suf)"
    by (auto simp: afit_def split: list.splits)
  show ?thesis by (rule that [OF d refl _ _ fs']) (use takeWhile_dropWhile_Cons [OF d] in simp_all)
qed

text \<open>What \<open>_kmalloc\<close> does to the heap once it has found the block \<open>i\<close> of size \<open>m\<close> behind the one at \<open>prev\<close>.\<close>

definition cut_block :: "u64 \<Rightarrow> nat \<Rightarrow> nat \<Rightarrow> nat \<Rightarrow> u64 \<Rightarrow> heap \<Rightarrow> heap" where
  "cut_block b i m k prev h =
     (let q = (if m = k then mem h (adr b i 0) else adr b (i + k) 0);
          h2 = link_free prev q (leftover b i m k h)
      in (store (adr b i 0) (headTaken h) (store (adr b i 8) (of_nat k) h2))\<lparr>headTaken := adr b i 0\<rparr>)"

lemma kmalloc_cut:
  assumes rep: "heap_rep h fs ts" and n: "n \<noteq> 0" and fs: "fs = pre @ (i, m) # suf" "pre = takeWhile (\<lambda>(i, m). m < unat n) fs"
    "dropWhile (\<lambda>(i, m). m < unat n) fs = (i, m) # suf" and km: "unat n \<le> m"
  shows "kmalloc n h = Some (adr (HEAP_START_ADDR h) i 16, cut_block (HEAP_START_ADDR h) i m (unat n) (prev_of (HEAP_START_ADDR h) 0 pre) h)"
proof -
  define b T k where "b = HEAP_START_ADDR h" and "T = unat (totalBlocks h)" and "k = unat n"
  note r = heap_repD [OF rep, folded b_def T_def]
  have nk: "n = of_nat k" by (simp add: k_def)
  have b_i: "i < T" "i + m \<le> T" using rep_block [OF rep, of i m] fs(1) by (simp_all add: T_def)
  have T64: "T < 2 ^ 64" using r(2) by (simp add: geom_def)
  have bl: "\<And>j l. (j, l) \<in> set fs \<Longrightarrow> j < T \<and> l \<le> T"
    using rep_block [OF rep] unfolding T_def by fastforce
  have ff: "find_fit (mem h) n (headFree h) 0 = Some (adr b i 0, prev_of b 0 pre)"
    using find_fit_chain [OF r(2,3) bl, of n 0] fs(3) by (simp add: fs(2))
  have nz: "adr b j 0 \<noteq> 0" if "j < T" for j using adr_nz [OF r(2), of j 0] that by simp
  have fnz: "headFree h \<noteq> 0"
  proof (cases fs)
    case (Cons x xs)
    with bl [of "fst x" "snd x"] have "fst x < T" by simp
    from nz [OF this] show ?thesis using chain_first [OF r(3)] Cons by (cases x) simp
  qed (simp add: fs(1))
  have sz: "mem h (adr b i 8) = of_nat m" using r(3) unfolding fs(1) by auto
  have exact: "(n = mem h (adr b i 8)) = (m = k)"
    using sz nk of_nat_inj_small [of k m] km b_i T64 by (auto simp: k_def)
  have sub: "of_nat m - n = (of_nat (m - k) :: u64)" using nk km by (simp add: of_nat_diff k_def)
  have i8: "mem (store (adr b (i + k) 0) v h) (adr b i 8) = of_nat m" if "m \<noteq> k" for v
  proof -
    from that km have "i + k < T" using b_i by (simp add: k_def)
    from hdr_eq(4) [OF r(2) this b_i(1)] show ?thesis by (simp add: store_def sz)
  qed
  have x: "adr b i 0 + n * 64 = adr b (i + k) 0" using adr_next [of b i k] nk by simp
  have "leftover b i m k h = (if n = mem h (adr b i 8) then h
     else let h' = store (adr b (i + k) 0) (mem h (adr b i 0)) h
          in store (adr b (i + k) 8) (mem h' (adr b i 8) - n) h')"
    by (simp add: leftover_def exact i8 sub)
  moreover have "headTaken (link_free p q (leftover b i m k h)) = headTaken h" for p q
    by (simp add: leftover_def link_free_def store_def)
  ultimately have "kmalloc n h = Some (adr b i 16, cut_block b i m k (prev_of b 0 pre) h)"
    using n r(1) ff fnz nz [OF b_i(1)]
    by (simp add: kmalloc_def Let_def MEM_BLOCK_SIZE_def SIZE_HEADER_def x adr_field exact cut_block_def nk [symmetric])
  then show ?thesis by (simp add: b_def k_def)
qed

lemma cut_block_rep:
  assumes rep: "heap_rep h fs ts" and k: "0 < k" and fs: "fs = pre @ (i, m) # suf" and km: "k \<le> m"
    and fit: "afit k fs = Some (i, pre @ (if m = k then suf else (i + k, m - k) # suf))"
  defines "h3 \<equiv> cut_block (HEAP_START_ADDR h) i m k (prev_of (HEAP_START_ADDR h) 0 pre) h"
  shows "heap_rep h3 (pre @ (if m = k then suf else (i + k, m - k) # suf)) ((i, k) # ts)" "same_static h h3"
    "agree (HEAP_START_ADDR h) (set (cells fs)) (mem h) (mem h3)"
proof -
  define b T where "b = HEAP_START_ADDR h" and "T = unat (totalBlocks h)"
  note r = heap_repD [OF rep, folded b_def T_def]
  note st = rep_starts [OF rep, folded T_def]
  have b_i: "i < T" "i + m \<le> T" using rep_block [OF rep, of i m] fs by (simp_all add: T_def)
  from r(3) fs have cp: "chain (mem h) b (headFree h) pre (adr b i 0)" and cs: "chain (mem h) b (mem h (adr b i 0)) suf 0"
    by auto
  define q where "q = (if m = k then mem h (adr b i 0) else adr b (i + k) 0)"
  have dfs: "distinct (map fst fs)" "distinct (cells fs)" using st(3) r(7) by auto
  have bnd: "fst ` set pre \<subseteq> {..<T}" "fst ` set suf \<subseteq> {..<T}" using st(1) fs by auto
  have pos: "\<forall>(i, n)\<in>set pre. 0 < n" "\<forall>(i, n)\<in>set suf. 0 < n" using r(6) fs by auto
  have nin: "fst ` set pre \<inter> {i..<i + m} = {}" "fst ` set suf \<inter> {i..<i + m} = {}"
    using starts_in_cells [OF pos(1)] starts_in_cells [OF pos(2)] dfs(2) unfolding fs by auto
  define h1 where "h1 = leftover b i m k h"
  define h2 where "h2 = link_free (prev_of b 0 pre) q h1"
  have h3: "h3 = (store (adr b i 0) (headTaken h) (store (adr b i 8) (of_nat k) h2))\<lparr>headTaken := adr b i 0\<rparr>"
    by (simp add: h3_def cut_block_def h2_def h1_def q_def b_def Let_def)
  define new where "new = (if m = k then suf else (i + k, m - k) # suf)"
  define F where "F = set (cells fs)"
  have FT: "F \<subseteq> {..<T}" using st(6) by (simp add: F_def)
  have ds: "fst ` set pre \<inter> fst ` set suf = {}" using dfs(1) fs by auto
  have bn: "fst ` set new \<subseteq> {..<T}" "fst ` set new \<inter> fst ` set pre = {}" "i \<notin> fst ` set new"
    "i \<notin> fst ` set pre" using bnd(2) b_i nin ds km k unfolding new_def by auto
  have subF: "(if m = k then {} else {i + k}) \<subseteq> F" "fst ` set pre \<subseteq> F" "{i} \<subseteq> F"
    using fs km k starts_in_cells [OF pos(1)] by (auto simp: F_def)
  have ag1: "agree b (if m = k then {} else {i + k}) (mem h) (mem h1)"
    unfolding h1_def by (rule leftover_agree)
  have "(if m = k then {} else {i + k}) \<subseteq> {..<T}" "fst ` set pre \<inter> (if m = k then {} else {i + k}) = {}"
    using b_i km k nin(1) by auto
  then have c1: "chain (mem h1) b (headFree h1) pre (adr b i 0)" "chain (mem h1) b q new 0"
    using cp chain_agree [OF r(2) ag1 _ bnd(1)] leftover_chain [OF r(2) cs k km b_i(2) bnd(2) nin(2)]
    by (simp_all add: h1_def q_def new_def)
  have st1: "HEAP_START_ADDR h1 = b" "unat (totalBlocks h1) = T" by (simp_all add: h1_def b_def T_def)
  have dp: "distinct (map fst pre)" using dfs(1) fs by simp
  note lf = link_free_chain [OF r(2) [folded st1] c1(1) [folded st1] bnd(1) [folded st1] dp h2_def [folded st1], unfolded st1]
  have c2: "chain (mem h2) b (headFree h2) pre q" "chain (mem h2) b q new 0"
    using lf(1) c1(2) chain_agree [OF r(2) lf(2) bnd(1) bn(1,2)] by simp_all
  have ag3: "agree b {i} (mem h2) (mem h3)" by (simp add: h3 store_def agree_upd)
  have "chain (mem h3) b (headFree h3) (pre @ new) 0"
    using c2 chain_agree [OF r(2) ag3 _ bnd(1)] chain_agree [OF r(2) ag3 _ bn(1)] b_i(1) bn(3,4)
    by (auto simp: h3 store_def)
  moreover have ag: "agree b F (mem h) (mem h3)"
    using agree_mono [OF ag1 subF(1)] agree_mono [OF lf(2) subF(2)] agree_mono [OF ag3 subF(3)]
    by (blast intro: agree_trans)
  moreover have "chain (mem h3) b (headTaken h3) ((i, k) # ts) 0"
  proof -
    have "chain (mem h3) b (headTaken h) ts 0"
      using r(4) chain_agree [OF r(2) ag FT st(2)] st(4) by (simp add: F_def)
    then show ?thesis
      using hdr_eq(3,4) [OF r(2) b_i(1) b_i(1)] by (simp add: h3 store_def)
  qed
  moreover have ss: "same_static h h3"
    using lf by (simp add: same_static_def h3 store_def h1_def b_def)
  moreover have "free_ok 0 (pre @ new)" "mset (cells fs) = mset (cells (pre @ new)) + mset_set {i..<i + k}"
    using afit_free_ok [OF fit r(5)] afit_cells [OF fit] k by (simp_all add: new_def)
  ultimately have "heap_rep h3 (pre @ new) ((i, k) # ts)"
    using rep k by (auto simp: heap_rep_def same_static_def b_def add.assoc)
  then show "heap_rep h3 (pre @ (if m = k then suf else (i + k, m - k) # suf)) ((i, k) # ts)" "same_static h h3"
    "agree (HEAP_START_ADDR h) (set (cells fs)) (mem h) (mem h3)"
    using ss ag by (simp_all add: new_def b_def F_def)
qed

lemma kmalloc_fit:
  assumes rep: "heap_rep h fs ts" and n: "n \<noteq> 0" and fit: "afit (unat n) fs = Some (i, fs')"
  obtains h' where "kmalloc n h = Some (adr (HEAP_START_ADDR h) i 16, h')"
    "heap_rep h' fs' ((i, unat n) # ts)" "same_static h h'"
    "agree (HEAP_START_ADDR h) (set (cells fs)) (mem h) (mem h')"
proof -
  from fit obtain pre m suf where d: "dropWhile (\<lambda>(i, m). m < unat n) fs = (i, m) # suf" "pre = takeWhile (\<lambda>(i, m). m < unat n) fs"
    "fs = pre @ (i, m) # suf" "unat n \<le> m" "fs' = pre @ (if m = unat n then suf else (i + unat n, m - unat n) # suf)" by (rule afit_split)
  have "0 < unat n" using n by (simp add: unat_gt_0)
  from cut_block_rep [OF rep this d(3,4) fit [unfolded d(5)]] kmalloc_cut [OF rep n d(3,2,1,4)]
  show ?thesis using that d(5) by blast
qed

end
