(* ===== verification/KmfreeProof.thy ===== *)
theory KmfreeProof
  imports KmallocProof
begin

text \<open>\<open>_kmfree\<close> implements the ordered, coalescing insertion.\<close>

definition placed :: "block list \<Rightarrow> block \<Rightarrow> block list \<times> block" where
  "placed pre x = (if pre \<noteq> [] \<and> fst (last pre) + snd (last pre) = fst x
     then (butlast pre, (fst (last pre), snd (last pre) + snd x)) else (pre, x))"

lemma ainsert_split:
  assumes "free_ok lo fs"
  shows "ainsert (i, n) fs = fst (placed (takeWhile (\<lambda>(j, m). j < i) fs) (i, n)) @
     join (snd (placed (takeWhile (\<lambda>(j, m). j < i) fs) (i, n))) (dropWhile (\<lambda>(j, m). j < i) fs)"
  using assms
proof (induction fs arbitrary: lo)
  case Nil
  then show ?case by (simp add: placed_def)
next
  case (Cons x fs)
  obtain j m where x: "x = (j, m)" by (cases x)
  with Cons.prems have fs: "free_ok (Suc (j + m)) fs" by simp
  note IH = Cons.IH [OF fs]
  show ?case
  proof (cases "j < i")
    case True
    show ?thesis
    proof (cases "j + m = i")
      case True
      have "takeWhile (\<lambda>(j, m). j < i) fs = []" "dropWhile (\<lambda>(j, m). j < i) fs = fs"
        using fs True by (cases fs; force)+
      with True \<open>j < i\<close> x show ?thesis by (simp add: placed_def)
    next
      case False
      with True x IH show ?thesis
        by (cases "takeWhile (\<lambda>(j, m). j < i) fs" rule: rev_cases) (auto simp: placed_def)
    qed
  next
    case False
    with x show ?thesis by (simp add: placed_def)
  qed
qed

lemma free_taken_split:
  assumes "heap_rep h fs ts" "(i, n) \<in> set ts"
  shows "takeWhile (\<lambda>(j, m). adr (HEAP_START_ADDR h) j 0 \<noteq> adr (HEAP_START_ADDR h) i 0) ts =
      takeWhile (\<lambda>(j, m). j \<noteq> i) ts" (is ?A)
    and "dropWhile (\<lambda>(j, m). adr (HEAP_START_ADDR h) j 0 \<noteq> adr (HEAP_START_ADDR h) i 0) ts =
      dropWhile (\<lambda>(j, m). j \<noteq> i) ts" (is ?B)
    and "\<exists>suf. dropWhile (\<lambda>(j, m). j \<noteq> i) ts = (i, n) # suf" (is ?C)
    and "remove1 (i, n) ts = takeWhile (\<lambda>(j, m). j \<noteq> i) ts @ tl (dropWhile (\<lambda>(j, m). j \<noteq> i) ts)" (is ?D)
proof -
  note g = heap_repD(2) [OF assms(1)]
  have i: "i < unat (totalBlocks h)" using rep_block [OF assms(1), of i n] assms(2) by simp
  have "(case x of (j, m) \<Rightarrow> adr (HEAP_START_ADDR h) j 0 \<noteq> adr (HEAP_START_ADDR h) i 0) = (case x of (j, m) \<Rightarrow> j \<noteq> i)"
    if "x \<in> set ts" for x
    using hdr_eq(1) [OF g _ i, of "fst x"] rep_block(2) [OF assms(1), of "fst x" "snd x"] that by (cases x) simp
  then show ?A ?B by (auto intro: takeWhile_cong dropWhile_cong)
  have d: "distinct (map fst ts)" using rep_starts(3) [OF assms(1)] by simp
  show ?C ?D using d assms(2)
  proof (induction ts)
    case (Cons x ts)
    {
      case 1
      with Cons(1) show ?case by (cases x) force
    next
      case 2
      with Cons(2) show ?case by (cases x) force
    }
  qed simp_all
qed


lemma merge_prev_chain:
  fixes h :: heap
  defines "b \<equiv> HEAP_START_ADDR h"
  assumes g: "geom b T" and c: "chain (mem h) b (headFree h) pre (first_of b suf)" "chain (mem h) b (first_of b suf) suf 0"
    and cur: "mem h (adr b i 8) = of_nat n" "mem h (adr b i 0) = 0"
    and i: "i < T" "i \<notin> fst ` set (pre @ suf)" and bnd: "fst ` set (pre @ suf) \<subseteq> {..<T}"
    and d: "distinct (map fst (pre @ suf))" and le: "\<forall>(j, m)\<in>set pre. j + m \<le> i"
    and res: "placed pre (i, n) = (P, (c, l))"
  obtains h' where "merge_prev (adr b i 0) (prev_of b 0 pre) h = (adr b c 0, h')"
    "chain (mem h') b (headFree h') P (adr b c 0)" "mem h' (adr b c 8) = of_nat l"
    "suf = [] \<Longrightarrow> mem h' (adr b c 0) = 0" "chain (mem h') b (first_of b suf) suf 0"
    "agree b (insert i (fst ` set pre)) (mem h) (mem h')" "same_static h h'" "headTaken h' = headTaken h"
proof (cases pre rule: rev_cases)
  case Nil
  with res have P: "P = []" "c = i" "l = n" by (simp_all add: placed_def)
  show ?thesis
    by (rule that [of "h\<lparr>headFree := adr b i 0\<rparr>"])
      (use c(2) cur in \<open>simp_all add: merge_prev_def Nil P same_static_def\<close>)
next
  case (snoc ps x)
  obtain j m where x: "x = (j, m)" by (cases x)
  have j: "j < T" "j \<noteq> i" "j \<notin> fst ` set ps" "j \<notin> fst ` set suf" using bnd i d snoc x by auto
  have jm: "j + m \<le> i" using le snoc x by simp
  have nz: "adr b j 0 \<noteq> 0" using adr_nz [OF g, of j 0] j by simp
  have cj: "chain (mem h) b (headFree h) ps (adr b j 0)" "mem h (adr b j 8) = of_nat m"
    "mem h (adr b j 0) = first_of b suf" using c(1) snoc x by auto
  have eq: "(adr b j 0 + of_nat m * 64 = adr b i 0) = (j + m = i)"
    using adr_eq_iff [OF g, of "j + m" 0 i 0] jm i(1) by (auto simp: adr_next)
  have bn: "fst ` set ps \<subseteq> {..<T}" "fst ` set suf \<subseteq> {..<T}" using bnd snoc by auto
  show ?thesis
  proof (cases "j + m = i")
    case True
    with res have P: "P = ps" "c = j" "l = m + n" by (simp_all add: placed_def snoc x)
    define h' where "h' = store (adr b j 8) (of_nat m + of_nat n) h"
    have ag: "agree b {j} (mem h) (mem h')" by (simp add: h'_def store_def agree_upd)
    show ?thesis
    proof (rule that [of h'])
      show "merge_prev (adr b i 0) (prev_of b 0 pre) h = (adr b c 0, h')"
        using nz eq True cur cj by (simp add: merge_prev_def snoc x P adr_field h'_def MEM_BLOCK_SIZE_def)
      show "chain (mem h') b (headFree h') P (adr b c 0)"
        using cj(1) chain_agree [OF g ag _ bn(1)] j by (simp add: P h'_def)
      show "mem h' (adr b c 8) = of_nat l" by (simp add: P h'_def store_def)
      show "suf = [] \<Longrightarrow> mem h' (adr b c 0) = 0"
        using cj(3) hdr_eq(3) [OF g j(1) j(1)] by (simp add: P h'_def store_def)
      show "chain (mem h') b (first_of b suf) suf 0"
        using c(2) chain_agree [OF g ag _ bn(2)] j by simp
      show "agree b (insert i (fst ` set pre)) (mem h) (mem h')"
        by (rule agree_mono [OF ag]) (simp add: snoc x)
    qed (simp_all add: h'_def same_static_def)
  next
    case False
    with res have P: "P = pre" "c = i" "l = n" by (simp_all add: placed_def snoc x)
    define h' where "h' = store (adr b j 0) (adr b i 0) (store (adr b i 0) (first_of b suf) h)"
    have ag: "agree b {i, j} (mem h) (mem h')" by (simp add: h'_def store_def agree_upd)
    show ?thesis
    proof (rule that [of h'])
      show "merge_prev (adr b i 0) (prev_of b 0 pre) h = (adr b c 0, h')"
        using nz eq False cur cj by (simp add: merge_prev_def snoc x P adr_field h'_def MEM_BLOCK_SIZE_def Let_def)
      have "chain (mem h') b (headFree h') ps (adr b j 0)"
        using cj(1) chain_agree [OF g ag _ bn(1)] j i snoc by (simp add: h'_def image_Un)
      moreover have "mem h' (adr b j 8) = of_nat m"
        using cj(2) hdr_eq(3) [OF g i(1) j(1)] hdr_eq(3) [OF g j(1) j(1)] by (simp add: h'_def store_def)
      ultimately show "chain (mem h') b (headFree h') P (adr b c 0)"
        by (simp add: P snoc x) (simp add: h'_def store_def)
      show "mem h' (adr b c 8) = of_nat l"
        using cur hdr_eq(4) [OF g i(1) i(1)] hdr_eq(4) [OF g j(1) i(1)] by (simp add: P h'_def store_def)
      show "suf = [] \<Longrightarrow> mem h' (adr b c 0) = 0"
        using hdr_eq(1) [OF g i(1) j(1)] j by (simp add: P h'_def store_def)
      show "chain (mem h') b (first_of b suf) suf 0"
        using c(2) chain_agree [OF g ag _ bn(2)] j i by (simp add: image_Un)
      show "agree b (insert i (fst ` set pre)) (mem h) (mem h')"
        by (rule agree_mono [OF ag]) (simp add: snoc x)
    qed (simp_all add: h'_def same_static_def)
  qed
qed

lemma merge_next_chain:
  fixes h :: heap
  defines "b \<equiv> HEAP_START_ADDR h"
  assumes g: "geom b T" and c: "chain (mem h) b (headFree h) P (adr b c 0)" "chain (mem h) b (first_of b suf) suf 0"
    and cur: "mem h (adr b c 8) = of_nat l" "suf = [] \<Longrightarrow> mem h (adr b c 0) = 0"
    and i: "c < T" "c + l \<le> T" "c \<notin> fst ` set (P @ suf)" and bnd: "fst ` set (P @ suf) \<subseteq> {..<T}"
    and h': "h' = merge_next (adr b c 0) (first_of b suf) h"
  shows "chain (mem h') b (headFree h') (P @ join (c, l) suf) 0"
    and "agree b {c} (mem h) (mem h')" and "same_static h h'" and "headTaken h' = headTaken h"
proof -
  show ag: "agree b {c} (mem h) (mem h')"
    by (simp add: h' merge_next_def Let_def adr_field) (simp add: store_def agree_upd)
  show "same_static h h'" "headTaken h' = headTaken h"
    by (simp_all add: h' merge_next_def same_static_def Let_def)
  have hf: "headFree h' = headFree h" by (simp add: h' merge_next_def Let_def)
  have bn: "fst ` set P \<subseteq> {..<T}" "fst ` set suf \<subseteq> {..<T}" using bnd by auto
  have cP: "chain (mem h') b (headFree h') P (adr b c 0)"
    using c(1) chain_agree [OF g ag _ bn(1)] i hf by (simp add: image_Un)
  have cs: "chain (mem h') b (first_of b suf) suf 0"
    using c(2) chain_agree [OF g ag _ bn(2)] i by (simp add: image_Un)
  note cc = hdr_eq(3,4) [OF g i(1) i(1)]
  have "chain (mem h') b (adr b c 0) (join (c, l) suf) 0"
  proof (cases suf)
    case Nil
    then show ?thesis using cur by (simp add: h' merge_next_def)
  next
    case (Cons x suf')
    obtain j m where x: "x = (j, m)" by (cases x)
    have j: "j < T" using bn(2) Cons x by simp
    have nz: "adr b j 0 \<noteq> 0" using adr_nz [OF g, of j 0] j by simp
    have eq: "(adr b c 0 + of_nat l * 64 = adr b j 0) = (c + l = j)"
      using adr_eq_iff [OF g, of "c + l" 0 j 0] i(2) j by (auto simp: adr_next)
    have cj: "mem h (adr b j 8) = of_nat m" "mem h (adr b j 0) = mem h' (adr b j 0)"
      using c(2) Cons x agree_off(1) [OF g ag _ j] i j by auto
    have nj: "adr b j 0 \<noteq> adr b c 8" using hdr_eq(3) [OF g j i(1)] .
    show ?thesis
    proof (cases "c + l = j")
      case True
      define h1 where "h1 = store (adr b c 8) (of_nat l + of_nat m) h"
      have "mem h1 (adr b j 0) = mem h (adr b j 0)" using nj by (simp add: h1_def store_def)
      moreover have "h' = store (adr b c 0) (mem h1 (adr b j 0)) h1"
        using Cons x nz eq True cur(1) cj(1)
        by (simp add: h' merge_next_def Let_def adr_field MEM_BLOCK_SIZE_def h1_def)
      ultimately have "mem h' (adr b c 0) = mem h (adr b j 0)" "mem h' (adr b c 8) = of_nat (l + m)"
        using cc by (simp_all add: store_def h1_def)
      with cs cj(2) Cons x True show ?thesis by simp
    next
      case False
      then have "h' = store (adr b c 0) (adr b j 0) h"
        using Cons x nz eq cur(1) by (simp add: h' merge_next_def adr_field MEM_BLOCK_SIZE_def)
      then have "mem h' (adr b c 0) = adr b j 0" "mem h' (adr b c 8) = of_nat l"
        using cc cur(1) by (simp_all add: store_def)
      with cs Cons x False show ?thesis by simp
    qed
  qed
  with cP show "chain (mem h') b (headFree h') (P @ join (c, l) suf) 0" by auto
qed


lemma free_ok_distinct: "free_ok lo xs \<Longrightarrow> distinct (map fst xs)"
proof (induction lo xs rule: free_ok.induct)
  case (2 lo j m xs)
  then show ?case by (auto dest: free_ok_pos)
qed simp

text \<open>The blocks before the new one end before it, and the block that the new one becomes part of is where it should be.\<close>

lemma before_new:
  assumes "{i..<i + n} \<inter> set (cells fs) = {}" "0 < n"
  shows "\<forall>(j, m)\<in>set (takeWhile (\<lambda>(j, m). j < i) fs). j + m \<le> i"
proof clarify
  fix j m assume jm: "(j, m) \<in> set (takeWhile (\<lambda>(j, m). j < i) fs)"
  then have "j < i" "(j, m) \<in> set fs" by (auto dest: set_takeWhileD)
  then have "i \<notin> {j..<j + m}" using assms by (force simp: set_cells)
  then show "j + m \<le> i" using \<open>j < i\<close> by simp
qed

lemma placed_bounds:
  assumes res: "placed pre (i, n) = (P, (c, l))" and i: "i + n \<le> T" "0 < n" and fs: "fs = pre @ suf"
    and st: "fst ` set fs \<subseteq> {..<T}" "i \<notin> fst ` set fs" and d: "distinct (map fst fs)"
  shows "c < T" "c + l \<le> T" "c \<notin> fst ` set (P @ suf)" "set P \<subseteq> set pre" "c \<in> insert i (fst ` set pre)"
proof -
  have "c < T \<and> c + l \<le> T \<and> c \<notin> fst ` set (P @ suf) \<and> set P \<subseteq> set pre \<and> c \<in> insert i (fst ` set pre)"
  proof (cases pre rule: rev_cases)
    case Nil
    with res st(2) i fs show ?thesis by (auto simp: placed_def)
  next
    case (snoc ps x)
    with res st i fs d show ?thesis
      by (cases x) (auto simp: placed_def split: if_splits)
  qed
  then show "c < T" "c + l \<le> T" "c \<notin> fst ` set (P @ suf)" "set P \<subseteq> set pre" "c \<in> insert i (fst ` set pre)"
    by blast+
qed

lemma insert_free_chain:
  fixes h :: heap
  defines "b \<equiv> HEAP_START_ADDR h"
  assumes g: "geom b T" and c: "chain (mem h) b (headFree h) fs 0" and ok: "free_ok 0 fs"
    and cur: "mem h (adr b i 8) = of_nat n" and n: "0 < n" "i + n \<le> T"
    and dj: "{i..<i + n} \<inter> set (cells fs) = {}" and bnd: "set (cells fs) \<subseteq> {..<T}"
  obtains h' where "insert_free (adr b i 0) h = Some h'" "chain (mem h') b (headFree h') (ainsert (i, n) fs) 0"
    "agree b (insert i (fst ` set fs)) (mem h) (mem h')" "same_static h h'" "headTaken h' = headTaken h"
proof -
  define pre suf where "pre = takeWhile (\<lambda>(j, m). j < i) fs" and "suf = dropWhile (\<lambda>(j, m). j < i) fs"
  have fs: "fs = pre @ suf" by (simp add: pre_def suf_def)
  have i: "i < T" using n by simp
  have pos: "\<forall>(j, m)\<in>set fs. 0 < m" using ok by (auto dest: free_ok_pos)
  have "i \<in> {i..<i + n}" using n(1) by simp
  then have st: "fst ` set fs \<subseteq> {..<T}" "i \<notin> fst ` set fs"
    using starts_in_cells [OF pos] bnd dj by blast+
  have d: "distinct (map fst fs)" using ok by (rule free_ok_distinct)
  have le: "\<forall>(j, m)\<in>set pre. j + m \<le> i" unfolding pre_def by (rule before_new [OF dj n(1)])
  obtain P c' l where res: "placed pre (i, n) = (P, (c', l))" by (metis prod.exhaust)
  define h0 where "h0 = store (adr b i 0) 0 h"
  have ag0: "agree b {i} (mem h) (mem h0)" by (simp add: h0_def store_def agree_upd)
  have c0: "chain (mem h0) b (headFree h0) fs 0"
    using c chain_agree [OF g ag0 _ st(1)] st(2) i by (simp add: h0_def)
  have cur0: "mem h0 (adr b i 8) = of_nat n" "mem h0 (adr b i 0) = 0"
    using cur hdr_eq(4) [OF g i i] by (simp_all add: h0_def store_def)
  have s0: "HEAP_START_ADDR h0 = b" by (simp add: h0_def b_def)
  have fp: "find_place (mem h0) (adr b i 0) (headFree h0) 0 = Some (first_of b suf, prev_of b 0 pre)"
    using find_place_chain [OF g c0 _ i, of 0] st(1) by (force simp: pre_def suf_def)
  obtain r where cr: "chain (mem h0) b (headFree h0) pre r" "chain (mem h0) b r suf 0"
    using c0 fs by auto
  then have r: "r = first_of b suf" using chain_first by blast
  note mp = merge_prev_chain [of h0 T pre suf i n P c' l, unfolded s0, OF g cr(1) [unfolded r] cr(2) [unfolded r]
      cur0 i st(2) [unfolded fs] st(1) [unfolded fs] d [unfolded fs] le res]
  obtain h1 where h1: "merge_prev (adr b i 0) (prev_of b 0 pre) h0 = (adr b c' 0, h1)"
    "chain (mem h1) b (headFree h1) P (adr b c' 0)" "mem h1 (adr b c' 8) = of_nat l"
    "suf = [] \<Longrightarrow> mem h1 (adr b c' 0) = 0" "chain (mem h1) b (first_of b suf) suf 0"
    "agree b (insert i (fst ` set pre)) (mem h0) (mem h1)" "same_static h0 h1" "headTaken h1 = headTaken h0"
    using mp by blast
  have s1: "HEAP_START_ADDR h1 = b" using h1(7) s0 by (simp add: same_static_def)
  note c' = placed_bounds [OF res n(2,1) fs st d]
  have bP: "fst ` set (P @ suf) \<subseteq> {..<T}" using st(1) fs c'(4) by (auto simp: image_Un)
  define h2 where "h2 = merge_next (adr b c' 0) (first_of b suf) h1"
  note mn = merge_next_chain [of h1 T P c' suf l h2, unfolded s1, OF g h1(2) h1(5) h1(3) h1(4) c'(1-3) bP h2_def]
  have "agree b (insert i (fst ` set fs)) (mem h) (mem h2)"
    using agree_mono [OF ag0, of "insert i (fst ` set fs)"] agree_mono [OF h1(6), of "insert i (fst ` set fs)"]
      agree_mono [OF mn(2), of "insert i (fst ` set fs)"] c'(5)
    by (auto simp: fs image_Un intro: agree_trans)
  moreover have "ainsert (i, n) fs = P @ join (c', l) suf"
    using ainsert_split [OF ok, of i n] res by (simp add: pre_def suf_def)
  moreover have "insert_free (adr b i 0) h = Some h2"
    using fp h1(1) by (simp add: insert_free_def Let_def h2_def h0_def [symmetric])
  moreover have "same_static h h2" "headTaken h2 = headTaken h"
    using mn(3,4) h1(7,8) by (simp_all add: same_static_def h0_def)
  ultimately show ?thesis using that [of h2] mn(1) by simp
qed

text \<open>The block is found and taken out of the list of taken blocks.\<close>

lemma unlink_taken:
  assumes rep: "heap_rep h fs ts" and mem: "(i, n) \<in> set ts"
  defines "b \<equiv> HEAP_START_ADDR h"
  obtains tp suf h1 where "ts = tp @ (i, n) # suf" "remove1 (i, n) ts = tp @ suf"
    "find_taken (mem h) (adr b i 0) (headTaken h) 0 = Some (adr b i 0, prev_of b 0 tp)"
    "h1 = link_taken (prev_of b 0 tp) (mem h (adr b i 0)) h" "same_static h h1" "headFree h1 = headFree h"
    "chain (mem h1) b (headTaken h1) (tp @ suf) 0" "chain (mem h1) b (headFree h1) fs 0"
    "mem h1 (adr b i 8) = of_nat n" "agree b (fst ` set tp) (mem h) (mem h1)"
proof -
  define T where "T = unat (totalBlocks h)"
  note r = heap_repD [OF rep, folded b_def T_def]
  note st = rep_starts [OF rep, folded T_def]
  have i: "i < T" using rep_block [OF rep, of i n] mem by (simp_all add: T_def)
  define tp where "tp = takeWhile (\<lambda>(j, m). j \<noteq> i) ts"
  obtain suf where d: "dropWhile (\<lambda>(j, m). j \<noteq> i) ts = (i, n) # suf"
    using free_taken_split(3) [OF rep mem] by blast
  have ts: "ts = tp @ (i, n) # suf" using takeWhile_dropWhile_Cons(1) [OF d] by (simp add: tp_def)
  have rm: "remove1 (i, n) ts = tp @ suf" using free_taken_split(4) [OF rep mem] d by (simp add: tp_def)
  have bl: "\<And>j l. (j, l) \<in> set ts \<Longrightarrow> j < T" using st(2) by force
  have ft: "find_taken (mem h) (adr b i 0) (headTaken h) 0 = Some (adr b i 0, prev_of b 0 tp)"
    using find_taken_chain [OF r(2,4) bl, where c = "adr b i 0" and prev = 0] free_taken_split(1,2) [OF rep mem] d
    by (simp add: tp_def b_def)
  from r(4) ts have ct: "chain (mem h) b (headTaken h) tp (adr b i 0)" "mem h (adr b i 8) = of_nat n"
    "chain (mem h) b (mem h (adr b i 0)) suf 0" by auto
  have "distinct (map fst ts)" using st(3) by simp
  then have bnd: "fst ` set tp \<subseteq> {..<T}" "fst ` set suf \<subseteq> {..<T}" "distinct (map fst tp)"
    "fst ` set suf \<inter> fst ` set tp = {}" "i \<notin> fst ` set tp"
    using st(2) unfolding ts by auto
  define h1 where "h1 = link_taken (prev_of b 0 tp) (mem h (adr b i 0)) h"
  note lt = link_taken_chain [of h tp "adr b i 0" h1 "mem h (adr b i 0)", folded b_def T_def,
      OF r(2) ct(1) bnd(1,3) h1_def]
  have "chain (mem h1) b (headTaken h1) (tp @ suf) 0"
    using lt(1) ct(3) chain_agree [OF r(2) lt(2) bnd(1) bnd(2) bnd(4)] by auto
  moreover have "fst ` set tp \<inter> fst ` set fs = {}" using st(3) ts by auto
  then have "chain (mem h1) b (headFree h1) fs 0"
    using r(3) chain_agree [OF r(2) lt(2) bnd(1) st(1)] lt(3) by (simp add: Int_commute)
  moreover have "mem h1 (adr b i 8) = of_nat n"
    using agree_off(2) [OF r(2) lt(2) bnd(1) i bnd(5)] ct(2) by simp
  moreover have "same_static h h1" using lt by (simp add: same_static_def b_def)
  ultimately show ?thesis using that [OF ts rm ft h1_def] lt(2,3) by simp
qed

lemma kmfree_taken:
  assumes rep: "heap_rep h fs ts" and mem: "(i, n) \<in> set ts"
  obtains h' where "kmfree (adr (HEAP_START_ADDR h) i 16) h = Some (0, h')"
    "heap_rep h' (ainsert (i, n) fs) (remove1 (i, n) ts)" "same_static h h'"
    "agree (HEAP_START_ADDR h) (fst ` set (fs @ ts)) (mem h) (mem h')"
proof -
  define b T where "b = HEAP_START_ADDR h" and "T = unat (totalBlocks h)"
  note r = heap_repD [OF rep, folded b_def T_def]
  note st = rep_starts [OF rep, folded T_def]
  have i: "0 < n" "i < T" "i + n \<le> T" using rep_block [OF rep, of i n] mem by (simp_all add: T_def)
  obtain tp suf h1 where ts: "ts = tp @ (i, n) # suf" and rm: "remove1 (i, n) ts = tp @ suf"
    and ft: "find_taken (mem h) (adr b i 0) (headTaken h) 0 = Some (adr b i 0, prev_of b 0 tp)"
    and h1: "h1 = link_taken (prev_of b 0 tp) (mem h (adr b i 0)) h" "same_static h h1" "headFree h1 = headFree h"
    and c1: "chain (mem h1) b (headTaken h1) (tp @ suf) 0" and f1: "chain (mem h1) b (headFree h1) fs 0"
    and n1: "mem h1 (adr b i 8) = of_nat n" and lt: "agree b (fst ` set tp) (mem h) (mem h1)"
    unfolding b_def by (rule unlink_taken [OF rep mem])
  have b1: "HEAP_START_ADDR h1 = b" using h1(2) by (simp add: same_static_def b_def)
  have nz: "adr b i 0 \<noteq> 0" "adr b i 16 \<noteq> 0"
    using adr_nz [OF r(2), of i 0] adr_nz [OF r(2), of i 16] i by simp_all
  have dj: "{i..<i + n} \<inter> set (cells fs) = {}"
    using r(7) ts by auto
  obtain h2 where h2: "insert_free (adr b i 0) h1 = Some h2" "chain (mem h2) b (headFree h2) (ainsert (i, n) fs) 0"
    "agree b (insert i (fst ` set fs)) (mem h1) (mem h2)" "same_static h1 h2" "headTaken h2 = headTaken h1"
    using insert_free_chain [of h1 T fs i n, unfolded b1, OF r(2) f1 r(5) n1 i(1,3) dj st(6)] by blast
  have "kmfree (adr b i 16) h = Some (0, h2)"
    using ft nz h2(1) by (simp add: kmfree_def Let_def SIZE_HEADER_def adr_field h1(1))
  moreover have ss: "same_static h h2" using h1(2) h2(4) by (simp add: same_static_def)
  moreover have "agree b (fst ` set (fs @ ts)) (mem h) (mem h2)"
    using agree_mono [OF lt, of "fst ` set (fs @ ts)"] agree_mono [OF h2(3), of "fst ` set (fs @ ts)"]
    by (auto simp: ts image_Un intro: agree_trans)
  moreover have "heap_rep h2 (ainsert (i, n) fs) (tp @ suf)"
  proof -
    have "insert i (fst ` set fs) \<subseteq> {..<T}" "fst ` set (tp @ suf) \<subseteq> {..<T}"
      "fst ` set (tp @ suf) \<inter> insert i (fst ` set fs) = {}"
      using st(1,2,3) i(2) ts by auto
    from chain_agree [OF r(2) h2(3) this] have "chain (mem h2) b (headTaken h2) (tp @ suf) 0"
      using c1 h2(5) by simp
    moreover have "free_ok 0 (ainsert (i, n) fs)" by (rule ainsert_free_ok [OF r(5) i(1) dj]) simp
    moreover have "mset (cells (ainsert (i, n) fs)) + mset (cells (tp @ suf)) = mset [0..<T]"
      using rep by (simp add: ainsert_cells heap_rep_def ts T_def algebra_simps)
    moreover have "\<forall>(i, n)\<in>set (tp @ suf). 0 < n" using r(6) ts by auto
    ultimately show ?thesis
      using rep ss h2(2) by (simp add: heap_rep_def same_static_def b_def T_def)
  qed
  ultimately show ?thesis using that [of h2] rm by (simp add: b_def)
qed

lemma kmfree_not_taken:
  assumes rep: "heap_rep h fs ts" and p: "p \<noteq> 0"
    and nt: "\<And>i n. (i, n) \<in> set ts \<Longrightarrow> p \<noteq> adr (HEAP_START_ADDR h) i 16"
  shows "kmfree p h = Some (-1, h)"
proof -
  define b T where "b = HEAP_START_ADDR h" and "T = unat (totalBlocks h)"
  note r = heap_repD [OF rep, folded b_def T_def]
  have bl: "\<And>j l. (j, l) \<in> set ts \<Longrightarrow> j < T" using rep_starts(2) [OF rep] by (force simp: T_def)
  have "adr b j 0 \<noteq> p - 16" if "(j, l) \<in> set ts" for j l
    using nt [OF that] by (metis add_diff_cancel_right' adr_field(2) b_def diff_add_cancel)
  then have "dropWhile (\<lambda>(j, m). adr b j 0 \<noteq> p - 16) ts = []" by auto
  then have "find_taken (mem h) (p - 16) (headTaken h) 0 = Some (0, prev_of b 0 (takeWhile (\<lambda>(j, m). adr b j 0 \<noteq> p - 16) ts))"
    using find_taken_chain [OF r(2,4) bl, where c = "p - 16" and prev = 0] by (simp del: dropWhile_eq_Nil_conv)
  then show ?thesis using p by (simp add: kmfree_def SIZE_HEADER_def Let_def)
qed

end
