(* ===== verification/HeapInterface.thy ===== *)
theory HeapInterface
  imports KmfreeProof
begin

text \<open>
  What the rest of the kernel relies on: the allocator as a map from the live pointers to the
  number of blocks they were allocated with. The locale states the contract; its interpretation
  at the end shows that \<open>_kmalloc\<close> and \<open>_kmfree\<close> keep it.
\<close>

locale kernel_heap =
  fixes malloc :: "u64 \<Rightarrow> 'h \<Rightarrow> (u64 \<times> 'h) option"
    and free :: "u64 \<Rightarrow> 'h \<Rightarrow> (int \<times> 'h) option"
    and rep :: "'h \<Rightarrow> (u64 \<rightharpoonup> nat) \<Rightarrow> nat \<Rightarrow> bool"
  assumes null: "rep h L f \<Longrightarrow> L 0 = None"
    and malloc_law: "rep h L f \<Longrightarrow> n \<noteq> 0 \<Longrightarrow>
      \<exists>p h'. malloc n h = Some (p, h') \<and>
        (if p = 0 then h' = h else L p = None \<and> unat n \<le> f \<and> rep h' (L(p \<mapsto> unat n)) (f - unat n))"
    and malloc_one: "rep h L f \<Longrightarrow> 0 < f \<Longrightarrow> malloc 1 h = Some (p, h') \<Longrightarrow> p \<noteq> 0"
    and free_live: "rep h L f \<Longrightarrow> L p = Some k \<Longrightarrow>
      \<exists>h'. free p h = Some (0, h') \<and> 0 < k \<and> rep h' (L(p := None)) (f + k)"
    and free_dead: "rep h L f \<Longrightarrow> p \<noteq> 0 \<Longrightarrow> L p = None \<Longrightarrow> free p h = Some (-1, h)"
    and free_null: "free 0 h = Some (0, h)"
    and finite_live: "rep h L f \<Longrightarrow> finite (dom L) \<and> card (dom L) < 2 ^ 58"
begin

lemma malloc_one_ok:
  assumes "rep h L f" "0 < f"
  obtains p h' where "malloc 1 h = Some (p, h')" "p \<noteq> 0" "L p = None" "rep h' (L(p \<mapsto> 1)) (f - 1)"
proof -
  obtain p h' where m: "malloc 1 h = Some (p, h')" using malloc_law [OF assms(1), of 1] by auto
  have "p \<noteq> 0" using malloc_one [OF assms m] .
  with malloc_law [OF assms(1), of 1] m that [OF m] show ?thesis by auto
qed

lemma free_any:
  assumes "rep h L f"
  obtains r h' where "free p h = Some (r, h')" "rep h' (L(p := None)) (f + (case L p of None \<Rightarrow> 0 | Some k \<Rightarrow> k))"
proof (cases "L p")
  case None
  then have L: "L(p := None) = L" by (simp add: fun_upd_idem)
  show ?thesis
  proof (cases "p = 0")
    case True
    then have "free p h = Some (0, h)" using free_null by simp
    then show ?thesis by (rule that) (simp add: L None assms)
  next
    case False
    show ?thesis by (rule that [OF free_dead [OF assms False None]]) (simp add: L None assms)
  qed
next
  case (Some k)
  from free_live [OF assms Some] obtain h' where "free p h = Some (0, h')" "rep h' (L(p := None)) (f + k)" by auto
  with that [of 0 h'] show ?thesis by (simp add: Some)
qed

end

subsection \<open>The live pointers of the code's heap\<close>

definition heap_live :: "heap \<Rightarrow> (u64 \<rightharpoonup> nat) \<Rightarrow> nat \<Rightarrow> bool" where
  "heap_live h L f \<longleftrightarrow> (\<exists>fs ts. heap_rep h fs ts \<and>
     L = map_of (map (\<lambda>(i, n). (adr (HEAP_START_ADDR h) i 16, n)) ts) \<and> f = length (cells fs))"

abbreviation live_map :: "u64 \<Rightarrow> block list \<Rightarrow> u64 \<rightharpoonup> nat" where
  "live_map b ts \<equiv> map_of (map (\<lambda>(i, n). (adr b i 16, n)) ts)"

lemma live_map_None:
  assumes "heap_rep h fs ts" "live_map (HEAP_START_ADDR h) ts p = None" "(i, n) \<in> set ts"
  shows "p \<noteq> adr (HEAP_START_ADDR h) i 16"
  using assms(2,3) by (force simp: map_of_eq_None_iff)

lemma live_map_Some:
  assumes "live_map b ts p = Some n"
  obtains i where "(i, n) \<in> set ts" "p = adr b i 16"
  using map_of_SomeD [OF assms] by auto

lemma payload_inj:
  assumes "geom b T" "i < T" "j < T"
  shows "adr b i 16 = adr b j 16 \<longleftrightarrow> i = j"
proof -
  have le: "64 * i + 16 \<le> 64 * T" "64 * j + 16 \<le> 64 * T" using assms(2,3) by simp_all
  show ?thesis using adr_eq_iff [OF assms(1) le] by simp
qed

lemma live_map_remove1:
  assumes rep: "heap_rep h fs ts" and i: "(i, n) \<in> set ts"
  shows "live_map (HEAP_START_ADDR h) (remove1 (i, n) ts) =
    (live_map (HEAP_START_ADDR h) ts)(adr (HEAP_START_ADDR h) i 16 := None)"
proof -
  have d: "distinct (map fst ts)" and b: "\<And>j m. (j, m) \<in> set ts \<Longrightarrow> j < unat (totalBlocks h)"
    using rep_starts(2,3) [OF rep] by force+
  note inj = payload_inj [OF heap_repD(2) [OF rep]]
  show ?thesis using d b i
  proof (induction ts)
    case (Cons x ts)
    obtain j m where x: "x = (j, m)" by (cases x)
    have j: "j < unat (totalBlocks h)" and i: "i < unat (totalBlocks h)" using Cons.prems x by auto
    show ?case
    proof (cases "j = i")
      case True
      with Cons.prems x have m: "m = n" by force
      have "map_of (map (\<lambda>(i, n). (adr (HEAP_START_ADDR h) i 16, n)) ts) (adr (HEAP_START_ADDR h) i 16) = None"
        unfolding map_of_eq_None_iff using Cons.prems(1,2) x True inj [OF _ i] by force
      with True m x show ?thesis by (simp add: fun_eq_iff)
    next
      case False
      have IH: "live_map (HEAP_START_ADDR h) (remove1 (i, n) ts) =
        (live_map (HEAP_START_ADDR h) ts)(adr (HEAP_START_ADDR h) i 16 := None)"
        using Cons.prems x False by (intro Cons.IH) auto
      with False x inj [OF j i] show ?thesis by (simp add: fun_eq_iff)
    qed
  qed simp
qed

lemma heap_live_malloc:
  assumes "heap_live h L f" "n \<noteq> 0"
  shows "\<exists>p h'. kmalloc n h = Some (p, h') \<and>
    (if p = 0 then h' = h else L p = None \<and> unat n \<le> f \<and> heap_live h' (L(p \<mapsto> unat n)) (f - unat n))"
proof -
  from assms(1) obtain fs ts where rep: "heap_rep h fs ts" and L: "L = live_map (HEAP_START_ADDR h) ts" "f = length (cells fs)"
    by (auto simp: heap_live_def)
  show ?thesis
  proof (cases "afit (unat n) fs")
    case None
    from kmalloc_none [OF rep assms(2) None] show ?thesis by simp
  next
    case (Some x)
    obtain i fs' where x: "x = (i, fs')" by (cases x)
    obtain h' where h': "kmalloc n h = Some (adr (HEAP_START_ADDR h) i 16, h')"
      "heap_rep h' fs' ((i, unat n) # ts)" "same_static h h'"
      using kmalloc_fit [OF rep assms(2) Some [unfolded x]] by blast
    have T: "totalBlocks h' = totalBlocks h" "HEAP_START_ADDR h' = HEAP_START_ADDR h"
      using h'(3) by (simp_all add: same_static_def)
    have i: "i < unat (totalBlocks h)" using rep_block(2) [OF h'(2), of i "unat n"] T by simp
    have "L (adr (HEAP_START_ADDR h) i 16) = None"
      unfolding L(1) map_of_eq_None_iff
    proof
      assume "adr (HEAP_START_ADDR h) i 16 \<in> fst ` set (map (\<lambda>(i, n). (adr (HEAP_START_ADDR h) i 16, n)) ts)"
      then obtain j m where j: "(j, m) \<in> set ts" "adr (HEAP_START_ADDR h) i 16 = adr (HEAP_START_ADDR h) j 16" by auto
      have "j < unat (totalBlocks h)" using rep_block(2) [OF rep, of j m] j(1) by simp
      with payload_inj [OF heap_repD(2) [OF rep] i, of j] j(2) have "i = j" by blast
      moreover have "distinct (map fst ((i, unat n) # ts))" using rep_starts(3) [OF h'(2)] by simp
      ultimately show False using j(1) by force
    qed
    moreover have "adr (HEAP_START_ADDR h) i 16 \<noteq> 0" using adr_nz [OF heap_repD(2) [OF rep], of i 16] i by simp
    moreover have sz: "length (cells fs) = length (cells fs') + unat n"
      using arg_cong [OF afit_cells [OF Some [unfolded x]], of size] by simp
    moreover have "heap_live h' (L(adr (HEAP_START_ADDR h) i 16 \<mapsto> unat n)) (f - unat n)"
      unfolding heap_live_def using h'(2) T(2) L sz by (intro exI [of _ fs'] exI [of _ "(i, unat n) # ts"]) simp
    ultimately show ?thesis using h'(1) L(2) by simp
  qed
qed

lemma heap_live_free:
  assumes "heap_live h L f" "L p = Some n"
  shows "\<exists>h'. kmfree p h = Some (0, h') \<and> 0 < n \<and> heap_live h' (L(p := None)) (f + n)"
proof -
  from assms(1) obtain fs ts where rep: "heap_rep h fs ts" and L: "L = live_map (HEAP_START_ADDR h) ts" "f = length (cells fs)"
    by (auto simp: heap_live_def)
  obtain i where i: "(i, n) \<in> set ts" "p = adr (HEAP_START_ADDR h) i 16"
    using live_map_Some assms(2) L(1) by metis
  obtain h' where h': "kmfree (adr (HEAP_START_ADDR h) i 16) h = Some (0, h')"
    "heap_rep h' (ainsert (i, n) fs) (remove1 (i, n) ts)" "same_static h h'"
    using kmfree_taken [OF rep i(1)] by blast
  have sz: "length (cells (ainsert (i, n) fs)) = f + n"
    using arg_cong [OF ainsert_cells [of i n fs], of size] L(2) by simp
  have "heap_live h' (L(p := None)) (f + n)"
    unfolding heap_live_def using h'(2,3) live_map_remove1 [OF rep i(1)] L(1) i(2) sz
    by (intro exI [of _ "ainsert (i, n) fs"] exI [of _ "remove1 (i, n) ts"]) (simp add: same_static_def)
  moreover have "0 < n" using rep_block(1) [OF rep, of i n] i(1) by simp
  ultimately show ?thesis using h'(1) i(2) by simp
qed

lemma heap_live_one:
  assumes "heap_live h L f" "0 < f" "kmalloc 1 h = Some (p, h')"
  shows "p \<noteq> 0"
proof -
  from assms(1,2) obtain fs ts where rep: "heap_rep h fs ts" and "cells fs \<noteq> []" by (auto simp: heap_live_def)
  then obtain x xs where fs: "fs = x # xs" by (cases fs) auto
  obtain i n where x: "x = (i, n)" by (cases x)
  have "0 < n" using rep_block(1) [OF rep, of i n] fs x by simp
  then obtain fs' where fit: "afit (unat (1 :: u64)) fs = Some (i, fs')" by (simp add: afit_def fs x)
  obtain h'' where h'': "kmalloc 1 h = Some (adr (HEAP_START_ADDR h) i 16, h'')"
    using kmalloc_fit [OF rep _ fit] by force
  have "i < unat (totalBlocks h)" using rep_block(2) [OF rep, of i n] fs x by simp
  then have "adr (HEAP_START_ADDR h) i 16 \<noteq> 0" using adr_nz [OF heap_repD(2) [OF rep], of i 16] by simp
  with h'' assms(3) show ?thesis by simp
qed

lemma heap_live_finite:
  assumes "heap_live h L f"
  shows "finite (dom L) \<and> card (dom L) < 2 ^ 58"
proof -
  from assms obtain fs ts where rep: "heap_rep h fs ts" and L: "L = live_map (HEAP_START_ADDR h) ts" "f = length (cells fs)"
    by (auto simp: heap_live_def)
  let ?T = "unat (totalBlocks h)"
  have "dom L \<subseteq> (\<lambda>i. adr (HEAP_START_ADDR h) i 16) ` {..<?T}"
    using rep_starts(2) [OF rep] unfolding L by (force elim!: live_map_Some)
  then have "card (dom L) \<le> ?T" "finite (dom L)"
    using surj_card_le [of "{..<?T}" "dom L"] finite_surj [of "{..<?T}" "dom L"] by auto
  moreover have "?T < 2 ^ 58" using heap_repD(2) [OF rep] by (simp add: geom_def)
  ultimately show ?thesis by simp
qed

interpretation kh: kernel_heap kmalloc kmfree heap_live
proof unfold_locales
  fix h L f assume "heap_live h L f"
  then obtain fs ts where rep: "heap_rep h fs ts" and L: "L = live_map (HEAP_START_ADDR h) ts" "f = length (cells fs)"
    by (auto simp: heap_live_def)
  have "\<And>i n. (i, n) \<in> set ts \<Longrightarrow> adr (HEAP_START_ADDR h) i 16 \<noteq> 0"
    using adr_nz [OF heap_repD(2) [OF rep]] rep_block(2) [OF rep] by fastforce
  then show "L 0 = None" unfolding L(1) by (force simp: map_of_eq_None_iff)
next
  fix h L f p assume hl: "heap_live h L f" and p: "p \<noteq> 0" "L p = None"
  then obtain fs ts where rep: "heap_rep h fs ts" and L: "L = live_map (HEAP_START_ADDR h) ts" "f = length (cells fs)"
    by (auto simp: heap_live_def)
  show "kmfree p h = Some (-1, h)"
    by (rule kmfree_not_taken [OF rep p(1)]) (use live_map_None [OF rep] p(2) L(1) in blast)
qed (use heap_live_malloc heap_live_free heap_live_one heap_live_finite in \<open>auto simp: kmfree_def\<close>)

subsection \<open>The heap determines its live pointers\<close>

lemma chain_unique:
  assumes g: "geom b T"
  shows "chain m b p xs 0 \<Longrightarrow> chain m b p ys 0 \<Longrightarrow> (\<forall>(i, n)\<in>set xs \<union> set ys. i < T \<and> n \<le> T) \<Longrightarrow> xs = ys"
proof (induction xs arbitrary: p ys)
  case Nil
  then show ?case using adr_nz [OF g] by (cases ys) force+
next
  case (Cons x xs)
  obtain i n where x: "x = (i, n)" by (cases x)
  have i: "i < T" "n \<le> T" "p = adr b i 0" "m (adr b i 8) = of_nat n" using Cons.prems x by auto
  then have "p \<noteq> 0" using adr_nz [OF g, of i 0] by simp
  then obtain j k zs where ys: "ys = (j, k) # zs" using Cons.prems(2) by (cases ys) auto
  have j: "j < T" "k \<le> T" "p = adr b j 0" "m (adr b j 8) = of_nat k" using Cons.prems(2,3) ys by auto
  have ij: "i = j" using adr_eq_iff [OF g, of i 0 j 0] i(1,3) j(1,3) by simp
  have "n < 2 ^ 64" "k < 2 ^ 64" using i(2) j(2) g by (simp_all add: geom_def)
  moreover have "(of_nat n :: u64) = of_nat k" using i(4) j(4) ij by simp
  ultimately have "n = k" using unat_of_nat_small [of n] unat_of_nat_small [of k] by metis
  moreover have "xs = zs" by (rule Cons.IH [of "m p"]) (use Cons.prems x ys i(3) j(3) in auto)
  ultimately show ?case using x ys ij by simp
qed

lemma heap_live_unique:
  assumes "heap_live h L f" "heap_live h L' f'"
  shows "L = L'" "f = f'"
proof -
  obtain fs ts where 1: "heap_rep h fs ts" "L = live_map (HEAP_START_ADDR h) ts" "f = length (cells fs)"
    using assms(1) by (auto simp: heap_live_def)
  obtain gs us where 2: "heap_rep h gs us" "L' = live_map (HEAP_START_ADDR h) us" "f' = length (cells gs)"
    using assms(2) by (auto simp: heap_live_def)
  note r = heap_repD [OF 1(1)] heap_repD [OF 2(1)]
  have b: "\<forall>(i, n)\<in>set (fs @ ts) \<union> set (gs @ us). i < unat (totalBlocks h) \<and> n \<le> unat (totalBlocks h)"
    using rep_block(2,3) [OF 1(1)] rep_block(2,3) [OF 2(1)] by fastforce
  have "fs = gs" by (rule chain_unique [OF r(2)]) (use r(3,11) b in auto)
  moreover have "ts = us" by (rule chain_unique [OF r(2)]) (use r(4,12) b in auto)
  ultimately show "L = L'" "f = f'" using 1 2 by simp_all
qed

subsection \<open>Stores behind the headers\<close>

text \<open>Addresses of payloads, and stores behind the header of a block: they leave the lists of the allocator alone,
  whether or not the block is live.\<close>

definition block_ptr :: "heap \<Rightarrow> u64 \<Rightarrow> bool" where
  "block_ptr h p \<longleftrightarrow> initialazed h \<and> (\<exists>i<unat (totalBlocks h). p = adr (HEAP_START_ADDR h) i 16)"

lemma live_block_ptr:
  assumes "heap_live h L f" "L p = Some n"
  shows "block_ptr h p"
proof -
  from assms(1) obtain fs ts where rep: "heap_rep h fs ts" and L: "L = live_map (HEAP_START_ADDR h) ts"
    by (auto simp: heap_live_def)
  obtain i where i: "(i, n) \<in> set ts" "p = adr (HEAP_START_ADDR h) i 16" using live_map_Some assms(2) L by metis
  then have "i < unat (totalBlocks h)" using rep_block(2) [OF rep, of i n] by simp
  then show ?thesis using i(2) heap_repD(1) [OF rep] by (auto simp: block_ptr_def)
qed

lemma heap_live_payload:
  assumes "heap_live h L f" "block_ptr h p" "d < 48"
  shows "heap_live (store (p + of_nat d) v h) L f"
proof -
  from assms(1) obtain fs ts where rep: "heap_rep h fs ts" and L: "L = live_map (HEAP_START_ADDR h) ts" "f = length (cells fs)"
    by (auto simp: heap_live_def)
  let ?b = "HEAP_START_ADDR h" and ?T = "unat (totalBlocks h)"
  obtain i where i: "i < ?T" "p = adr ?b i 16" using assms(2) by (auto simp: block_ptr_def)
  have p: "p + of_nat d = adr ?b i (16 + d)" unfolding i(2) by (simp add: adr_def)
  have g: "geom ?b ?T" by (rule heap_repD(2) [OF rep])
  have ne: "adr ?b j e \<noteq> adr ?b i (16 + d)" if "(j, n) \<in> set fs \<union> set ts" "e \<in> {0, 8}" for j n e
  proof -
    have "j < ?T" using rep_block(2) [OF rep, of j n] that(1) by simp
    then have l: "64 * j + e \<le> 64 * ?T" "64 * i + (16 + d) \<le> 64 * ?T" using i(1) assms(3) that(2) by auto
    have "64 * j + e \<noteq> 64 * i + (16 + d)" using assms(3) that(2) by auto presburger+
    then show ?thesis unfolding adr_eq_iff [OF g l] .
  qed
  have c: "chain (mem (store (p + of_nat d) v h)) ?b q xs 0 = chain (mem h) ?b q xs 0" if "set xs \<subseteq> set fs \<union> set ts" for q xs
  proof (rule chain_cong)
    fix j n assume "(j, n) \<in> set xs"
    then have "(j, n) \<in> set fs \<union> set ts" using that by blast
    from ne [OF this, of 0] ne [OF this, of 8]
    show "mem (store (p + of_nat d) v h) (adr ?b j 0) = mem h (adr ?b j 0) \<and> mem (store (p + of_nat d) v h) (adr ?b j 8) = mem h (adr ?b j 8)"
      by (simp add: store_def p)
  qed
  have s: "HEAP_START_ADDR (store a v h) = ?b" "totalBlocks (store a v h) = totalBlocks h" "headFree (store a v h) = headFree h"
    "headTaken (store a v h) = headTaken h" "initialazed (store a v h) = initialazed h" for a by (simp_all add: store_def)
  have "heap_rep (store (p + of_nat d) v h) fs ts" using rep c [of fs] c [of ts] unfolding heap_rep_def s by simp
  then show ?thesis using L unfolding heap_live_def by (intro exI [of _ fs] exI [of _ ts]) (simp add: s)
qed

definition same_place :: "heap \<Rightarrow> heap \<Rightarrow> bool" where
  "same_place h h' \<longleftrightarrow> (initialazed h \<longrightarrow> initialazed h' \<and> HEAP_START_ADDR h' = HEAP_START_ADDR h \<and> totalBlocks h' = totalBlocks h)"

lemma same_place_refl [simp]: "same_place h h"
  by (simp add: same_place_def)

lemma same_place_trans: "same_place h1 h2 \<Longrightarrow> same_place h2 h3 \<Longrightarrow> same_place h1 h3"
  by (simp add: same_place_def)

lemma block_ptr_place: "same_place h h' \<Longrightarrow> block_ptr h p \<Longrightarrow> block_ptr h' p"
  by (auto simp: same_place_def block_ptr_def)

lemma kmalloc_place: "kmalloc n h = Some (p, h') \<Longrightarrow> same_place h h'"
  by (auto simp: same_place_def kmalloc_def init_def Let_def link_free_def store_def Option.bind_eq_Some_conv split: if_splits)

lemma link_place [simp]: "same_place h (store a v h)" "same_place h (link_taken prev p h)"
  by (simp_all add: same_place_def store_def link_taken_def)

lemma merge_place: "same_place h (snd (merge_prev cur prev h))" "same_place h (merge_next cur next h)"
  by (simp_all add: same_place_def merge_prev_def merge_next_def store_def Let_def)

lemma kmfree_place:
  assumes "kmfree p h = Some (r, h')"
  shows "same_place h h'"
proof -
  have i: "same_place h h2" if f: "insert_free cur h1 = Some h2" "same_place h h1" for cur h1 h2
  proof -
    obtain nx pr where "h2 = merge_next (fst (merge_prev cur pr (store cur 0 h1))) nx (snd (merge_prev cur pr (store cur 0 h1)))"
      using f(1) by (auto simp: insert_free_def Let_def Option.bind_eq_Some_conv case_prod_unfold)
    then show ?thesis using f(2) merge_place link_place(1) same_place_trans by metis
  qed
  show ?thesis
  proof (cases "p = 0")
    case True
    then show ?thesis using assms by (simp add: kmfree_def same_place_def)
  next
    case False
    then obtain nx pr where f: "find_taken (mem h) (p - SIZE_HEADER) (headTaken h) 0 = Some (nx, pr)"
      using assms by (auto simp: kmfree_def Let_def Option.bind_eq_Some_conv)
    show ?thesis
    proof (cases "nx = 0")
      case True
      then show ?thesis using assms f False by (simp add: kmfree_def Let_def same_place_def)
    next
      case nz: False
      then have "insert_free (p - SIZE_HEADER) (link_taken pr (mem h nx) h) = Some h'"
        using assms f False by (auto simp: kmfree_def Let_def Option.bind_eq_Some_conv)
      then show ?thesis by (rule i) simp
    qed
  qed
qed

end
