(* ===== verification/AllocatorProps.thy ===== *)
theory AllocatorProps
  imports HeapInterface
begin

text \<open>
  The properties of the allocator: initialisation, first fit, release with coalescing, what
  happens to the memory of the other blocks, and the reachable heaps.
\<close>

subsection \<open>The memory of a block\<close>

text \<open>Address \<open>a\<close> is in the part of block \<open>(i, n)\<close> after its header.\<close>

definition payload :: "u64 \<Rightarrow> nat \<Rightarrow> nat \<Rightarrow> u64 \<Rightarrow> bool" where
  "payload b i n a \<longleftrightarrow> unat b + 64 * i + 16 \<le> unat a \<and> unat a < unat b + 64 * (i + n)"

lemma payload_agree:
  assumes g: "geom b T" and a: "payload b i n a" "i + n \<le> T" and S: "S \<subseteq> {..<T}" "S \<inter> {i<..<i + n} = {}"
    and ag: "agree b S m m'"
  shows "m' a = m a"
proof -
  have "a \<noteq> adr b j 0 \<and> a \<noteq> adr b j 8" if j: "j \<in> S" for j
  proof -
    have "j < T" "\<not> (i < j \<and> j < i + n)" using S j by auto
    moreover have "unat (adr b j 0) = unat b + 64 * j" "unat (adr b j 8) = unat b + 64 * j + 8"
      using unat_adr [OF g, of j 0] unat_adr [OF g, of j 8] \<open>j < T\<close> by simp_all
    ultimately show ?thesis using a by (auto simp: payload_def)
  qed
  with ag show ?thesis by (simp add: agree_def)
qed

lemma rep_disjoint:
  assumes rep: "heap_rep h fs ts" and t: "(i, n) \<in> set ts" and j: "j \<in> fst ` set (fs @ ts)"
  shows "\<not> (i < j \<and> j < i + n)"
proof
  assume ij: "i < j \<and> j < i + n"
  then have "j \<in> {i..<i + n}" by simp
  with t have jc: "j \<in> set (cells ts)" unfolding set_cells by blast
  note r = heap_repD [OF rep]
  have "fst ` set fs \<subseteq> set (cells fs)" using starts_in_cells [of fs] r(6) by auto
  moreover have "j \<notin> set (cells fs)" using r(7) jc by auto
  ultimately have "j \<notin> fst ` set fs" by (rule contra_subsetD)
  with j have "j \<in> fst ` set ts" by (simp add: image_Un)
  then obtain m where m: "(j, m) \<in> set ts" by auto
  obtain ys zs where ts: "ts = ys @ (i, n) # zs" using t by (auto simp: in_set_conv_decomp)
  have "distinct (cells ts)" using r(7) by simp
  then have d: "{i..<i + n} \<inter> set (cells ys) = {}" "{i..<i + n} \<inter> set (cells zs) = {}" unfolding ts by auto
  have "(j, m) \<in> set ys \<or> (j, m) \<in> set zs" using m ts ij by auto
  moreover have "0 < m" using r(6) m by auto
  then have "j \<in> {j..<j + m}" by simp
  ultimately have "j \<in> set (cells ys) \<or> j \<in> set (cells zs)" unfolding set_cells by blast
  moreover have "j \<in> {i..<i + n}" using ij by simp
  ultimately show False using d by blast
qed

subsection \<open>Initialisation\<close>

lemma init_rep:
  assumes "\<not> initialazed h" "geom (HEAP_START_ADDR h) T" "0 < T"
    and "T = unat (HEAP_END_ADDR h - HEAP_START_ADDR h) div 64"
  shows "heap_rep (init h) [(0, T)] []"
proof -
  define b where "b = HEAP_START_ADDR h"
  have T: "unat ((HEAP_END_ADDR h - HEAP_START_ADDR h) div MEM_BLOCK_SIZE) = T"
    using assms(4) by (simp add: unat_div MEM_BLOCK_SIZE_def)
  have lt: "T < 2 ^ 64" using assms(2) by (simp add: geom_def)
  have "(HEAP_END_ADDR h - HEAP_START_ADDR h) div MEM_BLOCK_SIZE = of_nat T"
    using T of_nat_eq_word [OF lt] by simp
  moreover have "b \<noteq> b + 8" by simp
  ultimately show ?thesis
    using assms(1-3) lt
    by (simp add: init_def Let_def heap_rep_def store_def adr_def b_def unat_of_nat_small)
qed

lemma ivl_disj_cases:
  fixes a b c d :: nat
  assumes "{a..<b} \<inter> {c..<d} = {}" "a < b" "c < d"
  shows "b \<le> c \<or> d \<le> a"
proof -
  have "max a c \<notin> {a..<b} \<inter> {c..<d}" using assms(1) by simp
  then show ?thesis using assms(2,3) by (auto simp: max_def split: if_splits)
qed

text \<open>The heap of the examples: eight blocks at the address the linker script gives.\<close>

definition example_heap :: heap where
  "example_heap = \<lparr>mem = (\<lambda>_. 0), headFree = 0, headTaken = 0, totalBlocks = 0, initialazed = False,
     HEAP_START_ADDR = 0x80010000, HEAP_END_ADDR = 0x80010200\<rparr>"

lemma example_init: "heap_rep (init example_heap) [(0, 8)] []"
  by (rule init_rep) (simp_all add: example_heap_def geom_def)

lemma example_base [simp]: "HEAP_START_ADDR (init example_heap) = 0x80010000"
  by (simp add: init_def example_heap_def Let_def store_def)

text \<open>
  C8: \<open>_kmalloc\<close> is first fit: it takes the first free block that is large enough, cuts the
  request off its beginning, puts it in front of the taken list, and answers null with the heap
  as it was when no free block is large enough. No word of the payload of a live block changes.
\<close>

theorem kmalloc_first_fit:
  assumes "heap_rep h fs ts" "n \<noteq> 0"
  shows "case afit (unat n) fs of
      None \<Rightarrow> kmalloc n h = Some (0, h)
    | Some (i, fs') \<Rightarrow> \<exists>h'. kmalloc n h = Some (HEAP_START_ADDR h + of_nat (64 * i + 16), h') \<and>
        heap_rep h' fs' ((i, unat n) # ts) \<and>
        (\<forall>(j, m)\<in>set ts. \<forall>a. payload (HEAP_START_ADDR h) j m a \<longrightarrow> mem h' a = mem h a)"
proof (cases "afit (unat n) fs")
  case None
  with kmalloc_none [OF assms None] show ?thesis by simp
next
  case (Some x)
  obtain i fs' where x: "x = (i, fs')" by (cases x)
  obtain h' where h': "kmalloc n h = Some (adr (HEAP_START_ADDR h) i 16, h')" "heap_rep h' fs' ((i, unat n) # ts)"
    and ag: "agree (HEAP_START_ADDR h) (set (cells fs)) (mem h) (mem h')"
    using kmalloc_fit [OF assms Some [unfolded x]] by blast
  have "mem h' a = mem h a" if t: "(j, m) \<in> set ts" and a: "payload (HEAP_START_ADDR h) j m a" for j m a
  proof (rule payload_agree [OF heap_repD(2) [OF assms(1)] a _ _ _ ag])
    show "j + m \<le> unat (totalBlocks h)" using rep_block(3) [OF assms(1)] t by simp
    show "set (cells fs) \<subseteq> {..<unat (totalBlocks h)}" using rep_starts(6) [OF assms(1)] .
    have "{j..<j + m} \<subseteq> set (cells ts)" using t by (auto simp: set_cells)
    then show "set (cells fs) \<inter> {j<..<j + m} = {}" using heap_repD(7) [OF assms(1)] by fastforce
  qed
  then show ?thesis using h' Some x by (auto simp: adr_def)
qed

lemma kmalloc_first_fit_witness:
  "\<exists>h'. kmalloc 3 (init example_heap) = Some (0x80010010, h') \<and> heap_rep h' [(3, 5)] [(0, 3)]"
  using kmalloc_first_fit [OF example_init, of 3] by (auto simp: afit_def)

text \<open>
  C9: \<open>_kmfree\<close> on a live pointer answers 0, takes the block off the taken list and inserts it in
  the free list at its place by address, joined with every free neighbour it touches. No word
  of the payload of another live block changes.
\<close>

theorem kmfree_coalesces:
  assumes "heap_rep h fs ts" "(i, n) \<in> set ts"
  shows "\<exists>h'. kmfree (HEAP_START_ADDR h + of_nat (64 * i + 16)) h = Some (0, h') \<and>
     heap_rep h' (ainsert (i, n) fs) (remove1 (i, n) ts) \<and>
     (\<forall>(j, m)\<in>set ts. \<forall>a. payload (HEAP_START_ADDR h) j m a \<longrightarrow> mem h' a = mem h a)"
proof -
  obtain h' where h': "kmfree (adr (HEAP_START_ADDR h) i 16) h = Some (0, h')"
    "heap_rep h' (ainsert (i, n) fs) (remove1 (i, n) ts)"
    and ag: "agree (HEAP_START_ADDR h) (fst ` set (fs @ ts)) (mem h) (mem h')"
    using kmfree_taken [OF assms] by blast
  have "mem h' a = mem h a" if t: "(j, m) \<in> set ts" and a: "payload (HEAP_START_ADDR h) j m a" for j m a
  proof (rule payload_agree [OF heap_repD(2) [OF assms(1)] a _ _ _ ag])
    show "j + m \<le> unat (totalBlocks h)" using rep_block(3) [OF assms(1)] t by simp
    show "fst ` set (fs @ ts) \<subseteq> {..<unat (totalBlocks h)}" using rep_starts(1,2) [OF assms(1)] by auto
    show "fst ` set (fs @ ts) \<inter> {j<..<j + m} = {}" using rep_disjoint [OF assms(1) t] by fastforce
  qed
  then show ?thesis using h' by (auto simp: adr_def)
qed

lemma kmfree_coalesces_witness:
  "\<exists>h h'. kmfree 0x80010010 h = Some (0, h') \<and> heap_rep h' [(0, 8)] []"
proof -
  obtain h1 where h1: "heap_rep h1 [(3, 5)] [(0, 3)]" "HEAP_START_ADDR h1 = 0x80010000"
    using kmalloc_fit [OF example_init, of 3 0 "[(3, 5)]"] by (auto simp: afit_def same_static_def)
  from kmfree_coalesces [OF h1(1), of 0 3] h1(2) show ?thesis by auto
qed

text \<open>
  \<open>_kmfree\<close> on a pointer that \<open>_kmalloc\<close> did not return, or that has been freed already,
  answers -1 and changes nothing; the null pointer is answered 0.
\<close>

lemma kmfree_unknown:
  assumes "heap_rep h fs ts" "\<forall>(i, n)\<in>set ts. p \<noteq> HEAP_START_ADDR h + of_nat (64 * i + 16)"
  shows "kmfree p h = Some (if p = 0 then 0 else -1, h)"
  using kmfree_not_taken [OF assms(1), of p] assms(2) by (fastforce simp: kmfree_def adr_def)

subsection \<open>Sequences of calls\<close>

lemma store_payload_rep:
  assumes rep: "heap_rep h fs ts" and t: "(i, n) \<in> set ts" and a: "payload (HEAP_START_ADDR h) i n a"
  shows "heap_rep (store a v h) fs ts"
proof -
  let ?b = "HEAP_START_ADDR h"
  note r = heap_repD [OF rep]
  have hd: "a \<noteq> adr ?b j 0 \<and> a \<noteq> adr ?b j 8" if j: "(j, m) \<in> set (fs @ ts)" for j m
  proof -
    have "j \<in> fst ` set (fs @ ts)" using j by force
    with rep_disjoint [OF rep t] have "\<not> (i < j \<and> j < i + n)" by blast
    moreover have "j < unat (totalBlocks h)" using rep_block(2) [OF rep j] .
    then have "unat (adr ?b j 0) = unat ?b + 64 * j" "unat (adr ?b j 8) = unat ?b + 64 * j + 8"
      using unat_adr [OF r(2), of j 0] unat_adr [OF r(2), of j 8] by simp_all
    ultimately show ?thesis using a by (auto simp: payload_def)
  qed
  have "chain ((mem h)(a := v)) ?b (headFree h) fs 0" "chain ((mem h)(a := v)) ?b (headTaken h) ts 0"
    using r(3,4) chain_cong [of fs "(mem h)(a := v)" ?b "mem h"] chain_cong [of ts "(mem h)(a := v)" ?b "mem h"] hd
    by fastforce+
  then show ?thesis using rep by (simp add: heap_rep_def store_def)
qed

text \<open>One step of a client: a call of the allocator with any argument, or a write to the payload
  of a live block.\<close>

inductive alloc_step :: "heap \<Rightarrow> heap \<Rightarrow> bool" where
  step_malloc: "kmalloc n h = Some (p, h') \<Longrightarrow> alloc_step h h'"
| step_free: "kmfree p h = Some (r, h') \<Longrightarrow> alloc_step h h'"
| step_write: "heap_rep h fs ts \<Longrightarrow> (i, n) \<in> set ts \<Longrightarrow> payload (HEAP_START_ADDR h) i n a \<Longrightarrow>
    alloc_step h (store a v h)"

lemma kmalloc_total:
  assumes "heap_rep h fs ts"
  obtains p h' fs' ts' where "kmalloc n h = Some (p, h')" "heap_rep h' fs' ts'" "same_static h h'"
proof (cases "n = 0")
  case True
  with that [of 0 h] kmalloc_zero [OF heap_repD(1) [OF assms]] assms show ?thesis by (simp add: same_static_def)
next
  case False
  show ?thesis
  proof (cases "afit (unat n) fs")
    case None
    with that [of 0 h] kmalloc_none [OF assms False] assms show ?thesis by (simp add: same_static_def)
  next
    case (Some x)
    obtain i fs' where x: "x = (i, fs')" by (cases x)
    obtain h' where "kmalloc n h = Some (adr (HEAP_START_ADDR h) i 16, h')"
      "heap_rep h' fs' ((i, unat n) # ts)" "same_static h h'"
      using kmalloc_fit [OF assms False Some [unfolded x]] by blast
    then show ?thesis by (rule that)
  qed
qed

lemma kmfree_total:
  assumes "heap_rep h fs ts"
  obtains r h' fs' ts' where "kmfree p h = Some (r, h')" "heap_rep h' fs' ts'" "same_static h h'" "r = 0 \<or> r = -1"
proof (cases "\<exists>i n. (i, n) \<in> set ts \<and> p = adr (HEAP_START_ADDR h) i 16")
  case True
  then obtain i n where i: "(i, n) \<in> set ts" "p = adr (HEAP_START_ADDR h) i 16" by blast
  obtain h' where h': "kmfree (adr (HEAP_START_ADDR h) i 16) h = Some (0, h')"
    "heap_rep h' (ainsert (i, n) fs) (remove1 (i, n) ts)" "same_static h h'"
    using kmfree_taken [OF assms i(1)] by blast
  show ?thesis by (rule that [OF h'(1) [folded i(2)] h'(2,3)]) simp
next
  case False
  then have "kmfree p h = Some (if p = 0 then 0 else -1, h)"
    by (intro kmfree_unknown [OF assms]) (auto simp: adr_def)
  then show ?thesis by (rule that [OF _ assms]) (simp_all add: same_static_def)
qed

lemma alloc_step_rep:
  assumes "alloc_step h1 h2" "heap_rep h1 fs ts"
  shows "\<exists>fs ts. heap_rep h2 fs ts \<and> same_static h1 h2"
  using assms(1)
proof cases
  case (step_malloc n p)
  obtain p' h' fs' ts' where "kmalloc n h1 = Some (p', h')" "heap_rep h' fs' ts'" "same_static h1 h'"
    using kmalloc_total [OF assms(2), of n] by blast
  with step_malloc show ?thesis by auto
next
  case (step_free p r)
  obtain r' h' fs' ts' where "kmfree p h1 = Some (r', h')" "heap_rep h' fs' ts'" "same_static h1 h'" "r' = 0 \<or> r' = -1"
    by (rule kmfree_total [OF assms(2), of p])
  with step_free show ?thesis by auto
next
  case (step_write fs' ts' i n a v)
  then have "heap_rep h2 fs' ts'" by (simp only: step_write(1) store_payload_rep)
  moreover have "same_static h1 h2" using step_write by (simp add: same_static_def)
  ultimately show ?thesis by blast
qed

lemma alloc_steps_rep:
  assumes "alloc_step\<^sup>*\<^sup>* h h'" "heap_rep h fs ts"
  shows "\<exists>fs ts. heap_rep h' fs ts \<and> same_static h h'"
  using assms(1)
proof (induction rule: rtranclp_induct)
  case base
  show ?case using assms(2) by (auto simp: same_static_def)
next
  case (step h1 h2)
  from step.IH obtain fs1 ts1 where rep: "heap_rep h1 fs1 ts1" and st: "same_static h h1" by blast
  from alloc_step_rep [OF step.hyps(2) rep] obtain fs2 ts2 where "heap_rep h2 fs2 ts2" "same_static h1 h2" by blast
  with st show ?case by (auto simp: same_static_def)
qed

text \<open>
  C10: Whatever calls of \<open>_kmalloc\<close> and \<open>_kmfree\<close> a client makes after the initialisation, with
  whatever arguments, and whatever it writes to the memory it owns, the two lists stay a partition of the
  heap with the free one sorted and coalesced, and every further call returns.
\<close>

theorem allocator_safe:
  assumes "\<not> initialazed h0" "geom (HEAP_START_ADDR h0) T" "0 < T"
    and "T = unat (HEAP_END_ADDR h0 - HEAP_START_ADDR h0) div 64"
    and "alloc_step\<^sup>*\<^sup>* (init h0) h"
  shows "(\<exists>fs ts. heap_rep h fs ts) \<and> (\<forall>n. \<exists>p h'. kmalloc n h = Some (p, h')) \<and>
    (\<forall>p. \<exists>r h'. kmfree p h = Some (r, h') \<and> (r = 0 \<or> r = -1))"
proof -
  obtain fs ts where rep: "heap_rep h fs ts"
    using alloc_steps_rep [OF assms(5) init_rep [OF assms(1-4)]] by blast
  have "\<exists>p h'. kmalloc n h = Some (p, h')" for n using kmalloc_total [OF rep, of n] by blast
  moreover have "\<exists>r h'. kmfree p h = Some (r, h') \<and> (r = 0 \<or> r = -1)" for p
    by (rule kmfree_total [OF rep, of p]) blast
  ultimately show ?thesis using rep by blast
qed

lemma example_step: "alloc_step\<^sup>*\<^sup>* (init example_heap) (snd (the (kmalloc 3 (init example_heap))))"
proof -
  obtain p h' where "kmalloc 3 (init example_heap) = Some (p, h')"
    using kmalloc_total [OF example_init, of 3] by blast
  then show ?thesis using step_malloc [of 3 "init example_heap" p h'] by auto
qed

lemma allocator_safe_witness: "\<exists>fs ts. heap_rep (snd (the (kmalloc 3 (init example_heap)))) fs ts"
proof -
  have "\<not> initialazed example_heap" "geom (HEAP_START_ADDR example_heap) 8"
    "8 = unat (HEAP_END_ADDR example_heap - HEAP_START_ADDR example_heap) div 64"
    by (simp_all add: example_heap_def geom_def)
  from allocator_safe [OF this(1,2) _ this(3) example_step] show ?thesis by simp
qed

text \<open>
  C32: Freeing what has just been allocated gives back the free list as it was, block for block.
\<close>

theorem kmalloc_kmfree:
  assumes "heap_rep h fs ts" "n \<noteq> 0" "kmalloc n h = Some (p, h1)" "p \<noteq> 0"
  shows "\<exists>h2. kmfree p h1 = Some (0, h2) \<and> heap_rep h2 fs ts"
proof (cases "afit (unat n) fs")
  case None
  with kmalloc_none [OF assms(1,2)] assms(3,4) show ?thesis by simp
next
  case (Some x)
  obtain i fs' where x: "x = (i, fs')" by (cases x)
  obtain h' where h': "kmalloc n h = Some (adr (HEAP_START_ADDR h) i 16, h')"
    "heap_rep h' fs' ((i, unat n) # ts)" "same_static h h'"
    using kmalloc_fit [OF assms(1,2) Some [unfolded x]] by blast
  have hh: "h1 = h'" "p = adr (HEAP_START_ADDR h1) i 16" using h'(1,3) assms(3) by (simp_all add: same_static_def)
  obtain h2 where h2: "kmfree p h1 = Some (0, h2)" "heap_rep h2 (ainsert (i, unat n) fs') ts"
    using kmfree_taken [OF h'(2), of i "unat n"] hh by auto
  have "mset (cells (ainsert (i, unat n) fs')) = mset (cells fs)"
    using ainsert_cells [of i "unat n" fs'] afit_cells [OF Some [unfolded x]] by simp
  then have "set (cells (ainsert (i, unat n) fs')) = set (cells fs)" by (rule mset_eq_setD)
  then have "ainsert (i, unat n) fs' = fs"
    using free_ok_unique [OF heap_repD(5) [OF h2(2)] heap_repD(5) [OF assms(1)]] by simp
  with h2 show ?thesis by auto
qed

lemma kmalloc_kmfree_witness:
  "\<exists>h1 h2. kmalloc 3 (init example_heap) = Some (0x80010010, h1) \<and> kmfree 0x80010010 h1 = Some (0, h2) \<and>
     heap_rep h2 [(0, 8)] []"
proof -
  obtain h1 where h1: "kmalloc 3 (init example_heap) = Some (0x80010010, h1)"
    using kmalloc_fit [OF example_init, of 3 0 "[(3, 5)]"] by (auto simp: afit_def adr_def)
  from kmalloc_kmfree [OF example_init _ h1] h1 show ?thesis by auto
qed

text \<open>
  The memory \<open>_kmalloc\<close> returns is inside the heap, aligned to 16 bytes, and its payload has
  no byte in common with the payload of a block that was live before.
\<close>

lemma kmalloc_fresh_memory:
  assumes "heap_rep h fs ts" "n \<noteq> 0" "kmalloc n h = Some (p, h')" "p \<noteq> 0"
  shows "unat p mod 16 = unat (HEAP_START_ADDR h) mod 16 \<and> unat (HEAP_START_ADDR h) + 16 \<le> unat p \<and>
    unat p + 64 * unat n - 16 \<le> unat (HEAP_START_ADDR h) + 64 * unat (totalBlocks h) \<and>
    (\<forall>(j, m)\<in>set ts. \<forall>a. payload (HEAP_START_ADDR h) j m a \<longrightarrow> \<not> (unat p \<le> unat a \<and> unat a < unat p + 64 * unat n - 16))"
proof (cases "afit (unat n) fs")
  case None
  with kmalloc_none [OF assms(1,2)] assms(3,4) show ?thesis by simp
next
  case (Some x)
  obtain i fs' where x: "x = (i, fs')" by (cases x)
  let ?b = "HEAP_START_ADDR h"
  obtain h2 where "kmalloc n h = Some (adr ?b i 16, h2)"
    "heap_rep h2 fs' ((i, unat n) # ts)" "same_static h h2"
    using kmalloc_fit [OF assms(1,2) Some [unfolded x]] by blast
  with assms(3) have p: "p = adr ?b i 16" and rep: "heap_rep h' fs' ((i, unat n) # ts)" and st: "same_static h h'"
    by simp_all
  have le: "i + unat n \<le> unat (totalBlocks h)" "0 < unat n"
    using rep_block [OF rep, of i "unat n"] st by (simp_all add: same_static_def)
  then have up: "unat p = unat ?b + 64 * i + 16"
    using unat_adr [OF heap_repD(2) [OF assms(1)], of i 16] p by simp
  have "\<not> (unat p \<le> unat a \<and> unat a < unat p + 64 * unat n - 16)"
    if t: "(j, m) \<in> set ts" and a: "payload ?b j m a" for j m a
  proof -
    have "{i..<i + unat n} \<inter> set (cells ts) = {}" using heap_repD(7) [OF rep] by simp
    moreover have "{j..<j + m} \<subseteq> set (cells ts)" using t by (auto simp: set_cells)
    ultimately have d: "{i..<i + unat n} \<inter> {j..<j + m} = {}" by blast
    have "0 < m" using heap_repD(6) [OF assms(1)] t by auto
    with d le(2) have "i + unat n \<le> j \<or> j + m \<le> i"
      using ivl_disj_cases [of i "i + unat n" j "j + m"] by auto
    with a up show ?thesis by (auto simp: payload_def)
  qed
  then have fresh: "\<forall>(j, m)\<in>set ts. \<forall>a. payload ?b j m a \<longrightarrow> \<not> (unat p \<le> unat a \<and> unat a < unat p + 64 * unat n - 16)"
    by blast
  have "unat p = unat ?b + 16 * (4 * i + 1)" using up by simp
  then have "unat p mod 16 = unat ?b mod 16" by (simp only: mod_mult_self2)
  moreover have "unat p + 64 * unat n - 16 \<le> unat ?b + 64 * unat (totalBlocks h)" using up le by simp
  ultimately show ?thesis using fresh up by simp
qed

end
