(* ===== verification/ListTemplate.thy ===== *)
theory ListTemplate
  imports KmfreeProof
begin

text \<open>
  The class template \<open>_list\<close> of \<open>h/_list.hpp\<close>, over the word memory of the allocator: a list
  is the pair of its \<open>head\<close> and \<open>tail\<close> pointers, an \<open>Elem\<close> is a one-block allocation that
  holds \<open>data\<close> at offset 0 and \<open>next\<close> at offset 8. Every insertion calls \<open>_kmalloc\<close> and
  writes through its result without a check, so a failed allocation is a fault (\<open>None\<close>).
  The loops may run over a cyclic list, so they are partial functions; \<open>cmp\<close> is the
  comparison callback with its \<open>aux\<close> argument fixed.
\<close>

definition SIZE_ELEM :: u64 where "SIZE_ELEM = 2 * 8"

definition elem_blocks :: u64 where
  "elem_blocks = (SIZE_HEADER + SIZE_ELEM + MEM_BLOCK_SIZE - 1) div MEM_BLOCK_SIZE"

lemma elem_blocks_1 [simp]: "elem_blocks = 1"
  by (simp add: elem_blocks_def SIZE_HEADER_def SIZE_ELEM_def MEM_BLOCK_SIZE_def)

record list_hdr =
  head :: u64
  tail :: u64

text \<open>Access to a member at offset \<open>off\<close> of the object at \<open>p\<close>; a null pointer faults.\<close>

definition peek :: "u64 \<Rightarrow> u64 \<Rightarrow> heap \<Rightarrow> u64 option" where
  "peek p off h = (if p = 0 then None else Some (mem h (p + off)))"

definition poke :: "u64 \<Rightarrow> u64 \<Rightarrow> u64 \<Rightarrow> heap \<Rightarrow> heap option" where
  "poke p off v h = (if p = 0 then None else Some (store (p + off) v h))"

definition addFirst :: "u64 \<Rightarrow> list_hdr \<Rightarrow> heap \<Rightarrow> (list_hdr \<times> heap) option" where
  "addFirst d l h = do {
     (elem, h) \<leftarrow> kmalloc elem_blocks h;
     h \<leftarrow> poke elem 0 d h;
     h \<leftarrow> poke elem 8 (head l) h;
     let l = l\<lparr>head := elem\<rparr>;
     Some (if tail l = 0 then l\<lparr>tail := head l\<rparr> else l, h)
   }"

definition addLast :: "u64 \<Rightarrow> list_hdr \<Rightarrow> heap \<Rightarrow> (list_hdr \<times> heap) option" where
  "addLast d l h = do {
     (elem, h) \<leftarrow> kmalloc elem_blocks h;
     h \<leftarrow> poke elem 0 d h;
     h \<leftarrow> poke elem 8 0 h;
     if tail l \<noteq> 0
     then do {
       h \<leftarrow> poke (tail l) 8 elem h;
       Some (l\<lparr>tail := elem\<rparr>, h)
     }
     else Some (l\<lparr>head := elem, tail := elem\<rparr>, h)
   }"

definition removeFirst :: "list_hdr \<Rightarrow> heap \<Rightarrow> (u64 \<times> list_hdr \<times> heap) option" where
  "removeFirst l h =
     (if head l = 0 then Some (0, l, h)
      else do {
        let elem = head l;
        next \<leftarrow> peek elem 8 h;
        let l = l\<lparr>head := next\<rparr>;
        let l = (if head l = 0 then l\<lparr>tail := 0\<rparr> else l);
        ret \<leftarrow> peek elem 0 h;
        (_, h) \<leftarrow> kmfree elem h;
        Some (ret, l, h)
      })"

definition peekFirst :: "list_hdr \<Rightarrow> heap \<Rightarrow> u64 option" where
  "peekFirst l h = (if head l \<noteq> 0 then peek (head l) 0 h else Some 0)"

definition peekLast :: "list_hdr \<Rightarrow> heap \<Rightarrow> u64 option" where
  "peekLast l h = (if tail l \<noteq> 0 then peek (tail l) 0 h else Some 0)"

text \<open>\<open>removeLast\<close> walks to the predecessor of \<open>tail\<close>; the loop has no null check.\<close>

partial_function (option) find_last :: "heap \<Rightarrow> u64 \<Rightarrow> u64 \<Rightarrow> u64 \<Rightarrow> u64 option" where
  "find_last h last_el cur prev =
     (if cur \<noteq> last_el then do { n \<leftarrow> peek cur 8 h; find_last h last_el n cur } else Some prev)"

declare find_last.simps [code]

definition removeLast :: "list_hdr \<Rightarrow> heap \<Rightarrow> (u64 \<times> list_hdr \<times> heap) option" where
  "removeLast l h =
     (if head l = 0 then Some (0, l, h)
      else do {
        prev \<leftarrow> find_last h (tail l) (head l) 0;
        let elem = tail l;
        (l, h) \<leftarrow> (if prev \<noteq> 0 then do { h \<leftarrow> poke prev 8 0 h; Some (l\<lparr>tail := prev\<rparr>, h) }
                  else Some (l\<lparr>head := 0, tail := 0\<rparr>, h));
        ret \<leftarrow> peek elem 0 h;
        (_, h) \<leftarrow> kmfree elem h;
        Some (ret, l, h)
      })"

text \<open>The loop of \<open>removeSpec\<close>: the element whose data is \<open>ptr\<close> (0 if there is none) and its
  predecessor.\<close>

partial_function (option) find_elem :: "heap \<Rightarrow> u64 \<Rightarrow> u64 \<Rightarrow> u64 \<Rightarrow> (u64 \<times> u64) option" where
  "find_elem h ptr cur prev =
     (if cur \<noteq> 0 \<and> mem h cur \<noteq> ptr then find_elem h ptr (mem h (cur + 8)) cur
      else Some (cur, prev))"

declare find_elem.simps [code]

definition removeSpec :: "u64 \<Rightarrow> list_hdr \<Rightarrow> heap \<Rightarrow> (bool \<times> list_hdr \<times> heap) option" where
  "removeSpec ptr l h =
     (if ptr = 0 then Some (False, l, h)
      else do {
        (cur, prev) \<leftarrow> find_elem h ptr (head l) 0;
        if cur = 0 then Some (False, l, h)
        else do {
          next \<leftarrow> peek cur 8 h;
          (l, h) \<leftarrow> (if prev \<noteq> 0 then do { h \<leftarrow> poke prev 8 next h; Some (l, h) }
                    else Some (l\<lparr>head := next\<rparr>, h));
          let l = (if cur = tail l then l\<lparr>tail := prev\<rparr> else l);
          (_, h) \<leftarrow> kmfree cur h;
          Some (True, l, h)
        }
      })"

partial_function (option) find_pos :: "heap \<Rightarrow> (u64 \<Rightarrow> bool) \<Rightarrow> u64 \<Rightarrow> u64 \<Rightarrow> (u64 \<times> u64) option" where
  "find_pos h before cur prev =
     (if cur \<noteq> 0 \<and> before (mem h cur) then find_pos h before (mem h (cur + 8)) cur
      else Some (cur, prev))"

declare find_pos.simps [code]

definition insert_sorted :: "u64 \<Rightarrow> (u64 \<Rightarrow> u64 \<Rightarrow> bool) \<Rightarrow> list_hdr \<Rightarrow> heap \<Rightarrow> (list_hdr \<times> heap) option" where
  "insert_sorted d cmp l h =
     (if d = 0 then Some (l, h)
      else do {
        (cur, prev) \<leftarrow> find_pos h (\<lambda>x. cmp x d) (head l) 0;
        (elem, h) \<leftarrow> kmalloc elem_blocks h;
        h \<leftarrow> poke elem 0 d h;
        h \<leftarrow> poke elem 8 cur h;
        (l, h) \<leftarrow> (if prev = 0 then Some (l\<lparr>head := elem\<rparr>, h)
                  else do { h \<leftarrow> poke prev 8 elem h; Some (l, h) });
        Some (if cur = 0 then l\<lparr>tail := elem\<rparr> else l, h)
      })"

subsection \<open>Sorting\<close>

partial_function (option) getMiddle_loop :: "heap \<Rightarrow> u64 \<Rightarrow> u64 \<Rightarrow> u64 option" where
  "getMiddle_loop h slow fast =
     (if fast \<noteq> 0 then do {
        fast \<leftarrow> peek fast 8 h;
        if fast \<noteq> 0 then do {
          slow \<leftarrow> peek slow 8 h;
          fast \<leftarrow> peek fast 8 h;
          getMiddle_loop h slow fast
        } else getMiddle_loop h slow fast
      } else Some slow)"

declare getMiddle_loop.simps [code]

definition getMiddle :: "u64 \<Rightarrow> heap \<Rightarrow> u64 option" where
  "getMiddle hd1 h =
     (if hd1 = 0 then Some hd1 else do { fast \<leftarrow> peek hd1 8 h; getMiddle_loop h hd1 fast })"

partial_function (option) list_merge :: "(u64 \<Rightarrow> u64 \<Rightarrow> bool) \<Rightarrow> u64 \<Rightarrow> u64 \<Rightarrow> heap \<Rightarrow> (u64 \<times> heap) option" where
  "list_merge cmp left right h =
     (if left = 0 then Some (right, h)
      else if right = 0 then Some (left, h)
      else if cmp (mem h left) (mem h right)
      then do {
        (r, h) \<leftarrow> list_merge cmp (mem h (left + 8)) right h;
        h \<leftarrow> poke left 8 r h;
        Some (left, h)
      }
      else do {
        (r, h) \<leftarrow> list_merge cmp left (mem h (right + 8)) h;
        h \<leftarrow> poke right 8 r h;
        Some (right, h)
      })"

declare list_merge.simps [code]

partial_function (option) mergeSort :: "(u64 \<Rightarrow> u64 \<Rightarrow> bool) \<Rightarrow> u64 \<Rightarrow> heap \<Rightarrow> (u64 \<times> heap) option" where
  "mergeSort cmp hd1 h =
     (if hd1 = 0 \<or> mem h (hd1 + 8) = 0 then Some (hd1, h)
      else do {
        middle \<leftarrow> getMiddle hd1 h;
        nextToMiddle \<leftarrow> peek middle 8 h;
        h \<leftarrow> poke middle 8 0 h;
        (left, h) \<leftarrow> mergeSort cmp hd1 h;
        (right, h) \<leftarrow> mergeSort cmp nextToMiddle h;
        list_merge cmp left right h
      })"

declare mergeSort.simps [code]

partial_function (option) find_tail :: "heap \<Rightarrow> u64 \<Rightarrow> u64 option" where
  "find_tail h t = do { n \<leftarrow> peek t 8 h; if n \<noteq> 0 then find_tail h n else Some t }"

declare find_tail.simps [code]

definition list_sort :: "(u64 \<Rightarrow> u64 \<Rightarrow> bool) \<Rightarrow> list_hdr \<Rightarrow> heap \<Rightarrow> (list_hdr \<times> heap) option" where
  "list_sort cmp l h =
     (if head l = 0 \<or> mem h (head l + 8) = 0 then Some (l, h)
      else do {
        (hd1, h) \<leftarrow> mergeSort cmp (head l) h;
        t \<leftarrow> find_tail h hd1;
        Some (l\<lparr>head := hd1, tail := t\<rparr>, h)
      })"

subsection \<open>Iteration\<close>

text \<open>The callback acts on a state \<open>'s\<close> that holds the heap.\<close>

partial_function (option) foreach_from ::
  "('s \<Rightarrow> heap) \<Rightarrow> (u64 \<Rightarrow> 's \<Rightarrow> 's option) \<Rightarrow> u64 \<Rightarrow> 's \<Rightarrow> 's option" where
  "foreach_from hp func cur s =
     (if cur \<noteq> 0 then do {
        s \<leftarrow> func (mem (hp s) cur) s;
        foreach_from hp func (mem (hp s) (cur + 8)) s
      } else Some s)"

declare foreach_from.simps [code]

partial_function (option) foreachWhile_from ::
  "('s \<Rightarrow> heap) \<Rightarrow> (u64 \<Rightarrow> 's \<Rightarrow> 's option) \<Rightarrow> (u64 \<Rightarrow> 's \<Rightarrow> bool) \<Rightarrow> u64 \<Rightarrow> 's \<Rightarrow> 's option" where
  "foreachWhile_from hp func condition cur s =
     (if cur \<noteq> 0 \<and> condition (mem (hp s) cur) s then do {
        let toCheck = cur;
        let cur = mem (hp s) (cur + 8);
        s \<leftarrow> func (mem (hp s) toCheck) s;
        foreachWhile_from hp func condition cur s
      } else Some s)"


declare foreachWhile_from.simps [code]

definition foreach :: "('s \<Rightarrow> heap) \<Rightarrow> (u64 \<Rightarrow> 's \<Rightarrow> 's option) \<Rightarrow> list_hdr \<Rightarrow> 's \<Rightarrow> 's option" where
  "foreach hp func l s = foreach_from hp func (head l) s"

definition foreachWhile ::
  "('s \<Rightarrow> heap) \<Rightarrow> (u64 \<Rightarrow> 's \<Rightarrow> 's option) \<Rightarrow> (u64 \<Rightarrow> 's \<Rightarrow> bool) \<Rightarrow> list_hdr \<Rightarrow> 's \<Rightarrow> 's option" where
  "foreachWhile hp func condition l s = foreachWhile_from hp func condition (head l) s"

end
