(* ===== verification/KList.thy ===== *)
theory KList
  imports ListTemplate
begin

text \<open>
  The lists as the rest of the kernel uses them: a \<open>klist\<close> is the sequence of its elements, each
  the pair of the cell's address (what \<open>_kmalloc\<close> returned for the \<open>Elem\<close>) and its \<open>data\<close>. The
  operations below still allocate and free the cells with the code's allocator, so a list
  operation faults exactly when the pointer code of ListTemplate does; ListInsert, ListRemove and ListSort show
  that the pointer code implements them. The scheduler's queue, the list of sleeping threads,
  the queues of the semaphores and the list of all semaphores are \<open>klist\<close>s of the kernel state.
\<close>

type_synonym klist = "(u64 \<times> u64) list"

abbreviation datas :: "klist \<Rightarrow> u64 list" where "datas xs \<equiv> map snd xs"
abbreviation cellptrs :: "klist \<Rightarrow> u64 list" where "cellptrs xs \<equiv> map fst xs"

definition new_elem :: "u64 \<Rightarrow> heap \<Rightarrow> ((u64 \<times> u64) \<times> heap) option" where
  "new_elem d h = do {
     (elem, h) \<leftarrow> kmalloc elem_blocks h;
     if elem = 0 then None else Some ((elem, d), h)
   }"

definition k_addFirst :: "u64 \<Rightarrow> klist \<Rightarrow> heap \<Rightarrow> (klist \<times> heap) option" where
  "k_addFirst d xs h = do { (e, h) \<leftarrow> new_elem d h; Some (e # xs, h) }"

definition k_addLast :: "u64 \<Rightarrow> klist \<Rightarrow> heap \<Rightarrow> (klist \<times> heap) option" where
  "k_addLast d xs h = do { (e, h) \<leftarrow> new_elem d h; Some (xs @ [e], h) }"

fun k_removeFirst :: "klist \<Rightarrow> heap \<Rightarrow> (u64 \<times> klist \<times> heap) option" where
  "k_removeFirst [] h = Some (0, [], h)"
| "k_removeFirst ((c, d) # xs) h = do { (_, h) \<leftarrow> kmfree c h; Some (d, xs, h) }"

definition k_removeLast :: "klist \<Rightarrow> heap \<Rightarrow> (u64 \<times> klist \<times> heap) option" where
  "k_removeLast xs h =
     (if xs = [] then Some (0, [], h)
      else do { (_, h) \<leftarrow> kmfree (fst (last xs)) h; Some (snd (last xs), butlast xs, h) })"

definition k_removeSpec :: "u64 \<Rightarrow> klist \<Rightarrow> heap \<Rightarrow> (bool \<times> klist \<times> heap) option" where
  "k_removeSpec ptr xs h =
     (if ptr = 0 then Some (False, xs, h)
      else case dropWhile (\<lambda>(c, d). d \<noteq> ptr) xs of
        [] \<Rightarrow> Some (False, xs, h)
      | (c, d) # suf \<Rightarrow> do {
          (_, h) \<leftarrow> kmfree c h;
          Some (True, takeWhile (\<lambda>(c, d). d \<noteq> ptr) xs @ suf, h)
        })"

definition k_insert_sorted :: "u64 \<Rightarrow> (u64 \<Rightarrow> u64 \<Rightarrow> bool) \<Rightarrow> klist \<Rightarrow> heap \<Rightarrow> (klist \<times> heap) option" where
  "k_insert_sorted d cmp xs h =
     (if d = 0 then Some (xs, h)
      else do {
        (e, h) \<leftarrow> new_elem d h;
        Some (takeWhile (\<lambda>(c, x). cmp x d) xs @ e # dropWhile (\<lambda>(c, x). cmp x d) xs, h)
      })"

fun k_peekFirst :: "klist \<Rightarrow> u64" where
  "k_peekFirst [] = 0"
| "k_peekFirst ((c, d) # xs) = d"

definition k_peekLast :: "klist \<Rightarrow> u64" where
  "k_peekLast xs = (if xs = [] then 0 else snd (last xs))"

end
