(* ===== verification/ListCells.thy ===== *)
theory ListCells
  imports KList
begin

text \<open>
  List elements in memory: \<open>is_cell b ts c\<close> says that \<open>c\<close> is the payload of a live one-block
  allocation, \<open>lchain\<close> is a linked segment of cells, \<open>list_rep\<close> relates a pair of \<open>head\<close> and
  \<open>tail\<close> pointers to a sequence. The lemmas show that cells do not overlap each other or the
  allocator's headers, and what allocating, freeing and writing a cell does to the other ones.
\<close>

subsection \<open>Cells and their words\<close>

definition is_cell :: "u64 \<Rightarrow> block list \<Rightarrow> u64 \<Rightarrow> bool" where
  "is_cell b ts c \<longleftrightarrow> (\<exists>i. (i, 1) \<in> set ts \<and> c = adr b i 16)"

fun lchain :: "(u64 \<Rightarrow> u64) \<Rightarrow> u64 \<Rightarrow> klist \<Rightarrow> u64 \<Rightarrow> bool" where
  "lchain m p [] q = (p = q)"
| "lchain m p ((c, d) # xs) q = (p = c \<and> c \<noteq> 0 \<and> m c = d \<and> lchain m (m (c + 8)) xs q)"

definition last_of :: "u64 \<Rightarrow> klist \<Rightarrow> u64" where
  "last_of p xs = (if xs = [] then p else fst (last xs))"

definition first_cell :: "klist \<Rightarrow> u64" where
  "first_cell xs = (case xs of [] \<Rightarrow> 0 | (c, d) # _ \<Rightarrow> c)"

lemma last_of_simps [simp]:
  "last_of p [] = p" "last_of p (xs @ [(c, d)]) = c" "last_of p ((c, d) # xs) = last_of c xs"
  by (simp_all add: last_of_def)

lemma first_cell_simps [simp]: "first_cell [] = 0" "first_cell ((c, d) # xs) = c"
  by (simp_all add: first_cell_def)

definition list_rep :: "u64 \<Rightarrow> (u64 \<Rightarrow> u64) \<Rightarrow> block list \<Rightarrow> list_hdr \<Rightarrow> klist \<Rightarrow> bool" where
  "list_rep b m ts l xs \<longleftrightarrow> lchain m (head l) xs 0 \<and> tail l = last_of 0 xs \<and>
     distinct (cellptrs xs) \<and> (\<forall>c\<in>fst ` set xs. is_cell b ts c)"

lemma lchain_append [simp]:
  "lchain m p (xs @ ys) q \<longleftrightarrow> (\<exists>r. lchain m p xs r \<and> lchain m r ys q)"
  by (induction xs arbitrary: p) auto

lemma lchain_first: "lchain m p xs 0 \<Longrightarrow> p = first_cell xs"
  by (cases xs) auto

lemma lchain_cong:
  "(\<And>c. c \<in> fst ` set xs \<Longrightarrow> m c = m' c \<and> m (c + 8) = m' (c + 8)) \<Longrightarrow> lchain m p xs q = lchain m' p xs q"
proof (induction xs arbitrary: p)
  case (Cons x xs)
  obtain c d where x: "x = (c, d)" by (cases x)
  have "m c = m' c" "m (c + 8) = m' (c + 8)" using Cons.prems [of c] x by simp_all
  moreover have "lchain m r xs q = lchain m' r xs q" for r
    by (rule Cons.IH) (use Cons.prems in auto)
  ultimately show ?case by (simp add: x)
qed simp

text \<open>Distinct cells do not overlap; a cell is not a header.\<close>

lemma adr_mod: "geom b T \<Longrightarrow> 64 * i + d \<le> 64 * T \<Longrightarrow> 64 * j + e \<le> 64 * T \<Longrightarrow>
    64 * i + d \<noteq> 64 * j + e \<Longrightarrow> adr b i d \<noteq> adr b j e"
  by (simp add: adr_eq_iff)

lemma cell_facts:
  assumes g: "geom b T" and c: "i < T" and d: "j < T"
  shows "adr b i 16 \<noteq> 0" "adr b i 24 \<noteq> 0" "adr b i 16 \<noteq> adr b j 24" "adr b i 16 = adr b j 16 \<longleftrightarrow> i = j"
    "adr b i 16 \<noteq> adr b j 0" "adr b i 16 \<noteq> adr b j 8" "adr b i 24 \<noteq> adr b j 0" "adr b i 24 \<noteq> adr b j 8"
proof -
  have le: "64 * i + 16 \<le> 64 * T" "64 * i + 24 \<le> 64 * T" "64 * j + 16 \<le> 64 * T" "64 * j + 24 \<le> 64 * T"
    "64 * j + 0 \<le> 64 * T" "64 * j + 8 \<le> 64 * T" using c d by simp_all
  show "adr b i 16 \<noteq> 0" "adr b i 24 \<noteq> 0" using adr_nz [OF g le(1)] adr_nz [OF g le(2)] by simp_all
  show "adr b i 16 \<noteq> adr b j 24" by (rule adr_mod [OF g le(1,4)]) presburger
  show "adr b i 16 = adr b j 16 \<longleftrightarrow> i = j" using adr_eq_iff [OF g le(1,3)] by simp
  show "adr b i 16 \<noteq> adr b j 0" by (rule adr_mod [OF g le(1,5)]) presburger
  show "adr b i 16 \<noteq> adr b j 8" by (rule adr_mod [OF g le(1,6)]) presburger
  show "adr b i 24 \<noteq> adr b j 0" by (rule adr_mod [OF g le(2,5)]) presburger
  show "adr b i 24 \<noteq> adr b j 8" by (rule adr_mod [OF g le(2,6)]) presburger
qed

lemma is_cellD:
  assumes "heap_rep h fs ts" "is_cell (HEAP_START_ADDR h) ts c"
  obtains i where "(i, 1) \<in> set ts" "i < unat (totalBlocks h)" "c = adr (HEAP_START_ADDR h) i 16"
    "c + 8 = adr (HEAP_START_ADDR h) i 24"
proof -
  from assms(2) obtain i where i: "(i, 1) \<in> set ts" "c = adr (HEAP_START_ADDR h) i 16"
    by (auto simp: is_cell_def)
  then have "i < unat (totalBlocks h)" using rep_block(2) [OF assms(1), of i 1] by simp
  with i that show ?thesis by (simp add: adr_field)
qed

lemma is_cell_neq:
  assumes "heap_rep h fs ts" "is_cell (HEAP_START_ADDR h) ts c" "is_cell (HEAP_START_ADDR h) ts d"
  shows "c \<noteq> 0" "c \<noteq> d + 8" "d + 8 \<noteq> c" "c + 8 \<noteq> c"
proof -
  obtain i where i: "i < unat (totalBlocks h)" "c = adr (HEAP_START_ADDR h) i 16"
    using is_cellD [OF assms(1,2)] by metis
  obtain j where j: "j < unat (totalBlocks h)" "d + 8 = adr (HEAP_START_ADDR h) j 24"
    using is_cellD [OF assms(1,3)] by metis
  show "c \<noteq> 0" "c \<noteq> d + 8" "d + 8 \<noteq> c"
    using cell_facts [OF heap_repD(2) [OF assms(1)] i(1) j(1)] i j by simp_all
  show "c + 8 \<noteq> c" by simp
qed

definition same_cells :: "u64 \<Rightarrow> block list \<Rightarrow> (u64 \<Rightarrow> u64) \<Rightarrow> (u64 \<Rightarrow> u64) \<Rightarrow> bool" where
  "same_cells b ts m m' \<longleftrightarrow> (\<forall>c. is_cell b ts c \<longrightarrow> m' c = m c \<and> m' (c + 8) = m (c + 8))"

lemma agree_same_cells:
  assumes rep: "heap_rep h fs ts" and ag: "agree (HEAP_START_ADDR h) S (mem h) m'"
    and S: "S \<subseteq> {..<unat (totalBlocks h)}"
  shows "same_cells (HEAP_START_ADDR h) ts (mem h) m'"
  unfolding same_cells_def
proof (intro allI impI)
  fix c assume "is_cell (HEAP_START_ADDR h) ts c"
  then obtain i where i: "i < unat (totalBlocks h)" "c = adr (HEAP_START_ADDR h) i 16" "c + 8 = adr (HEAP_START_ADDR h) i 24"
    using is_cellD [OF rep] by metis
  have "x \<noteq> adr (HEAP_START_ADDR h) j 0 \<and> x \<noteq> adr (HEAP_START_ADDR h) j 8" if "j \<in> S" "x = c \<or> x = c + 8" for x j
    using that cell_facts(5-8) [OF heap_repD(2) [OF rep] i(1), of j] S i by auto
  then show "m' c = mem h c \<and> m' (c + 8) = mem h (c + 8)"
    using ag unfolding agree_def by blast
qed

subsection \<open>The heap steps of the list operations\<close>

lemma alloc_cell:
  assumes rep: "heap_rep h fs ts" and fit: "afit 1 fs = Some (i, fs')"
  obtains h' where "kmalloc elem_blocks h = Some (adr (HEAP_START_ADDR h) i 16, h')"
    "heap_rep h' fs' ((i, 1) # ts)" "same_static h h'"
    "same_cells (HEAP_START_ADDR h) ts (mem h) (mem h')"
    "is_cell (HEAP_START_ADDR h) ((i, 1) # ts) (adr (HEAP_START_ADDR h) i 16)"
    "\<not> is_cell (HEAP_START_ADDR h) ts (adr (HEAP_START_ADDR h) i 16)"
proof -
  have one: "unat (1 :: u64) = 1" by simp
  from kmalloc_fit [OF rep _ fit [folded one]] obtain h' where
    h': "kmalloc 1 h = Some (adr (HEAP_START_ADDR h) i 16, h')" "heap_rep h' fs' ((i, 1) # ts)" "same_static h h'"
      "agree (HEAP_START_ADDR h) (set (cells fs)) (mem h) (mem h')"
    by auto
  have "\<not> is_cell (HEAP_START_ADDR h) ts (adr (HEAP_START_ADDR h) i 16)"
  proof
    assume "is_cell (HEAP_START_ADDR h) ts (adr (HEAP_START_ADDR h) i 16)"
    then obtain j where j: "(j, 1) \<in> set ts" "j < unat (totalBlocks h)"
      "adr (HEAP_START_ADDR h) i 16 = adr (HEAP_START_ADDR h) j 16"
      by (rule is_cellD [OF rep])
    have "i < unat (totalBlocks h)" using rep_block(2) [OF h'(2), of i 1] h'(3) by (simp add: same_static_def)
    then have "i = j" using j cell_facts(4) [OF heap_repD(2) [OF rep] _ j(2)] by simp
    moreover have "distinct (map fst ((i, 1) # ts))" using rep_starts(3) [OF h'(2)] by simp
    ultimately show False using j(1) by force
  qed
  then show ?thesis
    using that [of h'] h' agree_same_cells [OF rep h'(4)] rep_starts(6) [OF rep]
    by (auto simp: is_cell_def)
qed

lemma alloc_cell_none: "heap_rep h fs ts \<Longrightarrow> afit 1 fs = None \<Longrightarrow> kmalloc elem_blocks h = Some (0, h)"
  using kmalloc_none [of h fs ts 1] by simp

lemma free_cell:
  assumes rep: "heap_rep h fs ts" and i: "(i, 1) \<in> set ts"
  obtains h' where "kmfree (adr (HEAP_START_ADDR h) i 16) h = Some (0, h')"
    "heap_rep h' (ainsert (i, 1) fs) (remove1 (i, 1) ts)" "same_static h h'"
    "same_cells (HEAP_START_ADDR h) ts (mem h) (mem h')"
proof -
  from kmfree_taken [OF rep i] obtain h' where
    h': "kmfree (adr (HEAP_START_ADDR h) i 16) h = Some (0, h')"
    "heap_rep h' (ainsert (i, 1) fs) (remove1 (i, 1) ts)" "same_static h h'"
    "agree (HEAP_START_ADDR h) (fst ` set (fs @ ts)) (mem h) (mem h')" .
  have "fst ` set (fs @ ts) \<subseteq> {..<unat (totalBlocks h)}"
    using rep_starts(1,2) [OF rep] by (simp add: image_Un)
  from agree_same_cells [OF rep h'(4) this] h' that show ?thesis by blast
qed

lemma poke_cell:
  assumes rep: "heap_rep h fs ts" and c: "is_cell (HEAP_START_ADDR h) ts c" and off: "off = 0 \<or> off = 8"
  shows "poke c off v h = Some (store (c + off) v h)" "heap_rep (store (c + off) v h) fs ts"
proof -
  note g = heap_repD(2) [OF rep]
  obtain i where i: "i < unat (totalBlocks h)" "c = adr (HEAP_START_ADDR h) i 16" "c + 8 = adr (HEAP_START_ADDR h) i 24"
    using is_cellD [OF rep c] by metis
  show "poke c off v h = Some (store (c + off) v h)"
    using is_cell_neq(1) [OF rep c c] by (simp add: poke_def)
  have "chain (mem (store (c + off) v h)) (HEAP_START_ADDR h) p xs q = chain (mem h) (HEAP_START_ADDR h) p xs q"
    if "fst ` set xs \<subseteq> {..<unat (totalBlocks h)}" for p xs q
  proof (rule chain_cong)
    fix j n assume "(j, n) \<in> set xs"
    with that have "j < unat (totalBlocks h)" by force
    with cell_facts(5-8) [OF g i(1) this] off i
    show "mem (store (c + off) v h) (adr (HEAP_START_ADDR h) j 0) = mem h (adr (HEAP_START_ADDR h) j 0) \<and>
        mem (store (c + off) v h) (adr (HEAP_START_ADDR h) j 8) = mem h (adr (HEAP_START_ADDR h) j 8)"
      by (auto simp: store_def)
  qed
  with rep rep_starts(1,2) [OF rep] show "heap_rep (store (c + off) v h) fs ts"
    by (simp add: heap_rep_def)
qed

lemma lchain_same_cells:
  assumes "same_cells b ts m m'" "\<forall>c\<in>fst ` set xs. is_cell b ts c"
  shows "lchain m p xs q = lchain m' p xs q"
  by (rule lchain_cong) (use assms in \<open>auto simp: same_cells_def\<close>)

lemma is_cell_mono: "is_cell b ts c \<Longrightarrow> set ts \<subseteq> set ts' \<Longrightarrow> is_cell b ts' c"
  by (auto simp: is_cell_def)

text \<open>Writing a word of a cell leaves the lists alone that do not contain the cell.\<close>

lemma lchain_store_other:
  assumes rep: "heap_rep h fs ts" and c: "is_cell (HEAP_START_ADDR h) ts c" and off: "off = 0 \<or> off = 8"
    and xs: "\<forall>d\<in>fst ` set xs. is_cell (HEAP_START_ADDR h) ts d" "c \<notin> fst ` set xs"
  shows "lchain (mem (store (c + off) v h)) p xs q = lchain (mem h) p xs q"
proof (rule lchain_cong)
  fix d assume d: "d \<in> fst ` set xs"
  with xs have "d \<noteq> c" "is_cell (HEAP_START_ADDR h) ts d" by auto
  with is_cell_neq [OF rep c, of d] is_cell_neq [OF rep _ c, of d] off
  show "mem (store (c + off) v h) d = mem h d \<and> mem (store (c + off) v h) (d + 8) = mem h (d + 8)"
    by (auto simp: store_def)
qed

end
