(* ===== verification/ListSim.thy ===== *)
theory ListSim
  imports ListCells
begin

text \<open>
  The simulation between the pointer lists and sequences: \<open>lists_sim hC ls hA xss\<close> relates any
  number of lists \<open>ls\<close> in the heap \<open>hC\<close> to the sequences \<open>xss\<close> whose cells are allocated in the
  heap \<open>hA\<close>. \<open>lists_sim_step\<close> is the frame rule: a step on one list keeps the others.
\<close>

definition lists_sim :: "heap \<Rightarrow> ('i \<Rightarrow> list_hdr) \<Rightarrow> heap \<Rightarrow> ('i \<Rightarrow> klist) \<Rightarrow> bool" where
  "lists_sim hC ls hA xss \<longleftrightarrow>
     (\<exists>fs ts. heap_rep hC fs ts \<and> heap_rep hA fs ts \<and> HEAP_START_ADDR hA = HEAP_START_ADDR hC \<and>
        (\<forall>i. list_rep (HEAP_START_ADDR hC) (mem hC) ts (ls i) (xss i)) \<and>
        (\<forall>i j. i \<noteq> j \<longrightarrow> fst ` set (xss i) \<inter> fst ` set (xss j) = {}))"

definition unchanged :: "u64 \<Rightarrow> block list \<Rightarrow> u64 set \<Rightarrow> (u64 \<Rightarrow> u64) \<Rightarrow> (u64 \<Rightarrow> u64) \<Rightarrow> bool" where
  "unchanged b ts X m m' \<longleftrightarrow> (\<forall>c. is_cell b ts c \<and> c \<notin> X \<longrightarrow> m' c = m c \<and> m' (c + 8) = m (c + 8))"

lemma unchanged_trans: "unchanged b ts X m m' \<Longrightarrow> unchanged b ts' X m' m'' \<Longrightarrow> set ts \<subseteq> set ts' \<Longrightarrow> unchanged b ts X m m''"
  using is_cell_mono by (fastforce simp: unchanged_def)

lemma unchanged_same_cells: "same_cells b ts m m' \<Longrightarrow> unchanged b ts X m m'"
  by (simp add: unchanged_def same_cells_def)

lemma unchanged_refl [simp]: "unchanged b ts X m m"
  by (simp add: unchanged_def)

lemma unchanged_mono: "unchanged b ts X m m' \<Longrightarrow> X \<subseteq> Y \<Longrightarrow> unchanged b ts Y m m'"
  by (auto simp: unchanged_def)

lemma unchanged_store:
  assumes "heap_rep h fs ts" "is_cell (HEAP_START_ADDR h) ts c" "off = 0 \<or> off = 8" "c \<in> X"
  shows "unchanged (HEAP_START_ADDR h) ts X (mem h) (mem (store (c + off) v h))"
  unfolding unchanged_def
proof (intro allI impI)
  fix d assume d: "is_cell (HEAP_START_ADDR h) ts d \<and> d \<notin> X"
  then have "d \<noteq> c" using assms(4) by blast
  with is_cell_neq [OF assms(1,2), of d] is_cell_neq [OF assms(1) _ assms(2), of d] assms(3) d
  show "mem (store (c + off) v h) d = mem h d \<and> mem (store (c + off) v h) (d + 8) = mem h (d + 8)"
    by (auto simp: store_def)
qed

lemma lchain_unchanged:
  assumes "unchanged b ts X m m'" "\<forall>c\<in>fst ` set xs. is_cell b ts c" "X \<inter> fst ` set xs = {}"
  shows "lchain m p xs q = lchain m' p xs q"
proof (rule lchain_cong)
  fix c assume "c \<in> fst ` set xs"
  with assms(2,3) have "is_cell b ts c" "c \<notin> X" by blast+
  with assms(1) show "m c = m' c \<and> m (c + 8) = m' (c + 8)" by (simp add: unchanged_def)
qed

lemma lchain_relink:
  assumes rep: "heap_rep h fs ts" and c: "lchain (mem h) p xs r" "xs \<noteq> []" "distinct (cellptrs xs)"
    and cs: "\<forall>c\<in>fst ` set xs. is_cell (HEAP_START_ADDR h) ts c"
  shows "lchain (mem (store (last_of 0 xs + 8) q h)) p xs q"
proof -
  obtain ys c d where xs: "xs = ys @ [(c, d)]" using c(2) by (metis rev_exhaust prod.exhaust)
  then have cc: "is_cell (HEAP_START_ADDR h) ts c" "c \<notin> fst ` set ys" using cs c(3) by auto
  have "lchain (mem (store (c + 8) q h)) p ys c"
    using lchain_store_other [OF rep cc(1), of 8 ys q p c] cs c(1) xs cc(2) by simp
  moreover have "mem (store (c + 8) q h) c = mem h c"
    using is_cell_neq(2) [OF rep cc(1,1)] by (simp add: store_def)
  ultimately show ?thesis using c(1) xs by (simp add: store_def)
qed

lemma lists_sim_step:
  assumes rep: "heap_rep hC fs ts"
    and ls: "\<forall>i. list_rep (HEAP_START_ADDR hC) (mem hC) ts (ls i) (xss i)"
    and dj: "\<forall>i j. i \<noteq> j \<longrightarrow> fst ` set (xss i) \<inter> fst ` set (xss j) = {}"
    and rep': "heap_rep hC' fs' ts'" "heap_rep hA' fs' ts'"
    and b: "HEAP_START_ADDR hC' = HEAP_START_ADDR hC" "HEAP_START_ADDR hA' = HEAP_START_ADDR hC"
    and un: "unchanged (HEAP_START_ADDR hC) ts X (mem hC) (mem hC')"
    and X: "\<forall>x\<in>X. x \<in> fst ` set (xss k) \<or> \<not> is_cell (HEAP_START_ADDR hC) ts x"
    and keep: "\<forall>c. is_cell (HEAP_START_ADDR hC) ts c \<and> c \<notin> X \<longrightarrow> is_cell (HEAP_START_ADDR hC) ts' c"
    and new: "list_rep (HEAP_START_ADDR hC) (mem hC') ts' l' xs'"
      "\<forall>c\<in>fst ` set xs'. c \<in> fst ` set (xss k) \<or> \<not> is_cell (HEAP_START_ADDR hC) ts c"
  shows "lists_sim hC' (ls(k := l')) hA' (xss(k := xs'))"
proof -
  have cs: "\<forall>c\<in>fst ` set (xss j). is_cell (HEAP_START_ADDR hC) ts c" for j
    using ls by (simp add: list_rep_def)
  have other: "list_rep (HEAP_START_ADDR hC) (mem hC') ts' (ls j) (xss j)" if "j \<noteq> k" for j
  proof -
    have d: "fst ` set (xss j) \<inter> fst ` set (xss k) = {}" using dj that by blast
    have Xj: "X \<inter> fst ` set (xss j) = {}"
    proof (rule ccontr)
      assume "X \<inter> fst ` set (xss j) \<noteq> {}"
      then obtain x where x: "x \<in> X" "x \<in> fst ` set (xss j)" by blast
      with d have "x \<notin> fst ` set (xss k)" by blast
      with x X cs show False by blast
    qed
    then have "\<forall>c\<in>fst ` set (xss j). is_cell (HEAP_START_ADDR hC) ts' c" using keep cs by blast
    with lchain_unchanged [OF un cs Xj] ls [rule_format, of j] show ?thesis
      by (simp add: list_rep_def)
  qed
  have "fst ` set xs' \<inter> fst ` set (xss j) = {}" if "j \<noteq> k" for j
  proof (rule ccontr)
    assume "fst ` set xs' \<inter> fst ` set (xss j) \<noteq> {}"
    then obtain x where x: "x \<in> fst ` set xs'" "x \<in> fst ` set (xss j)" by blast
    moreover have "x \<notin> fst ` set (xss k)" using dj that x by blast
    ultimately show False using new(2) cs by blast
  qed
  with dj have dj': "\<forall>i j. i \<noteq> j \<longrightarrow> fst ` set ((xss(k := xs')) i) \<inter> fst ` set ((xss(k := xs')) j) = {}"
    by (simp add: Int_commute)
  show ?thesis unfolding lists_sim_def b
    using rep' other new(1) dj' by (intro exI [of _ fs'] exI [of _ ts']) (simp del: fun_upd_apply add: fun_upd_def)
qed

lemma lists_simE:
  assumes "lists_sim hC ls hA xss"
  obtains fs ts where "heap_rep hC fs ts" "heap_rep hA fs ts" "HEAP_START_ADDR hA = HEAP_START_ADDR hC"
    "\<forall>i. list_rep (HEAP_START_ADDR hC) (mem hC) ts (ls i) (xss i)"
    "\<forall>i j. i \<noteq> j \<longrightarrow> fst ` set (xss i) \<inter> fst ` set (xss j) = {}"
  using assms unfolding lists_sim_def by blast

lemma store_add0 [simp]: "store (c + 0) v h = store c v h"
  by simp

subsection \<open>Insertion\<close>

text \<open>Both sides allocate the same cell; on the pointer side its two words are then written.\<close>

lemma new_cell:
  assumes rep: "heap_rep hC fs ts" "heap_rep hA fs ts" "HEAP_START_ADDR hA = HEAP_START_ADDR hC"
    and fit: "afit 1 fs = Some (i, fs')"
  defines "c \<equiv> adr (HEAP_START_ADDR hC) i 16"
  obtains h1 h3 hA' where "kmalloc elem_blocks hC = Some (c, h1)" "new_elem d hA = Some ((c, d), hA')"
    "poke c 0 d h1 = Some (store c d h1)" "poke c 8 n (store c d h1) = Some h3"
    "heap_rep h3 fs' ((i, 1) # ts)" "heap_rep hA' fs' ((i, 1) # ts)"
    "HEAP_START_ADDR h3 = HEAP_START_ADDR hC" "HEAP_START_ADDR hA' = HEAP_START_ADDR hC"
    "mem h3 c = d" "mem h3 (c + 8) = n" "c \<noteq> 0" "\<not> is_cell (HEAP_START_ADDR hC) ts c"
    "is_cell (HEAP_START_ADDR hC) ((i, 1) # ts) c" "unchanged (HEAP_START_ADDR hC) ts {c} (mem hC) (mem h3)"
proof -
  obtain h1 where h1: "kmalloc elem_blocks hC = Some (c, h1)" "heap_rep h1 fs' ((i, 1) # ts)" "same_static hC h1"
    "same_cells (HEAP_START_ADDR hC) ts (mem hC) (mem h1)"
    "is_cell (HEAP_START_ADDR hC) ((i, 1) # ts) c" "\<not> is_cell (HEAP_START_ADDR hC) ts c"
    unfolding c_def by (rule alloc_cell [OF rep(1) fit])
  obtain hA' where hA: "kmalloc elem_blocks hA = Some (c, hA')" "heap_rep hA' fs' ((i, 1) # ts)" "same_static hA hA'"
    unfolding c_def rep(3) [symmetric] by (rule alloc_cell [OF rep(2) fit])
  have b1: "HEAP_START_ADDR h1 = HEAP_START_ADDR hC" "HEAP_START_ADDR hA' = HEAP_START_ADDR hC"
    using h1(3) hA(3) rep(3) by (simp_all add: same_static_def)
  have c1: "is_cell (HEAP_START_ADDR h1) ((i, 1) # ts) c" using h1(5) b1 by simp
  have nz: "c \<noteq> 0" "c \<noteq> c + 8" using is_cell_neq [OF h1(2) c1 c1] by blast+
  define h2 where "h2 = store c d h1"
  define h3 where "h3 = store (c + 8) n h2"
  have p2: "poke c 0 d h1 = Some h2" "heap_rep h2 fs' ((i, 1) # ts)"
    using poke_cell [OF h1(2) c1, of 0 d] by (simp_all add: h2_def)
  have b2: "HEAP_START_ADDR h2 = HEAP_START_ADDR hC" by (simp add: h2_def b1)
  have c2: "is_cell (HEAP_START_ADDR h2) ((i, 1) # ts) c" using h1(5) b2 by simp
  have p3: "poke c 8 n h2 = Some h3" "heap_rep h3 fs' ((i, 1) # ts)"
    using poke_cell [OF p2(2) c2, of 8 n] by (simp_all add: h3_def)
  have u2: "unchanged (HEAP_START_ADDR hC) ((i, 1) # ts) {c} (mem h1) (mem h2)"
    using unchanged_store [OF h1(2) c1, of 0 "{c}" d] by (simp add: h2_def b1)
  have u3: "unchanged (HEAP_START_ADDR hC) ((i, 1) # ts) {c} (mem h2) (mem h3)"
    using unchanged_store [OF p2(2) c2, of 8 "{c}" n] by (simp add: h3_def b2)
  have un: "unchanged (HEAP_START_ADDR hC) ts {c} (mem hC) (mem h3)"
    by (rule unchanged_trans [OF unchanged_same_cells [OF h1(4)] unchanged_trans [OF u2 u3]]) auto
  have m: "mem h3 c = d" "mem h3 (c + 8) = n" using nz by (simp_all add: h3_def h2_def store_def)
  have b3: "HEAP_START_ADDR h3 = HEAP_START_ADDR hC" by (simp add: h3_def b2)
  have ne: "new_elem d hA = Some ((c, d), hA')" using hA(1) nz by (simp add: new_elem_def)
  show ?thesis
    by (rule that [OF h1(1) ne p2(1) [unfolded h2_def] p3(1) [unfolded h2_def] p3(2) hA(2) b3 b1(2) m nz(1) h1(6,5) un])
qed

text \<open>The list up to \<open>pre\<close> is continued at \<open>q\<close>; a list without \<open>pre\<close> would begin there.\<close>

definition relink :: "(u64 \<times> u64) list \<Rightarrow> u64 \<Rightarrow> heap \<Rightarrow> heap" where
  "relink pre q h = (if pre = [] then h else store (last_of 0 pre + 8) q h)"

definition ends :: "(u64 \<times> u64) list \<Rightarrow> u64 set" where
  "ends pre = (if pre = [] then {} else {last_of 0 pre})"

lemma ends_subset: "ends pre \<subseteq> fst ` set pre"
  by (auto simp: ends_def last_of_def)

lemma relink_ok:
  assumes rep: "heap_rep h fs ts" and cs: "\<forall>c\<in>fst ` set pre. is_cell (HEAP_START_ADDR h) ts c"
    and ch: "lchain (mem h) p pre r" "distinct (cellptrs pre)"
  shows "pre \<noteq> [] \<Longrightarrow> poke (last_of 0 pre) 8 q h = Some (relink pre q h)" "heap_rep (relink pre q h) fs ts"
    "HEAP_START_ADDR (relink pre q h) = HEAP_START_ADDR h"
    "unchanged (HEAP_START_ADDR h) ts (insert c (ends pre)) (mem h) (mem (relink pre q h))"
    "lchain (mem (relink pre q h)) (if pre = [] then q else p) pre q"
    "is_cell (HEAP_START_ADDR h) ts e \<Longrightarrow> mem (relink pre q h) e = mem h e"
    "is_cell (HEAP_START_ADDR h) ts e \<Longrightarrow> e \<notin> ends pre \<Longrightarrow> mem (relink pre q h) (e + 8) = mem h (e + 8)"
proof -
  have lp: "is_cell (HEAP_START_ADDR h) ts (last_of 0 pre)" if "pre \<noteq> []" using that cs by (auto simp: last_of_def)
  show "pre \<noteq> [] \<Longrightarrow> poke (last_of 0 pre) 8 q h = Some (relink pre q h)" "heap_rep (relink pre q h) fs ts"
    "HEAP_START_ADDR (relink pre q h) = HEAP_START_ADDR h"
    using poke_cell [OF rep lp, of 8 q] rep by (simp_all add: relink_def)
  show "unchanged (HEAP_START_ADDR h) ts (insert c (ends pre)) (mem h) (mem (relink pre q h))"
    using unchanged_store [OF rep, of "last_of 0 pre" 8 "insert c (ends pre)" q] lp
    by (cases "pre = []") (simp_all add: relink_def ends_def)
  show "lchain (mem (relink pre q h)) (if pre = [] then q else p) pre q"
    using lchain_relink [OF rep ch(1) _ ch(2) cs] by (auto simp: relink_def)
  show "is_cell (HEAP_START_ADDR h) ts e \<Longrightarrow> mem (relink pre q h) e = mem h e"
    using is_cell_neq(2) [OF rep _ lp] by (auto simp: relink_def store_def)
  show "is_cell (HEAP_START_ADDR h) ts e \<Longrightarrow> e \<notin> ends pre \<Longrightarrow> mem (relink pre q h) (e + 8) = mem h (e + 8)"
    by (auto simp: relink_def ends_def store_def)
qed

end
