(* ===== verification/ListInsert.thy ===== *)
theory ListInsert
  imports ListSim
begin

text \<open>
  The insertions of \<open>h/_list.hpp\<close> simulate those on sequences. All of them link a new cell
  between two parts of the list (\<open>insert_between\<close>).
\<close>

lemma insert_between:
  assumes rep: "heap_rep hC fs ts" "heap_rep hA fs ts" "HEAP_START_ADDR hA = HEAP_START_ADDR hC"
    and ls: "\<forall>i. list_rep (HEAP_START_ADDR hC) (mem hC) ts (ls i) (xss i)"
    and dj: "\<forall>i j. i \<noteq> j \<longrightarrow> fst ` set (xss i) \<inter> fst ` set (xss j) = {}"
    and fit: "afit 1 fs = Some (i, fs')" and xs: "xss k = pre @ suf"
  obtains c h1 h3 h4 hA' where "kmalloc elem_blocks hC = Some (c, h1)" "new_elem d hA = Some ((c, d), hA')"
    "poke c 0 d h1 = Some (store c d h1)" "poke c 8 (first_cell suf) (store c d h1) = Some h3"
    "pre \<noteq> [] \<Longrightarrow> poke (last_of 0 pre) 8 c h3 = Some h4" "pre = [] \<Longrightarrow> h4 = h3"
    "lists_sim h4 (ls(k := \<lparr>head = (if pre = [] then c else head (ls k)), tail = (if suf = [] then c else tail (ls k))\<rparr>))
       hA' (xss(k := pre @ (c, d) # suf))" "c \<noteq> 0"
proof -
  let ?b = "HEAP_START_ADDR hC"
  obtain h1 h3 hA' where n: "kmalloc elem_blocks hC = Some (adr ?b i 16, h1)" "new_elem d hA = Some ((adr ?b i 16, d), hA')"
    "poke (adr ?b i 16) 0 d h1 = Some (store (adr ?b i 16) d h1)"
    "poke (adr ?b i 16) 8 (first_cell suf) (store (adr ?b i 16) d h1) = Some h3"
    "heap_rep h3 fs' ((i, 1) # ts)" "heap_rep hA' fs' ((i, 1) # ts)"
    "HEAP_START_ADDR h3 = ?b" "HEAP_START_ADDR hA' = ?b"
    "mem h3 (adr ?b i 16) = d" "mem h3 (adr ?b i 16 + 8) = first_cell suf" "adr ?b i 16 \<noteq> 0" "\<not> is_cell ?b ts (adr ?b i 16)"
    "is_cell ?b ((i, 1) # ts) (adr ?b i 16)" "unchanged ?b ts {adr ?b i 16} (mem hC) (mem h3)"
    by (rule new_cell [OF rep fit])
  define c where "c = adr ?b i 16"
  note n = n [folded c_def]
  let ?ts = "(i, 1) # ts"
  have lr: "list_rep ?b (mem hC) ts (ls k) (pre @ suf)" using ls xs by metis
  have cl: "\<forall>c\<in>fst ` set (pre @ suf). is_cell ?b ts c" "distinct (cellptrs (pre @ suf))"
    using lr by (simp_all add: list_rep_def)
  have cpre: "\<forall>c\<in>fst ` set pre. is_cell ?b ?ts c" "\<forall>c\<in>fst ` set pre. is_cell ?b ts c" "distinct (cellptrs pre)"
    "\<forall>c\<in>fst ` set suf. is_cell ?b ts c"
    using cl is_cell_mono [of ?b ts _ ?ts] by auto
  have cnin: "c \<notin> fst ` set pre" "c \<notin> fst ` set suf" using n(12) cl(1) by auto
  obtain r where r: "lchain (mem hC) (head (ls k)) pre r" "lchain (mem hC) r suf 0"
    using lr by (auto simp: list_rep_def)
  have r3: "lchain (mem h3) (head (ls k)) pre r" "lchain (mem h3) r suf 0"
    using r lchain_unchanged [OF n(14) cpre(2)] lchain_unchanged [OF n(14) cpre(4)] cnin by simp_all
  have rs: "r = first_cell suf" using lchain_first [OF r(2)] .
  define h4 where "h4 = relink pre c h3"
  note rl = relink_ok [OF n(5), unfolded n(7), OF cpre(1) r3(1) cpre(3), where q = c, folded h4_def]
  let ?X = "insert c (ends pre)"
  have un: "unchanged ?b ts ?X (mem hC) (mem h4)"
    by (rule unchanged_trans [OF unchanged_mono [OF n(14)] rl(4)]) auto
  have c4: "mem h4 c = d" "mem h4 (c + 8) = first_cell suf"
    using rl(6,7) [OF n(13)] n(9,10) cnin(1) ends_subset [of pre] by auto
  have s4: "lchain (mem h4) r suf 0"
  proof -
    have "?X \<inter> fst ` set suf = {}" using cnin ends_subset [of pre] cl(2) by auto
    with un show ?thesis using lchain_unchanged [OF un cpre(4)] r(2) by simp
  qed
  let ?hd = "if pre = [] then c else head (ls k)"
  let ?l = "\<lparr>head = ?hd, tail = (if suf = [] then c else tail (ls k))\<rparr>"
  have "list_rep ?b (mem h4) ?ts ?l (pre @ (c, d) # suf)"
  proof -
    have "tail (ls k) = last_of 0 (pre @ suf)" using lr by (simp add: list_rep_def)
    then have "tail ?l = last_of 0 (pre @ (c, d) # suf)" by (simp add: last_of_def)
    moreover have "\<forall>e\<in>fst ` set (pre @ (c, d) # suf). is_cell ?b ?ts e"
      using cl(1) n(13) is_cell_mono [of ?b ts _ ?ts] by auto
    moreover have "distinct (cellptrs (pre @ (c, d) # suf))" using cl(2) cnin by auto
    moreover have "lchain (mem h4) ?hd (pre @ (c, d) # suf) 0"
      using rl(5) s4 c4 rs n(11) by auto
    ultimately show ?thesis by (simp add: list_rep_def)
  qed
  moreover have "\<forall>e\<in>fst ` set (pre @ (c, d) # suf). e \<in> fst ` set (xss k) \<or> \<not> is_cell ?b ts e"
    using n(12) xs by auto
  moreover have "\<forall>x\<in>?X. x \<in> fst ` set (xss k) \<or> \<not> is_cell ?b ts x" using n(12) ends_subset [of pre] xs by auto
  moreover have "\<forall>c'. is_cell ?b ts c' \<and> c' \<notin> ?X \<longrightarrow> is_cell ?b ?ts c'" using is_cell_mono [of ?b ts _ ?ts] by auto
  ultimately have "lists_sim h4 (ls(k := ?l)) hA' (xss(k := pre @ (c, d) # suf))"
    using lists_sim_step [OF rep(1) ls dj rl(2) n(6) rl(3) n(8) un] by blast
  then show ?thesis
    using that [OF n(1-4) rl(1) _ _ n(11)] by (simp add: h4_def relink_def)
qed

lemma list_hdr_updates:
  "(l :: list_hdr)\<lparr>tail := t\<rparr> = \<lparr>head = head l, tail = t\<rparr>"
  "(l :: list_hdr)\<lparr>head := c\<rparr> = \<lparr>head = c, tail = tail l\<rparr>"
  by (cases l; simp)+

lemma new_elem_none: "heap_rep hA fs ts \<Longrightarrow> afit 1 fs = None \<Longrightarrow> new_elem d hA = None"
  by (simp add: new_elem_def alloc_cell_none del: elem_blocks_1)

lemma list_rep_head_tail:
  assumes "heap_rep h fs ts" "list_rep (HEAP_START_ADDR h) m ts l xs"
  shows "head l = first_cell xs" "tail l = last_of 0 xs" "head l = 0 \<longleftrightarrow> xs = []" "tail l = 0 \<longleftrightarrow> xs = []"
proof -
  show hd: "head l = first_cell xs" and tl: "tail l = last_of 0 xs"
    using assms(2) lchain_first by (auto simp: list_rep_def)
  have nz: "c \<noteq> 0" if "c \<in> fst ` set xs" for c
    using assms(2) is_cell_neq(1) [OF assms(1)] that unfolding list_rep_def by blast
  show "head l = 0 \<longleftrightarrow> xs = []" using nz by (cases xs) (auto simp: hd)
  show "tail l = 0 \<longleftrightarrow> xs = []" using nz [of "fst (last xs)"] by (auto simp: tl last_of_def)
qed

lemma addLast_sim:
  assumes "lists_sim hC ls hA xss"
  shows "rel_option (\<lambda>(l', hC') (xs', hA'). lists_sim hC' (ls(k := l')) hA' (xss(k := xs')))
     (addLast d (ls k) hC) (k_addLast d (xss k) hA)"
  using assms
proof (rule lists_simE)
  fix fs ts
  assume rep: "heap_rep hC fs ts" "heap_rep hA fs ts" "HEAP_START_ADDR hA = HEAP_START_ADDR hC"
    and ls: "\<forall>i. list_rep (HEAP_START_ADDR hC) (mem hC) ts (ls i) (xss i)"
    and dj: "\<forall>i j. i \<noteq> j \<longrightarrow> fst ` set (xss i) \<inter> fst ` set (xss j) = {}"
  note ht = list_rep_head_tail [OF rep(1) ls [rule_format, of k]]
  show ?thesis
  proof (cases "afit 1 fs")
    case None
    then show ?thesis
      using alloc_cell_none [OF rep(1)] new_elem_none [OF rep(2)]
      by (simp add: addLast_def k_addLast_def poke_def del: elem_blocks_1)
  next
    case (Some p)
    obtain i fs' where p: "p = (i, fs')" by (cases p)
    obtain c h1 h3 h4 hA' where n: "kmalloc elem_blocks hC = Some (c, h1)" "new_elem d hA = Some ((c, d), hA')"
      "poke c 0 d h1 = Some (store c d h1)" "poke c 8 (first_cell []) (store c d h1) = Some h3"
      "xss k \<noteq> [] \<Longrightarrow> poke (last_of 0 (xss k)) 8 c h3 = Some h4" "xss k = [] \<Longrightarrow> h4 = h3"
      "lists_sim h4 (ls(k := \<lparr>head = (if xss k = [] then c else head (ls k)), tail = (if [] = ([] :: klist) then c else tail (ls k))\<rparr>))
       hA' (xss(k := xss k @ (c, d) # []))" "c \<noteq> 0"
      by (rule insert_between [OF rep ls dj Some [unfolded p], where pre = "xss k" and suf = "[]"]) auto
    show ?thesis
      using n ht
      by (cases "xss k = []") (simp_all add: addLast_def k_addLast_def list_hdr_updates del: elem_blocks_1)
  qed
qed


lemma addFirst_sim:
  assumes "lists_sim hC ls hA xss"
  shows "rel_option (\<lambda>(l', hC') (xs', hA'). lists_sim hC' (ls(k := l')) hA' (xss(k := xs')))
     (addFirst d (ls k) hC) (k_addFirst d (xss k) hA)"
  using assms
proof (rule lists_simE)
  fix fs ts
  assume rep: "heap_rep hC fs ts" "heap_rep hA fs ts" "HEAP_START_ADDR hA = HEAP_START_ADDR hC"
    and ls: "\<forall>i. list_rep (HEAP_START_ADDR hC) (mem hC) ts (ls i) (xss i)"
    and dj: "\<forall>i j. i \<noteq> j \<longrightarrow> fst ` set (xss i) \<inter> fst ` set (xss j) = {}"
  note ht = list_rep_head_tail [OF rep(1) ls [rule_format, of k]]
  show ?thesis
  proof (cases "afit 1 fs")
    case None
    then show ?thesis
      using alloc_cell_none [OF rep(1)] new_elem_none [OF rep(2)]
      by (simp add: addFirst_def k_addFirst_def poke_def del: elem_blocks_1)
  next
    case (Some p)
    obtain i fs' where p: "p = (i, fs')" by (cases p)
    obtain c h1 h3 h4 hA' where n: "kmalloc elem_blocks hC = Some (c, h1)" "new_elem d hA = Some ((c, d), hA')"
      "poke c 0 d h1 = Some (store c d h1)" "poke c 8 (first_cell (xss k)) (store c d h1) = Some h3"
      "[] \<noteq> ([] :: klist) \<Longrightarrow> poke (last_of 0 []) 8 c h3 = Some h4" "[] = ([] :: klist) \<Longrightarrow> h4 = h3"
      "lists_sim h4 (ls(k := \<lparr>head = (if [] = ([] :: klist) then c else head (ls k)), tail = (if xss k = [] then c else tail (ls k))\<rparr>))
       hA' (xss(k := [] @ (c, d) # xss k))" "c \<noteq> 0"
      by (rule insert_between [OF rep ls dj Some [unfolded p], where pre = "[]" and suf = "xss k"]) auto
    show ?thesis
      using n ht
      by (cases "xss k = []") (simp_all add: addFirst_def k_addFirst_def list_hdr_updates Let_def del: elem_blocks_1)
  qed
qed

lemma find_pos_chain:
  assumes "lchain (mem h) cur xs 0"
  shows "find_pos h P cur prev = Some (first_cell (dropWhile (\<lambda>(c, x). P x) xs), last_of prev (takeWhile (\<lambda>(c, x). P x) xs))"
  using assms
proof (induction xs arbitrary: cur prev)
  case Nil
  then show ?case by (simp add: find_pos.simps)
next
  case (Cons x xs)
  obtain c d where x: "x = (c, d)" by (cases x)
  with Cons.prems have c: "cur = c" "c \<noteq> 0" "mem h c = d" "lchain (mem h) (mem h (c + 8)) xs 0" by auto
  show ?case
    by (subst find_pos.simps) (simp add: c x Cons.IH [OF c(4)])
qed

lemma last_of_0: "\<forall>c\<in>fst ` set xs. c \<noteq> 0 \<Longrightarrow> last_of 0 xs = 0 \<longleftrightarrow> xs = []"
  by (cases xs rule: rev_cases) (auto simp: last_of_def)

lemma first_cell_0: "\<forall>c\<in>fst ` set xs. c \<noteq> 0 \<Longrightarrow> first_cell xs = 0 \<longleftrightarrow> xs = []"
  by (cases xs) (auto simp: first_cell_def)

lemma insert_sorted_sim:
  assumes "lists_sim hC ls hA xss"
  shows "rel_option (\<lambda>(l', hC') (xs', hA'). lists_sim hC' (ls(k := l')) hA' (xss(k := xs')))
     (insert_sorted d cmp (ls k) hC) (k_insert_sorted d cmp (xss k) hA)"
proof (cases "d = 0")
  case True
  with assms show ?thesis by (simp add: insert_sorted_def k_insert_sorted_def)
next
  case False
  from assms show ?thesis
  proof (rule lists_simE)
    fix fs ts
    assume rep: "heap_rep hC fs ts" "heap_rep hA fs ts" "HEAP_START_ADDR hA = HEAP_START_ADDR hC"
      and ls: "\<forall>i. list_rep (HEAP_START_ADDR hC) (mem hC) ts (ls i) (xss i)"
      and dj: "\<forall>i j. i \<noteq> j \<longrightarrow> fst ` set (xss i) \<inter> fst ` set (xss j) = {}"
    let ?pre = "takeWhile (\<lambda>(c, x). cmp x d) (xss k)" and ?suf = "dropWhile (\<lambda>(c, x). cmp x d) (xss k)"
    have lr: "list_rep (HEAP_START_ADDR hC) (mem hC) ts (ls k) (xss k)" using ls by blast
    have fp: "find_pos hC (\<lambda>x. cmp x d) (head (ls k)) 0 = Some (first_cell ?suf, last_of 0 ?pre)"
      using find_pos_chain [of hC "head (ls k)" "xss k"] lr by (simp add: list_rep_def)
    have nz: "c \<noteq> 0" if "c \<in> fst ` set (xss k)" for c
      using lr is_cell_neq(1) [OF rep(1)] that unfolding list_rep_def by blast
    have n0: "last_of 0 ?pre = 0 \<longleftrightarrow> ?pre = []" "first_cell ?suf = 0 \<longleftrightarrow> ?suf = []"
    proof -
      have "\<forall>c\<in>fst ` set ?pre. c \<noteq> 0" "\<forall>c\<in>fst ` set ?suf. c \<noteq> 0"
        using nz by (fastforce dest: set_takeWhileD set_dropWhileD)+
      then show "last_of 0 ?pre = 0 \<longleftrightarrow> ?pre = []" "first_cell ?suf = 0 \<longleftrightarrow> ?suf = []"
        by (simp_all only: last_of_0 first_cell_0)
    qed
    show ?thesis
    proof (cases "afit 1 fs")
      case None
      then show ?thesis
        using alloc_cell_none [OF rep(1)] new_elem_none [OF rep(2)] fp False
        by (simp add: insert_sorted_def k_insert_sorted_def poke_def del: elem_blocks_1)
    next
      case (Some p)
      obtain i fs' where p: "p = (i, fs')" by (cases p)
      obtain c h1 h3 h4 hA' where n: "kmalloc elem_blocks hC = Some (c, h1)" "new_elem d hA = Some ((c, d), hA')"
        "poke c 0 d h1 = Some (store c d h1)" "poke c 8 (first_cell ?suf) (store c d h1) = Some h3"
        "?pre \<noteq> [] \<Longrightarrow> poke (last_of 0 ?pre) 8 c h3 = Some h4" "?pre = [] \<Longrightarrow> h4 = h3"
        "lists_sim h4 (ls(k := \<lparr>head = (if ?pre = [] then c else head (ls k)), tail = (if ?suf = [] then c else tail (ls k))\<rparr>))
         hA' (xss(k := ?pre @ (c, d) # ?suf))" "c \<noteq> 0"
        by (rule insert_between [OF rep ls dj Some [unfolded p], where pre = ?pre and suf = ?suf]) auto
      define pre suf where "pre = ?pre" and "suf = ?suf"
      note n = n [folded pre_def suf_def] and fp = fp [folded pre_def suf_def] and n0 = n0 [folded pre_def suf_def]
      have e: "k_insert_sorted d cmp (xss k) hA = Some (pre @ (c, d) # suf, hA')"
        using n(2) False by (simp add: k_insert_sorted_def pre_def suf_def)
      have "insert_sorted d cmp (ls k) hC = Some (\<lparr>head = (if pre = [] then c else head (ls k)), tail = (if suf = [] then c else tail (ls k))\<rparr>, h4)"
        using n(1,3-6,8) False fp n0
        by (cases "pre = []"; cases "suf = []") (simp_all add: insert_sorted_def list_hdr_updates del: elem_blocks_1)
      with e n(7) show ?thesis by simp
    qed
  qed
qed

end
