(* ===== verification/ListRemove.thy ===== *)
theory ListRemove
  imports ListInsert
begin

text \<open>
  The removals of \<open>h/_list.hpp\<close> simulate those on sequences. All of them unlink and free the
  cell between two parts of the list (\<open>remove_between\<close>).
\<close>

subsection \<open>Removal\<close>

text \<open>Unlinking the cell \<open>c\<close> and freeing it.\<close>

lemma is_cell_remove:
  assumes rep: "heap_rep h fs ts" and i: "(i, 1) \<in> set ts" "is_cell (HEAP_START_ADDR h) ts c"
    and ne: "c \<noteq> adr (HEAP_START_ADDR h) i 16"
  shows "is_cell (HEAP_START_ADDR h) (remove1 (i, 1) ts) c"
proof -
  obtain j where j: "(j, 1) \<in> set ts" "c = adr (HEAP_START_ADDR h) j 16" using i(2) by (auto simp: is_cell_def)
  with ne have "(j, 1) \<noteq> (i, 1::nat)" by auto
  then have "(j, 1) \<in> set (remove1 (i, 1) ts)" using j(1) in_set_remove1 by metis
  with j(2) show ?thesis by (auto simp: is_cell_def)
qed

lemma remove_between:
  assumes rep: "heap_rep hC fs ts" "heap_rep hA fs ts" "HEAP_START_ADDR hA = HEAP_START_ADDR hC"
    and ls: "\<forall>i. list_rep (HEAP_START_ADDR hC) (mem hC) ts (ls i) (xss i)"
    and dj: "\<forall>i j. i \<noteq> j \<longrightarrow> fst ` set (xss i) \<inter> fst ` set (xss j) = {}"
    and xs: "xss k = pre @ (c, d) # suf"
  obtains h1 h2 hA' where "peek c 8 hC = Some (first_cell suf)" "peek c 0 hC = Some d"
    "pre \<noteq> [] \<Longrightarrow> poke (last_of 0 pre) 8 (first_cell suf) hC = Some h1" "pre = [] \<Longrightarrow> h1 = hC"
    "mem h1 c = d" "c \<noteq> 0"
    "kmfree c h1 = Some (0, h2)" "kmfree c hA = Some (0, hA')"
    "lists_sim h2 (ls(k := \<lparr>head = (if pre = [] then first_cell suf else head (ls k)),
        tail = (if suf = [] then last_of 0 pre else tail (ls k))\<rparr>)) hA' (xss(k := pre @ suf))"
proof -
  let ?b = "HEAP_START_ADDR hC"
  have lr: "list_rep ?b (mem hC) ts (ls k) (pre @ (c, d) # suf)" using ls xs by metis
  have cl: "\<forall>c\<in>fst ` set (pre @ (c, d) # suf). is_cell ?b ts c" "distinct (cellptrs (pre @ (c, d) # suf))"
    using lr by (simp_all add: list_rep_def)
  have cells: "\<forall>c\<in>fst ` set pre. is_cell ?b ts c" "\<forall>c\<in>fst ` set suf. is_cell ?b ts c" "is_cell ?b ts c"
    "c \<notin> fst ` set pre" "c \<notin> fst ` set suf" "distinct (cellptrs pre)" "fst ` set pre \<inter> fst ` set suf = {}"
    using cl by auto
  have ch: "lchain (mem hC) (head (ls k)) pre c" "mem hC c = d" "lchain (mem hC) (mem hC (c + 8)) suf 0" "c \<noteq> 0"
    using lr by (auto simp: list_rep_def)
  have n: "mem hC (c + 8) = first_cell suf" using lchain_first [OF ch(3)] .
  define h1 where "h1 = relink pre (first_cell suf) hC"
  note rl = relink_ok [OF rep(1) cells(1) ch(1) cells(6), where q = "first_cell suf", folded h1_def]
  have m1: "mem h1 c = d" using rl(6) [OF cells(3)] ch(2) by simp
  obtain i where i: "(i, 1) \<in> set ts" "c = adr ?b i 16" using cells(3) by (auto simp: is_cell_def)
  obtain h2 where h2: "kmfree c h1 = Some (0, h2)" "heap_rep h2 (ainsert (i, 1) fs) (remove1 (i, 1) ts)"
    "same_static h1 h2" "same_cells ?b ts (mem h1) (mem h2)"
    using free_cell [OF rl(2) i(1)] unfolding rl(3) i(2) by metis
  obtain hA' where hA': "kmfree c hA = Some (0, hA')" "heap_rep hA' (ainsert (i, 1) fs) (remove1 (i, 1) ts)"
    "same_static hA hA'"
    using free_cell [OF rep(2) i(1)] unfolding rep(3) i(2) by metis
  have b2: "HEAP_START_ADDR h2 = ?b" "HEAP_START_ADDR hA' = ?b"
    using h2(3) hA'(3) rl(3) rep(3) by (simp_all add: same_static_def)
  let ?X = "insert c (ends pre)"
  have un: "unchanged ?b ts ?X (mem hC) (mem h2)"
    by (rule unchanged_trans [OF rl(4) unchanged_same_cells [OF h2(4)]]) simp
  have "lchain (mem h2) (first_cell suf) suf 0"
  proof -
    have "?X \<inter> fst ` set suf = {}" using cells(5,7) ends_subset [of pre] by blast
    with un show ?thesis using lchain_unchanged [OF un cells(2)] ch(3) n by simp
  qed
  moreover have "lchain (mem h2) (if pre = [] then first_cell suf else head (ls k)) pre (first_cell suf)"
    using rl(5) lchain_same_cells [OF h2(4) cells(1)] by simp
  moreover have "\<forall>e\<in>fst ` set (pre @ suf). is_cell ?b (remove1 (i, 1) ts) e"
  proof
    fix e assume "e \<in> fst ` set (pre @ suf)"
    then have "is_cell ?b ts e" "e \<noteq> c" using cells by auto
    then show "is_cell ?b (remove1 (i, 1) ts) e" using is_cell_remove [OF rep(1) i(1)] i(2) by simp
  qed
  moreover have "distinct (cellptrs (pre @ suf))" using cl(2) by simp
  moreover have "tail (ls k) = last_of 0 (pre @ (c, d) # suf)" using lr by (simp add: list_rep_def)
  ultimately have new: "list_rep ?b (mem h2) (remove1 (i, 1) ts)
      \<lparr>head = (if pre = [] then first_cell suf else head (ls k)), tail = (if suf = [] then last_of 0 pre else tail (ls k))\<rparr>
      (pre @ suf)"
    unfolding list_rep_def by (auto simp: last_of_def)
  have "lists_sim h2 (ls(k := \<lparr>head = (if pre = [] then first_cell suf else head (ls k)),
        tail = (if suf = [] then last_of 0 pre else tail (ls k))\<rparr>)) hA' (xss(k := pre @ suf))"
  proof (rule lists_sim_step [OF rep(1) ls dj h2(2) hA'(2) b2 un _ _ new])
    show "\<forall>x\<in>?X. x \<in> fst ` set (xss k) \<or> \<not> is_cell ?b ts x" using ends_subset [of pre] by (auto simp: xs)
    show "\<forall>e. is_cell ?b ts e \<and> e \<notin> ?X \<longrightarrow> is_cell ?b (remove1 (i, 1) ts) e"
      using is_cell_remove [OF rep(1) i(1)] i(2) by simp
    show "\<forall>e\<in>fst ` set (pre @ suf). e \<in> fst ` set (xss k) \<or> \<not> is_cell ?b ts e" by (auto simp: xs)
  qed
  moreover have "peek c 8 hC = Some (first_cell suf)" "peek c 0 hC = Some d"
    using ch n by (simp_all add: peek_def)
  ultimately show ?thesis
    using that [OF _ _ rl(1) _ m1 ch(4) h2(1) hA'(1)] by (simp add: h1_def relink_def)
qed

lemma removeFirst_sim:
  assumes "lists_sim hC ls hA xss"
  shows "rel_option (\<lambda>(r, l', hC') (r', xs', hA'). r = r' \<and> lists_sim hC' (ls(k := l')) hA' (xss(k := xs')))
     (removeFirst (ls k) hC) (k_removeFirst (xss k) hA)"
  using assms
proof (rule lists_simE)
  fix fs ts
  assume rep: "heap_rep hC fs ts" "heap_rep hA fs ts" "HEAP_START_ADDR hA = HEAP_START_ADDR hC"
    and ls: "\<forall>i. list_rep (HEAP_START_ADDR hC) (mem hC) ts (ls i) (xss i)"
    and dj: "\<forall>i j. i \<noteq> j \<longrightarrow> fst ` set (xss i) \<inter> fst ` set (xss j) = {}"
  note ht = list_rep_head_tail [OF rep(1) ls [rule_format, of k]]
  show ?thesis
  proof (cases "xss k")
    case Nil
    have "xss(k := []) = xss" "ls(k := ls k) = ls" using Nil by auto
    then show ?thesis using Nil ht assms by (simp add: removeFirst_def)
  next
    case (Cons x suf)
    obtain c d where x: "x = (c, d)" by (cases x)
    have xs: "xss k = [] @ (c, d) # suf" using Cons x by simp
    obtain h1 h2 hA' where r: "peek c 8 hC = Some (first_cell suf)" "peek c 0 hC = Some d"
      "[] = ([] :: klist) \<Longrightarrow> h1 = hC" "mem h1 c = d" "c \<noteq> 0" "kmfree c h1 = Some (0, h2)" "kmfree c hA = Some (0, hA')"
      "lists_sim h2 (ls(k := \<lparr>head = (if [] = ([] :: klist) then first_cell suf else head (ls k)),
        tail = (if suf = [] then last_of 0 [] else tail (ls k))\<rparr>)) hA' (xss(k := [] @ suf))"
      by (rule remove_between [OF rep ls dj xs]) auto
    have "first_cell suf = 0 \<longleftrightarrow> suf = []"
    proof (rule first_cell_0)
      show "\<forall>c\<in>fst ` set suf. c \<noteq> 0"
        using ls [rule_format, of k] is_cell_neq(1) [OF rep(1)] xs unfolding list_rep_def by fastforce
    qed
    then show ?thesis
      using r ht x Cons by (cases "suf = []") (simp_all add: removeFirst_def list_hdr_updates Let_def)
  qed
qed

lemma find_elem_chain:
  assumes "lchain (mem h) cur xs 0"
  shows "find_elem h ptr cur prev =
    Some (first_cell (dropWhile (\<lambda>(c, d). d \<noteq> ptr) xs), last_of prev (takeWhile (\<lambda>(c, d). d \<noteq> ptr) xs))"
  using assms
proof (induction xs arbitrary: cur prev)
  case Nil
  then show ?case by (simp add: find_elem.simps)
next
  case (Cons x xs)
  obtain c d where x: "x = (c, d)" by (cases x)
  with Cons.prems have c: "cur = c" "c \<noteq> 0" "mem h c = d" "lchain (mem h) (mem h (c + 8)) xs 0" by auto
  show ?case
    by (subst find_elem.simps) (simp add: c x Cons.IH [OF c(4)])
qed

lemma removeSpec_sim:
  assumes "lists_sim hC ls hA xss"
  shows "rel_option (\<lambda>(r, l', hC') (r', xs', hA'). r = r' \<and> lists_sim hC' (ls(k := l')) hA' (xss(k := xs')))
     (removeSpec ptr (ls k) hC) (k_removeSpec ptr (xss k) hA)"
proof (cases "ptr = 0")
  case True
  with assms show ?thesis by (simp add: removeSpec_def k_removeSpec_def)
next
  case False
  from assms show ?thesis
  proof (rule lists_simE)
    fix fs ts
    assume rep: "heap_rep hC fs ts" "heap_rep hA fs ts" "HEAP_START_ADDR hA = HEAP_START_ADDR hC"
      and ls: "\<forall>i. list_rep (HEAP_START_ADDR hC) (mem hC) ts (ls i) (xss i)"
      and dj: "\<forall>i j. i \<noteq> j \<longrightarrow> fst ` set (xss i) \<inter> fst ` set (xss j) = {}"
    note lr = ls [rule_format, of k]
    let ?pre = "takeWhile (\<lambda>(c, d). d \<noteq> ptr) (xss k)"
    have fe: "find_elem hC ptr (head (ls k)) 0 = Some (first_cell (dropWhile (\<lambda>(c, d). d \<noteq> ptr) (xss k)), last_of 0 ?pre)"
      using find_elem_chain [of hC "head (ls k)" "xss k"] lr by (simp add: list_rep_def)
    show ?thesis
    proof (cases "dropWhile (\<lambda>(c, d). d \<noteq> ptr) (xss k)")
      case Nil
      then show ?thesis using fe False assms
        by (simp add: removeSpec_def k_removeSpec_def del: dropWhile_eq_Nil_conv)
    next
      case (Cons x suf)
      obtain c d where x: "x = (c, d)" by (cases x)
      define pre where "pre = ?pre"
      have xs: "xss k = pre @ (c, d) # suf"
        using takeWhile_dropWhile_Cons(1) [OF Cons] x by (simp add: pre_def)
      obtain h1 h2 hA' where r: "peek c 8 hC = Some (first_cell suf)"
        "pre \<noteq> [] \<Longrightarrow> poke (last_of 0 pre) 8 (first_cell suf) hC = Some h1" "pre = [] \<Longrightarrow> h1 = hC" "c \<noteq> 0"
        "kmfree c h1 = Some (0, h2)" "kmfree c hA = Some (0, hA')"
        "lists_sim h2 (ls(k := \<lparr>head = (if pre = [] then first_cell suf else head (ls k)),
            tail = (if suf = [] then last_of 0 pre else tail (ls k))\<rparr>)) hA' (xss(k := pre @ suf))"
        by (rule remove_between [OF rep ls dj xs]) auto
      have nz: "distinct (cellptrs (pre @ (c, d) # suf))" "tail (ls k) = last_of 0 (pre @ (c, d) # suf)"
        using lr unfolding list_rep_def xs by auto
      have "\<forall>c\<in>fst ` set pre. is_cell (HEAP_START_ADDR hC) ts c" using lr unfolding list_rep_def xs by simp
      then have "\<forall>c\<in>fst ` set pre. c \<noteq> 0" using is_cell_neq(1) [OF rep(1)] by blast
      have n0: "last_of 0 pre = 0 \<longleftrightarrow> pre = []" by (rule last_of_0 [OF \<open>\<forall>c\<in>fst ` set pre. c \<noteq> 0\<close>])
      have tl: "c = tail (ls k) \<longleftrightarrow> suf = []"
        using nz by (cases suf rule: rev_cases) (auto simp: last_of_def)
      have A: "k_removeSpec ptr (xss k) hA = Some (True, pre @ suf, hA')"
        using Cons x r(6) False by (simp add: k_removeSpec_def pre_def)
      have "removeSpec ptr (ls k) hC = Some (True, \<lparr>head = (if pre = [] then first_cell suf else head (ls k)),
            tail = (if suf = [] then last_of 0 pre else tail (ls k))\<rparr>, h2)"
        using fe [folded pre_def] Cons x False r(1-5) n0 tl
        by (cases "pre = []"; cases "suf = []") (simp_all add: removeSpec_def list_hdr_updates Let_def)
      with A r(7) show ?thesis by simp
    qed
  qed
qed

end
