(* ===== verification/ListSort.thy ===== *)
theory ListSort
  imports ListRemove
begin

text \<open>
  Merge sort of \<open>h/_list.hpp\<close>: the cells of a list are relinked, none is allocated or freed. The
  pointer code implements the functional merge sort \<open>msort\<close> below on the sequence of cells.
\<close>

subsection \<open>The functional merge sort\<close>

fun kmerge :: "(u64 \<Rightarrow> u64 \<Rightarrow> bool) \<Rightarrow> klist \<Rightarrow> klist \<Rightarrow> klist" where
  "kmerge cmp [] ys = ys"
| "kmerge cmp (x # xs) [] = x # xs"
| "kmerge cmp (x # xs) (y # ys) =
     (if cmp (snd x) (snd y) then x # kmerge cmp xs (y # ys) else y # kmerge cmp (x # xs) ys)"

definition half :: "klist \<Rightarrow> nat" where
  "half xs = Suc ((length xs - 1) div 2)"

lemma half_less: "2 \<le> length xs \<Longrightarrow> half xs < length xs"
  unfolding half_def by arith

function msort :: "(u64 \<Rightarrow> u64 \<Rightarrow> bool) \<Rightarrow> klist \<Rightarrow> klist" where
  "msort cmp [] = []"
| "msort cmp [x] = [x]"
| "msort cmp (x # y # zs) = kmerge cmp (msort cmp (take (half (x # y # zs)) (x # y # zs)))
     (msort cmp (drop (half (x # y # zs)) (x # y # zs)))"
  by pat_completeness auto

termination
proof (relation "measure (length \<circ> snd)", goal_cases)
  case (2 cmp x y zs)
  show ?case using half_less [of "x # y # zs"] by simp
next
  case (3 cmp x y zs)
  show ?case by (simp add: half_def)
qed simp

declare msort.simps(3) [simp del]

lemma kmerge_Nil [simp]: "kmerge cmp xs [] = xs"
  by (cases xs) auto

lemma mset_kmerge [simp]: "mset (kmerge cmp xs ys) = mset xs + mset ys"
  by (induction cmp xs ys rule: kmerge.induct) auto

lemma set_kmerge [simp]: "set (kmerge cmp xs ys) = set xs \<union> set ys"
  by (metis mset_kmerge set_mset_mset set_mset_union)

lemma mset_msort [simp]: "mset (msort cmp xs) = mset xs"
proof (induction cmp xs rule: msort.induct)
  case (3 cmp x y zs)
  then show ?case by (simp add: msort.simps(3) mset_append [symmetric] del: mset_append mset.simps take_Cons' drop_Cons' take_Suc_Cons drop_Suc_Cons)
qed auto

lemma set_msort [simp]: "set (msort cmp xs) = set xs"
  by (rule mset_eq_setD) simp

lemma msort_Nil [simp]: "msort cmp xs = [] \<longleftrightarrow> xs = []"
  using mset_msort [of cmp xs] by (metis mset_zero_iff)

text \<open>The list is sorted for every transitive relation that the comparison decides; the comparison may be
  strict or not.\<close>

lemma kmerge_sorted:
  assumes "\<And>a b. cmp a b \<Longrightarrow> R a b" "\<And>a b. \<not> cmp a b \<Longrightarrow> R b a" "\<And>a b c. R a b \<Longrightarrow> R b c \<Longrightarrow> R a c"
  shows "sorted_wrt R (datas xs) \<Longrightarrow> sorted_wrt R (datas ys) \<Longrightarrow> sorted_wrt R (datas (kmerge cmp xs ys))"
  using assms(1,2) by (induction cmp xs ys rule: kmerge.induct) (fastforce intro: assms(3))+

lemma msort_sorted:
  assumes "\<And>a b. cmp a b \<Longrightarrow> R a b" "\<And>a b. \<not> cmp a b \<Longrightarrow> R b a" "\<And>a b c. R a b \<Longrightarrow> R b c \<Longrightarrow> R a c"
  shows "sorted_wrt R (datas (msort cmp xs))"
  using assms(1,2)
proof (induction cmp xs rule: msort.induct)
  case (3 cmp x y zs)
  have "sorted_wrt R (datas (msort cmp (take (half (x # y # zs)) (x # y # zs))))"
    "sorted_wrt R (datas (msort cmp (drop (half (x # y # zs)) (x # y # zs))))"
    using 3 by blast+
  then show ?case unfolding msort.simps(3) using kmerge_sorted [of cmp R] 3(3,4) assms(3) by blast
qed auto

subsection \<open>The pointer code\<close>

definition apart :: "u64 set \<Rightarrow> bool" where
  "apart C \<longleftrightarrow> (\<forall>c\<in>C. \<forall>d\<in>C. c \<noteq> d + 8)"

lemma apart_mono: "apart C \<Longrightarrow> D \<subseteq> C \<Longrightarrow> apart D"
  by (auto simp: apart_def)

definition frame :: "u64 set \<Rightarrow> (u64 \<Rightarrow> u64) \<Rightarrow> (u64 \<Rightarrow> u64) \<Rightarrow> bool" where
  "frame C m m' \<longleftrightarrow> (\<forall>a. a \<notin> (\<lambda>c. c + 8) ` C \<longrightarrow> m' a = m a)"

lemma frame_refl [simp]: "frame C m m"
  by (simp add: frame_def)

lemma frame_trans: "frame C m m' \<Longrightarrow> frame D m' m'' \<Longrightarrow> C \<union> D \<subseteq> E \<Longrightarrow> frame E m m''"
  by (fastforce simp: frame_def)

lemma frame_upd: "frame C m m' \<Longrightarrow> frame (insert c C) m (m'(c + 8 := v))"
  by (auto simp: frame_def)

lemma frame_data: "frame C m m' \<Longrightarrow> apart (insert c C) \<Longrightarrow> m' c = m c"
  by (auto simp: frame_def apart_def)

lemma lchain_frame:
  assumes "frame C m m'" "apart (C \<union> fst ` set xs)" "C \<inter> fst ` set xs = {}"
  shows "lchain m' p xs q = lchain m p xs q"
proof (rule lchain_cong)
  fix c assume c: "c \<in> fst ` set xs"
  have "c \<notin> (\<lambda>c. c + 8) ` C" using assms(2) c by (auto simp: apart_def)
  moreover have "c \<notin> C" using assms(3) c by blast
  then have "c + 8 \<notin> (\<lambda>c. c + 8) ` C" by auto
  ultimately show "m' c = m c \<and> m' (c + 8) = m (c + 8)" using assms(1) by (simp add: frame_def)
qed

lemma lchain_link:
  assumes "lchain m p xs 0" "apart (insert c (fst ` set xs))" "c \<notin> fst ` set xs" "c \<noteq> 0" "m c = d"
  shows "lchain (m(c + 8 := p)) c ((c, d) # xs) 0"
proof -
  have "frame {c} m (m(c + 8 := p))" by (auto simp: frame_def)
  with lchain_frame [OF this, of xs p 0] assms show ?thesis by simp
qed

lemma store_mem: "store a v (h\<lparr>mem := m\<rparr>) = h\<lparr>mem := m(a := v)\<rparr>"
  by (simp add: store_def)

lemma prepend_cell:
  assumes m: "lchain m (first_cell zs) zs 0" "frame C (mem h) m" "fst ` set zs = C"
    and c: "mem h c = d" "c \<noteq> 0" "c \<notin> C" "apart (insert c C)"
  shows "lchain (m(c + 8 := first_cell zs)) c ((c, d) # zs) 0" "frame (insert c C) (mem h) (m(c + 8 := first_cell zs))"
proof -
  have "m c = d" using frame_data [OF m(2) c(4)] c(1) by simp
  then show "lchain (m(c + 8 := first_cell zs)) c ((c, d) # zs) 0"
    using lchain_link [OF m(1) _ _ c(2)] c(3,4) m(3) by simp
  show "frame (insert c C) (mem h) (m(c + 8 := first_cell zs))" using frame_upd [OF m(2), of c] by simp
qed

lemma list_merge_chain:
  assumes "lchain (mem h) p xs 0" "lchain (mem h) q ys 0" "distinct (cellptrs (xs @ ys))"
    and "apart (fst ` set (xs @ ys))"
  shows "\<exists>m. list_merge cmp p q h = Some (first_cell (kmerge cmp xs ys), h\<lparr>mem := m\<rparr>) \<and>
     lchain m (first_cell (kmerge cmp xs ys)) (kmerge cmp xs ys) 0 \<and> frame (fst ` set (xs @ ys)) (mem h) m"
  using assms
proof (induction cmp xs ys arbitrary: p q rule: kmerge.induct)
  case (1 cmp ys)
  then have "p = 0" "q = first_cell ys" using lchain_first by auto
  with 1 show ?case by (intro exI [of _ "mem h"]) (simp add: list_merge.simps)
next
  case (2 cmp x xs)
  then have "q = 0" "p = first_cell (x # xs)" using lchain_first [of "mem h" p] by auto
  moreover have "p \<noteq> 0" using 2 by (cases x) auto
  ultimately show ?case using 2 by (intro exI [of _ "mem h"]) (simp add: list_merge.simps)
next
  case (3 cmp x xs y ys)
  obtain c d where x: "x = (c, d)" by (cases x)
  obtain e f where y: "y = (e, f)" by (cases y)
  have p: "p = c" "c \<noteq> 0" "mem h c = d" "lchain (mem h) (mem h (c + 8)) xs 0"
    and q: "q = e" "e \<noteq> 0" "mem h e = f" "lchain (mem h) (mem h (e + 8)) ys 0" using 3(3,4) x y by auto
  show ?case
  proof (cases "cmp d f")
    case True
    let ?zs = "kmerge cmp xs (y # ys)"
    have "\<exists>m. list_merge cmp (mem h (c + 8)) q h = Some (first_cell ?zs, h\<lparr>mem := m\<rparr>) \<and>
        lchain m (first_cell ?zs) ?zs 0 \<and> frame (fst ` set (xs @ y # ys)) (mem h) m"
      by (rule 3(1) [OF _ p(4) 3(4)]) (use True x y 3(5,6) apart_mono [OF 3(6)] in auto)
    then obtain m where m: "list_merge cmp (mem h (c + 8)) q h = Some (first_cell ?zs, h\<lparr>mem := m\<rparr>)"
      "lchain m (first_cell ?zs) ?zs 0" "frame (fst ` set (xs @ y # ys)) (mem h) m"
      by (elim exE conjE) (rule that)
    have "lchain (m(c + 8 := first_cell ?zs)) c ((c, d) # ?zs) 0"
      "frame (insert c (fst ` set (xs @ y # ys))) (mem h) (m(c + 8 := first_cell ?zs))"
      by (rule prepend_cell [OF m(2,3) _ p(3,2)]; use 3(5,6) x in \<open>simp add: set_kmerge image_Un\<close>)+
    then show ?thesis
      using True x y p q m(1)
      by (intro exI [of _ "m(c + 8 := first_cell ?zs)"])
        (simp add: list_merge.simps [of cmp c] poke_def store_mem del: fun_upd_apply)
  next
    case False
    let ?zs = "kmerge cmp (x # xs) ys"
    have "\<exists>m. list_merge cmp p (mem h (e + 8)) h = Some (first_cell ?zs, h\<lparr>mem := m\<rparr>) \<and>
        lchain m (first_cell ?zs) ?zs 0 \<and> frame (fst ` set ((x # xs) @ ys)) (mem h) m"
      by (rule 3(2) [OF _ 3(3) q(4)]) (use False x y 3(5,6) apart_mono [OF 3(6)] in auto)
    then obtain m where m: "list_merge cmp p (mem h (e + 8)) h = Some (first_cell ?zs, h\<lparr>mem := m\<rparr>)"
      "lchain m (first_cell ?zs) ?zs 0" "frame (fst ` set ((x # xs) @ ys)) (mem h) m"
      by (elim exE conjE) (rule that)
    have "lchain (m(e + 8 := first_cell ?zs)) e ((e, f) # ?zs) 0"
      "frame (insert e (fst ` set ((x # xs) @ ys))) (mem h) (m(e + 8 := first_cell ?zs))"
      by (rule prepend_cell [OF m(2,3) _ q(3,2)]; use 3(5,6) y in \<open>auto simp: set_kmerge image_Un insert_commute\<close>)+
    then show ?thesis
      using False x y p q m(1)
      by (intro exI [of _ "m(e + 8 := first_cell ?zs)"])
        (simp add: list_merge.simps [of cmp c] poke_def store_mem insert_commute del: fun_upd_apply)
  qed
qed

lemma getMiddle_loop_chain:
  assumes "lchain (mem h) slow ys 0" "lchain (mem h) fast zs 0" "length zs \<le> length ys"
  shows "getMiddle_loop h slow fast = Some (first_cell (drop (length zs div 2) ys))"
  using assms
proof (induction zs arbitrary: slow fast ys rule: induct_list012)
  case 1
  then show ?case using lchain_first [of "mem h" slow ys] by (simp add: getMiddle_loop.simps)
next
  case (2 z)
  obtain c d where z: "z = (c, d)" by (cases z)
  with 2(2) have f: "fast = c" "c \<noteq> 0" "mem h (c + 8) = 0" by auto
  have "slow = first_cell ys" using lchain_first [OF 2(1)] .
  moreover have "getMiddle_loop h slow 0 = Some slow" by (simp add: getMiddle_loop.simps)
  ultimately show ?case using f by (subst getMiddle_loop.simps) (simp add: peek_def)
next
  case (3 x y zs)
  obtain c d where x: "x = (c, d)" by (cases x)
  obtain e f where y: "y = (e, f)" by (cases y)
  obtain a b us where ys: "ys = (a, b) # us" using 3(5) by (cases ys) auto
  have f: "fast = c" "c \<noteq> 0" "mem h (c + 8) = e" "e \<noteq> 0" "lchain (mem h) (mem h (e + 8)) zs 0"
    "slow = a" "a \<noteq> 0" "lchain (mem h) (mem h (a + 8)) us 0"
    using 3(3,4) x y ys by auto
  have "getMiddle_loop h (mem h (a + 8)) (mem h (e + 8)) = Some (first_cell (drop (length zs div 2) us))"
    by (rule 3(1) [OF f(8,5)]) (use 3(5) ys in simp)
  then show ?case using f ys by (subst getMiddle_loop.simps) (simp add: peek_def)
qed

lemma getMiddle_chain:
  assumes "lchain (mem h) p xs 0" "xs \<noteq> []"
  shows "getMiddle p h = Some (first_cell (drop ((length xs - 1) div 2) xs))"
proof -
  obtain c d ys where xs: "xs = (c, d) # ys" using assms(2) by (cases xs) auto
  with assms(1) have p: "p = c" "c \<noteq> 0" "lchain (mem h) (mem h (c + 8)) ys 0" by auto
  have "getMiddle_loop h p (mem h (c + 8)) = Some (first_cell (drop (length ys div 2) xs))"
    by (rule getMiddle_loop_chain [OF assms(1) p(3)]) (simp add: xs)
  with p xs show ?thesis by (simp add: getMiddle_def peek_def)
qed

lemma find_tail_chain:
  "lchain (mem h) p xs 0 \<Longrightarrow> xs \<noteq> [] \<Longrightarrow> find_tail h p = Some (last_of 0 xs)"
proof (induction xs arbitrary: p)
  case (Cons x xs)
  obtain c d where x: "x = (c, d)" by (cases x)
  with Cons.prems have p: "p = c" "c \<noteq> 0" "lchain (mem h) (mem h (c + 8)) xs 0" by auto
  show ?case
  proof (cases xs)
    case Nil
    then show ?thesis using p x by (simp add: find_tail.simps peek_def)
  next
    case (Cons y ys)
    then have "mem h (c + 8) \<noteq> 0" using p(3) by (cases y) auto
    with Cons.IH [OF p(3)] Cons p x show ?thesis
      by (simp add: find_tail.simps [of h c] peek_def last_of_def)
  qed
qed simp

lemma lchain_cut:
  assumes "lchain m p (pre @ [(c, d)]) r" "distinct (cellptrs (pre @ [(c, d)]))"
    and "apart (fst ` set (pre @ [(c, d)]))"
  shows "lchain (m(c + 8 := q)) p (pre @ [(c, d)]) q"
proof -
  have fr: "frame {c} m (m(c + 8 := q))" by (auto simp: frame_def)
  have "lchain (m(c + 8 := q)) p pre c"
    using lchain_frame [OF fr, of pre p c] assms by auto
  moreover have "(m(c + 8 := q)) c = d" using frame_data [OF fr] assms(1,3) apart_mono [OF assms(3), of "{c}"] by simp
  ultimately show ?thesis using assms(1) by auto
qed

text \<open>The list is cut behind its middle.\<close>

lemma cut_middle:
  assumes ch: "lchain (mem h) p xs 0" and di: "distinct (cellptrs xs)" and ap: "apart (fst ` set xs)" and xs: "xs = x # y # zs"
  obtains c r where "getMiddle p h = Some c" "c \<noteq> 0" "mem h (c + 8) = r" "c \<in> fst ` set (take (half xs) xs)"
    "lchain (mem (store (c + 8) 0 h)) p (take (half xs) xs) 0" "lchain (mem (store (c + 8) 0 h)) r (drop (half xs) xs) 0"
    "frame {c} (mem h) (mem (store (c + 8) 0 h))" "p \<noteq> 0" "mem h (p + 8) \<noteq> 0"
proof -
  define k where "k = half xs"
  define A B where "A = take k xs" and "B = drop k xs"
  have AB: "xs = A @ B" by (simp add: A_def B_def)
  have len: "k = Suc ((length xs - 1) div 2)" "k < length xs" "2 \<le> length xs"
    using half_less [of xs] by (simp_all add: k_def half_def xs)
  have An: "A = take (k - 1) xs @ [xs ! (k - 1)]"
    using len take_Suc_conv_app_nth [of "k - 1" xs] by (simp add: A_def)
  obtain c d where cd: "xs ! (k - 1) = (c, d)" by (cases "xs ! (k - 1)")
  define pre where "pre = take (k - 1) xs"
  have A: "A = pre @ [(c, d)]" using An cd by (simp add: pre_def)
  have apA: "apart (fst ` set A)" and apAB: "apart (fst ` set A \<union> fst ` set B)"
    using ap apart_mono [OF ap] unfolding AB by (simp_all add: image_Un)
  have diA: "distinct (cellptrs A)" and dj: "fst ` set A \<inter> fst ` set B = {}" using di unfolding AB by auto
  obtain r where r: "lchain (mem h) p A r" "lchain (mem h) r B 0" using ch unfolding AB by auto
  have c: "c \<noteq> 0" "mem h (c + 8) = r" "c \<in> fst ` set A" using r(1) A by auto
  have "drop ((length xs - 1) div 2) xs = (c, d) # drop k xs"
    using len cd Cons_nth_drop_Suc [of "k - 1" xs] by simp
  then have mid: "getMiddle p h = Some c" using getMiddle_chain [OF ch] by (simp add: xs)
  have p: "p \<noteq> 0" "mem h (p + 8) \<noteq> 0" using ch unfolding xs by (cases x; cases y; auto)+
  let ?h = "store (c + 8) 0 h"
  have fr: "frame {c} (mem h) (mem ?h)" by (auto simp: frame_def store_def)
  have "lchain (mem ?h) p A 0"
    using lchain_cut [of "mem h" p pre c d r 0] r(1) diA apA unfolding A store_def by simp
  moreover have "lchain (mem ?h) r B 0"
    using lchain_frame [OF fr, of B r 0] r(2) c(3) apart_mono [OF apAB, of "{c} \<union> fst ` set B"] dj by blast
  ultimately show ?thesis using that mid c fr p unfolding A_def B_def k_def by blast
qed

lemma mergeSort_chain:
  assumes "lchain (mem h) p xs 0" "distinct (cellptrs xs)" "apart (fst ` set xs)"
  shows "\<exists>m. mergeSort cmp p h = Some (first_cell (msort cmp xs), h\<lparr>mem := m\<rparr>) \<and>
     lchain m (first_cell (msort cmp xs)) (msort cmp xs) 0 \<and> frame (fst ` set xs) (mem h) m"
  using assms
proof (induction cmp xs arbitrary: p h rule: msort.induct)
  case (1 cmp)
  then show ?case by (intro exI [of _ "mem h"]) (simp add: mergeSort.simps)
next
  case (2 cmp x)
  then show ?case by (intro exI [of _ "mem h"]) (cases x; simp add: mergeSort.simps)
next
  case (3 cmp x y zs)
  define xs where "xs = x # y # zs"
  define A B where "A = take (half xs) xs" and "B = drop (half xs) xs"
  have AB: "xs = A @ B" by (simp add: A_def B_def)
  note ch = 3(3) [folded xs_def] and di = 3(4) [folded xs_def] and ap = 3(5) [folded xs_def]
  have apA: "apart (fst ` set A)" and apB: "apart (fst ` set B)" and apAB: "apart (fst ` set A \<union> fst ` set B)"
    using ap apart_mono [OF ap] unfolding AB by (simp_all add: image_Un)
  have diA: "distinct (cellptrs A)" and diB: "distinct (cellptrs B)" and dj: "fst ` set A \<inter> fst ` set B = {}"
    using di unfolding AB by auto
  obtain c r where mid: "getMiddle p h = Some c" and c: "c \<noteq> 0" "mem h (c + 8) = r" "c \<in> fst ` set A"
    and A1': "lchain (mem (store (c + 8) 0 h)) p A 0" and B1': "lchain (mem (store (c + 8) 0 h)) r B 0"
    and fr1': "frame {c} (mem h) (mem (store (c + 8) 0 h))" and p: "p \<noteq> 0" "mem h (p + 8) \<noteq> 0"
    unfolding A_def B_def by (rule cut_middle [OF ch di ap xs_def])
  define h1 where "h1 = store (c + 8) 0 h"
  note A1 = A1' [folded h1_def] and B1 = B1' [folded h1_def] and fr1 = fr1' [folded h1_def]
  let ?L = "msort cmp A" and ?R = "msort cmp B"
  obtain m1 where m1: "mergeSort cmp p h1 = Some (first_cell ?L, h1\<lparr>mem := m1\<rparr>)"
    "lchain m1 (first_cell ?L) ?L 0" "frame (fst ` set A) (mem h1) m1"
    using 3(1) [folded xs_def, folded A_def, OF A1 diA apA] by (elim exE conjE) (rule that)
  have B2: "lchain (mem (h1\<lparr>mem := m1\<rparr>)) r B 0"
    using lchain_frame [OF m1(3), of B r 0] B1 apAB dj by simp
  obtain m2 where m2: "mergeSort cmp r (h1\<lparr>mem := m1\<rparr>) = Some (first_cell ?R, h1\<lparr>mem := m2\<rparr>)"
    "lchain m2 (first_cell ?R) ?R 0" "frame (fst ` set B) m1 m2"
    using 3(2) [folded xs_def, folded B_def, OF B2 diB apB] by auto
  have L2: "lchain m2 (first_cell ?L) ?L 0"
    using lchain_frame [OF m2(3), of ?L "first_cell ?L" 0] m1(2) apAB dj by (simp add: Un_commute Int_commute)
  have "distinct (cellptrs (?L @ ?R))"
  proof -
    have "mset (cellptrs (?L @ ?R)) = mset (cellptrs xs)" 
      unfolding AB map_append mset_append mset_map mset_msort ..
    then show ?thesis using di mset_eq_imp_distinct_iff by blast
  qed
  moreover have st: "fst ` set (?L @ ?R) = fst ` set xs" unfolding AB by (simp add: image_Un)
  ultimately obtain m3 where m3: "list_merge cmp (first_cell ?L) (first_cell ?R) (h1\<lparr>mem := m2\<rparr>) =
      Some (first_cell (kmerge cmp ?L ?R), h1\<lparr>mem := m3\<rparr>)"
    "lchain m3 (first_cell (kmerge cmp ?L ?R)) (kmerge cmp ?L ?R) 0" "frame (fst ` set xs) m2 m3"
    using list_merge_chain [of "h1\<lparr>mem := m2\<rparr>" "first_cell ?L" ?L "first_cell ?R" ?R cmp] L2 m2(2) ap by auto
  have "msort cmp xs = kmerge cmp ?L ?R" unfolding A_def B_def xs_def by (rule msort.simps(3))
  moreover have "mergeSort cmp p h = Some (first_cell (kmerge cmp ?L ?R), h\<lparr>mem := m3\<rparr>)"
    using p mid c m1(1) m2(1) m3(1)
    by (subst mergeSort.simps) (simp add: peek_def poke_def h1_def [symmetric], simp add: h1_def store_def)
  moreover have "frame (fst ` set xs) (mem h) m3"
  proof -
    have "frame (fst ` set xs) (mem h) m1" using frame_trans [OF fr1 m1(3)] c(3) unfolding AB by (simp add: image_Un)
    then have "frame (fst ` set xs) (mem h) m2" using frame_trans [OF _ m2(3)] unfolding AB by (simp add: image_Un)
    then show ?thesis using frame_trans [OF _ m3(3)] by blast
  qed
  ultimately show ?case using m3(2) unfolding xs_def by metis
qed

subsection \<open>Sorting one of the lists of the kernel\<close>

definition k_sort :: "(u64 \<Rightarrow> u64 \<Rightarrow> bool) \<Rightarrow> klist \<Rightarrow> heap \<Rightarrow> (klist \<times> heap) option" where
  "k_sort cmp xs h = Some (msort cmp xs, h)"

lemma frame_unchanged:
  assumes rep: "heap_rep h fs ts" and C: "\<forall>c\<in>C. is_cell (HEAP_START_ADDR h) ts c" and fr: "frame C (mem h) m"
  shows "unchanged (HEAP_START_ADDR h) ts C (mem h) m"
  unfolding unchanged_def
proof (intro allI impI)
  fix c assume c: "is_cell (HEAP_START_ADDR h) ts c \<and> c \<notin> C"
  then have "c \<notin> (\<lambda>c. c + 8) ` C" using is_cell_neq(2) [OF rep, of c] C by blast
  moreover have "c + 8 \<notin> (\<lambda>c. c + 8) ` C" using c by auto
  ultimately show "m c = mem h c \<and> m (c + 8) = mem h (c + 8)" using fr by (simp add: frame_def)
qed

lemma frame_heap_rep:
  assumes rep: "heap_rep h fs ts" and C: "\<forall>c\<in>C. is_cell (HEAP_START_ADDR h) ts c" and fr: "frame C (mem h) m"
  shows "heap_rep (h\<lparr>mem := m\<rparr>) fs ts"
proof -
  let ?b = "HEAP_START_ADDR h"
  have "chain m ?b p xs q = chain (mem h) ?b p xs q" if "fst ` set xs \<subseteq> {..<unat (totalBlocks h)}" for p xs q
  proof (rule chain_cong)
    fix j n assume "(j, n) \<in> set xs"
    with that have j: "j < unat (totalBlocks h)" by force
    have "adr ?b j 0 \<noteq> c + 8 \<and> adr ?b j 8 \<noteq> c + 8" if c: "c \<in> C" for c
    proof -
      obtain i where i: "i < unat (totalBlocks h)" "c + 8 = adr ?b i 24" using is_cellD [OF rep] C c by metis
      then show ?thesis using cell_facts(7,8) [OF heap_repD(2) [OF rep] i(1) j] by metis
    qed
    then show "m (adr ?b j 0) = mem h (adr ?b j 0) \<and> m (adr ?b j 8) = mem h (adr ?b j 8)"
      using fr unfolding frame_def by blast
  qed
  with rep rep_starts(1,2) [OF rep] show ?thesis by (simp add: heap_rep_def)
qed

lemma list_sort_sim:
  assumes "lists_sim hC ls hA xss"
  shows "rel_option (\<lambda>(l', hC') (xs', hA'). lists_sim hC' (ls(k := l')) hA' (xss(k := xs')))
     (list_sort cmp (ls k) hC) (k_sort cmp (xss k) hA)"
  using assms
proof (rule lists_simE)
  fix fs ts
  assume rep: "heap_rep hC fs ts" "heap_rep hA fs ts" "HEAP_START_ADDR hA = HEAP_START_ADDR hC"
    and ls: "\<forall>i. list_rep (HEAP_START_ADDR hC) (mem hC) ts (ls i) (xss i)"
    and dj: "\<forall>i j. i \<noteq> j \<longrightarrow> fst ` set (xss i) \<inter> fst ` set (xss j) = {}"
  let ?b = "HEAP_START_ADDR hC" and ?xs = "xss k"
  note lr = ls [rule_format, of k, unfolded list_rep_def]
  show ?thesis
  proof (cases "head (ls k) = 0 \<or> mem hC (head (ls k) + 8) = 0")
    case True
    have "msort cmp ?xs = ?xs" using lr True by (cases "(cmp, ?xs)" rule: msort.cases) auto
    then show ?thesis using assms True by (simp add: list_sort_def k_sort_def)
  next
    case False
    have cl: "\<forall>c\<in>fst ` set ?xs. is_cell ?b ts c" using lr by simp
    have "apart (fst ` set ?xs)" unfolding apart_def using is_cell_neq(2) [OF rep(1)] cl by blast
    then obtain m where m: "mergeSort cmp (head (ls k)) hC = Some (first_cell (msort cmp ?xs), hC\<lparr>mem := m\<rparr>)"
      "lchain m (first_cell (msort cmp ?xs)) (msort cmp ?xs) 0" "frame (fst ` set ?xs) (mem hC) m"
      using mergeSort_chain [of hC "head (ls k)" ?xs cmp] lr by blast
    have ne: "msort cmp ?xs \<noteq> []" using False lr by auto
    have ft: "find_tail (hC\<lparr>mem := m\<rparr>) (first_cell (msort cmp ?xs)) = Some (last_of 0 (msort cmp ?xs))"
      using find_tail_chain [of "hC\<lparr>mem := m\<rparr>"] m(2) ne by simp
    have st: "fst ` set (msort cmp ?xs) = fst ` set ?xs" by simp
    have "distinct (cellptrs (msort cmp ?xs))"
    proof -
      have "mset (cellptrs (msort cmp ?xs)) = mset (cellptrs ?xs)" unfolding mset_map mset_msort ..
      then show ?thesis using lr mset_eq_imp_distinct_iff by blast
    qed
    then have new: "list_rep ?b (mem (hC\<lparr>mem := m\<rparr>)) ts
        \<lparr>head = first_cell (msort cmp ?xs), tail = last_of 0 (msort cmp ?xs)\<rparr> (msort cmp ?xs)"
      using m(2) cl st by (simp add: list_rep_def)
    have "lists_sim (hC\<lparr>mem := m\<rparr>) (ls(k := \<lparr>head = first_cell (msort cmp ?xs), tail = last_of 0 (msort cmp ?xs)\<rparr>))
        hA (xss(k := msort cmp ?xs))"
    proof (rule lists_sim_step [OF rep(1) ls dj frame_heap_rep [OF rep(1) cl m(3)] rep(2) _ rep(3) _ _ _ new])
      show "unchanged ?b ts (fst ` set ?xs) (mem hC) (mem (hC\<lparr>mem := m\<rparr>))"
        using frame_unchanged [OF rep(1) cl m(3)] by simp
    qed (use st in auto)
    then show ?thesis using False m(1) ft by (simp add: list_sort_def k_sort_def list_hdr_updates)
  qed
qed

end
