(* ===== verification/ListProps.thy ===== *)
theory ListProps
  imports ListSort AllocatorProps
begin

text \<open>
  The properties of the class template \<open>_list\<close>: any program that calls the member functions of any number
  of lists behaves as on sequences, and \<open>sort\<close> sorts.
\<close>

subsection \<open>The last element\<close>

lemma find_last_chain:
  assumes "lchain (mem h) cur (pre @ [(c, d)]) 0" "c \<notin> fst ` set pre"
  shows "find_last h c cur prev = Some (last_of prev pre)"
  using assms
proof (induction pre arbitrary: cur prev)
  case Nil
  then show ?case by (simp add: find_last.simps)
next
  case (Cons x pre)
  obtain e y where x: "x = (e, y)" by (cases x)
  have e: "cur = e" "e \<noteq> 0" "e \<noteq> c" using Cons.prems x by auto
  have IH: "find_last h c (mem h (e + 8)) e = Some (last_of e pre)"
    by (rule Cons.IH) (use Cons.prems x in auto)
  show ?case by (subst find_last.simps) (simp add: e x IH peek_def)
qed

lemma removeLast_sim:
  assumes "lists_sim hC ls hA xss"
  shows "rel_option (\<lambda>(r, l', hC') (r', xs', hA'). r = r' \<and> lists_sim hC' (ls(k := l')) hA' (xss(k := xs')))
     (removeLast (ls k) hC) (k_removeLast (xss k) hA)"
  using assms
proof (rule lists_simE)
  fix fs ts
  assume rep: "heap_rep hC fs ts" "heap_rep hA fs ts" "HEAP_START_ADDR hA = HEAP_START_ADDR hC"
    and ls: "\<forall>i. list_rep (HEAP_START_ADDR hC) (mem hC) ts (ls i) (xss i)"
    and dj: "\<forall>i j. i \<noteq> j \<longrightarrow> fst ` set (xss i) \<inter> fst ` set (xss j) = {}"
  note ht = list_rep_head_tail [OF rep(1) ls [rule_format, of k]]
  note lr = ls [rule_format, of k]
  show ?thesis
  proof (cases "xss k" rule: rev_cases)
    case Nil
    have "xss(k := []) = xss" "ls(k := ls k) = ls" using Nil by auto
    then show ?thesis using Nil ht assms by (simp add: removeLast_def k_removeLast_def)
  next
    case (snoc pre x)
    obtain c d where x: "x = (c, d)" by (cases x)
    have xs: "xss k = pre @ (c, d) # []" using snoc x by simp
    obtain h1 h2 hA' where r: "peek c 0 hC = Some d"
      "pre \<noteq> [] \<Longrightarrow> poke (last_of 0 pre) 8 (first_cell []) hC = Some h1" "pre = [] \<Longrightarrow> h1 = hC"
      "mem h1 c = d" "c \<noteq> 0" "kmfree c h1 = Some (0, h2)" "kmfree c hA = Some (0, hA')"
      "lists_sim h2 (ls(k := \<lparr>head = (if pre = [] then first_cell [] else head (ls k)),
        tail = (if [] = ([] :: klist) then last_of 0 pre else tail (ls k))\<rparr>)) hA' (xss(k := pre @ []))"
      by (rule remove_between [OF rep ls dj xs]) auto
    have l: "lchain (mem hC) (head (ls k)) (pre @ [(c, d)]) 0" "tail (ls k) = c" "c \<notin> fst ` set pre"
      using lr unfolding list_rep_def xs by auto
    have fl: "find_last hC c (head (ls k)) 0 = Some (last_of 0 pre)"
      by (rule find_last_chain [OF l(1,3)])
    have "\<forall>c\<in>fst ` set pre. is_cell (HEAP_START_ADDR hC) ts c" using lr unfolding list_rep_def xs by simp
    then have "\<forall>c\<in>fst ` set pre. c \<noteq> 0" using is_cell_neq(1) [OF rep(1)] by blast
    then have n0: "last_of 0 pre = 0 \<longleftrightarrow> pre = []" by (rule last_of_0)
    have h0: "head (ls k) \<noteq> 0" using ht xs by simp
    have A: "k_removeLast (xss k) hA = Some (d, pre, hA')" using xs r(7) by (simp add: k_removeLast_def)
    have "removeLast (ls k) hC = Some (d, \<lparr>head = (if pre = [] then 0 else head (ls k)), tail = last_of 0 pre\<rparr>, h2)"
      using r(1-6) fl l(2) h0 n0
      by (cases "pre = []") (simp_all add: removeLast_def list_hdr_updates Let_def peek_def)
    with A r(8) show ?thesis by (cases "pre = []") simp_all
  qed
qed

subsection \<open>Programs over lists\<close>

text \<open>A call of a member function of the list \<open>k\<close>, with the value it returns as a word.\<close>

datatype list_call =
  AddFirst u64 | AddLast u64 | InsertSorted u64 | RemoveFirst | RemoveLast | RemoveSpec u64 | PeekFirst | PeekLast | Sort

fun call_ptr :: "(u64 \<Rightarrow> u64 \<Rightarrow> bool) \<Rightarrow> list_call \<Rightarrow> list_hdr \<Rightarrow> heap \<Rightarrow> (u64 \<times> list_hdr \<times> heap) option" where
  "call_ptr cmp (AddFirst d) l h = do { (l, h) \<leftarrow> addFirst d l h; Some (0, l, h) }"
| "call_ptr cmp (AddLast d) l h = do { (l, h) \<leftarrow> addLast d l h; Some (0, l, h) }"
| "call_ptr cmp (InsertSorted d) l h = do { (l, h) \<leftarrow> insert_sorted d cmp l h; Some (0, l, h) }"
| "call_ptr cmp RemoveFirst l h = removeFirst l h"
| "call_ptr cmp RemoveLast l h = removeLast l h"
| "call_ptr cmp (RemoveSpec d) l h = do { (b, l, h) \<leftarrow> removeSpec d l h; Some (of_bool b, l, h) }"
| "call_ptr cmp PeekFirst l h = do { r \<leftarrow> peekFirst l h; Some (r, l, h) }"
| "call_ptr cmp PeekLast l h = do { r \<leftarrow> peekLast l h; Some (r, l, h) }"
| "call_ptr cmp Sort l h = do { (l, h) \<leftarrow> list_sort cmp l h; Some (0, l, h) }"

fun call_seq :: "(u64 \<Rightarrow> u64 \<Rightarrow> bool) \<Rightarrow> list_call \<Rightarrow> klist \<Rightarrow> heap \<Rightarrow> (u64 \<times> klist \<times> heap) option" where
  "call_seq cmp (AddFirst d) xs h = do { (xs, h) \<leftarrow> k_addFirst d xs h; Some (0, xs, h) }"
| "call_seq cmp (AddLast d) xs h = do { (xs, h) \<leftarrow> k_addLast d xs h; Some (0, xs, h) }"
| "call_seq cmp (InsertSorted d) xs h = do { (xs, h) \<leftarrow> k_insert_sorted d cmp xs h; Some (0, xs, h) }"
| "call_seq cmp RemoveFirst xs h = k_removeFirst xs h"
| "call_seq cmp RemoveLast xs h = k_removeLast xs h"
| "call_seq cmp (RemoveSpec d) xs h = do { (b, xs, h) \<leftarrow> k_removeSpec d xs h; Some (of_bool b, xs, h) }"
| "call_seq cmp PeekFirst xs h = Some (k_peekFirst xs, xs, h)"
| "call_seq cmp PeekLast xs h = Some (k_peekLast xs, xs, h)"
| "call_seq cmp Sort xs h = do { (xs, h) \<leftarrow> k_sort cmp xs h; Some (0, xs, h) }"

fun run_ptr :: "(u64 \<Rightarrow> u64 \<Rightarrow> bool) \<Rightarrow> ('i \<times> list_call) list \<Rightarrow> ('i \<Rightarrow> list_hdr) \<Rightarrow> heap \<Rightarrow> (u64 list \<times> heap) option" where
  "run_ptr cmp [] ls h = Some ([], h)"
| "run_ptr cmp ((k, c) # cs) ls h = do {
     (r, l, h) \<leftarrow> call_ptr cmp c (ls k) h;
     (rs, h) \<leftarrow> run_ptr cmp cs (ls(k := l)) h;
     Some (r # rs, h)
   }"

fun run_seq :: "(u64 \<Rightarrow> u64 \<Rightarrow> bool) \<Rightarrow> ('i \<times> list_call) list \<Rightarrow> ('i \<Rightarrow> klist) \<Rightarrow> heap \<Rightarrow> (u64 list \<times> heap) option" where
  "run_seq cmp [] xss h = Some ([], h)"
| "run_seq cmp ((k, c) # cs) xss h = do {
     (r, xs, h) \<leftarrow> call_seq cmp c (xss k) h;
     (rs, h) \<leftarrow> run_seq cmp cs (xss(k := xs)) h;
     Some (r # rs, h)
   }"

lemma rel_option_bind2:
  "rel_option R a b \<Longrightarrow> (\<And>x y. R x y \<Longrightarrow> rel_option S (f x) (g y)) \<Longrightarrow> rel_option S (a \<bind> f) (b \<bind> g)"
  by (cases a; cases b) auto

lemma peek_sim:
  assumes "lists_sim hC ls hA xss"
  shows "peekFirst (ls k) hC = Some (k_peekFirst (xss k))" "peekLast (ls k) hC = Some (k_peekLast (xss k))"
proof -
  obtain fs ts where rep: "heap_rep hC fs ts"
    and ls: "\<forall>i. list_rep (HEAP_START_ADDR hC) (mem hC) ts (ls i) (xss i)"
    using assms by (rule lists_simE)
  note ht = list_rep_head_tail [OF rep ls [rule_format, of k]]
  note lr = ls [rule_format, of k, unfolded list_rep_def]
  show "peekFirst (ls k) hC = Some (k_peekFirst (xss k))"
    using lr by (cases "xss k") (auto simp: peekFirst_def peek_def)
  show "peekLast (ls k) hC = Some (k_peekLast (xss k))"
    using lr by (cases "xss k" rule: rev_cases) (auto simp: peekLast_def peek_def k_peekLast_def)
qed

lemma call_sim:
  assumes "lists_sim hC ls hA xss"
  shows "rel_option (\<lambda>(r, l', hC') (r', xs', hA'). r = r' \<and> lists_sim hC' (ls(k := l')) hA' (xss(k := xs')))
     (call_ptr cmp c (ls k) hC) (call_seq cmp c (xss k) hA)"
proof (cases c)
  case (AddFirst d)
  show ?thesis unfolding AddFirst call_ptr.simps call_seq.simps
    by (rule rel_option_bind2 [OF addFirst_sim [OF assms]]) auto
next
  case (AddLast d)
  show ?thesis unfolding AddLast call_ptr.simps call_seq.simps
    by (rule rel_option_bind2 [OF addLast_sim [OF assms]]) auto
next
  case (InsertSorted d)
  show ?thesis unfolding InsertSorted call_ptr.simps call_seq.simps
    by (rule rel_option_bind2 [OF insert_sorted_sim [OF assms]]) auto
next
  case (RemoveSpec d)
  show ?thesis unfolding RemoveSpec call_ptr.simps call_seq.simps
    by (rule rel_option_bind2 [OF removeSpec_sim [OF assms]]) auto
next
  case Sort
  show ?thesis unfolding Sort call_ptr.simps call_seq.simps
    by (rule rel_option_bind2 [OF list_sort_sim [OF assms]]) auto
next
  case RemoveFirst
  show ?thesis unfolding RemoveFirst call_ptr.simps call_seq.simps by (rule removeFirst_sim [OF assms])
next
  case RemoveLast
  show ?thesis unfolding RemoveLast call_ptr.simps call_seq.simps by (rule removeLast_sim [OF assms])
next
  case PeekFirst
  then show ?thesis using peek_sim [OF assms, of k] assms by simp
next
  case PeekLast
  then show ?thesis using peek_sim [OF assms, of k] assms by simp
qed

lemma run_sim:
  assumes "lists_sim hC ls hA xss"
  shows "rel_option (\<lambda>(rs, hC') (rs', hA'). rs = rs') (run_ptr cmp cs ls hC) (run_seq cmp cs xss hA)"
  using assms
proof (induction cs arbitrary: ls xss hC hA)
  case (Cons kc cs)
  obtain k c where kc: "kc = (k, c)" by (cases kc)
  show ?case unfolding kc run_ptr.simps run_seq.simps
  proof (rule rel_option_bind2 [OF call_sim [OF Cons.prems]], clarsimp)
    fix r l' hC' xs' hA'
    assume "lists_sim hC' (ls(k := l')) hA' (xss(k := xs'))"
    from Cons.IH [OF this]
    show "rel_option (\<lambda>(rs, hC') (rs', hA'). rs = rs')
       (run_ptr cmp cs (ls(k := l')) hC' \<bind> (\<lambda>(rs, h). Some (r # rs, h)))
       (run_seq cmp cs (xss(k := xs')) hA' \<bind> (\<lambda>(rs, h). Some (r # rs, h)))"
      by (rule rel_option_bind2) auto
  qed
qed simp

lemma lists_sim_empty:
  assumes "heap_rep h fs ts"
  shows "lists_sim h (\<lambda>_. \<lparr>head = 0, tail = 0\<rparr>) h (\<lambda>_. [])"
  using assms by (auto simp: lists_sim_def list_rep_def)

text \<open>
  C22: A program that calls \<open>addFirst\<close>, \<open>addLast\<close>, \<open>insert_sorted\<close>, \<open>removeFirst\<close>, \<open>removeLast\<close>,
  \<open>removeSpec\<close>, \<open>peekFirst\<close>, \<open>peekLast\<close> and \<open>sort\<close> on any number of lists that share the
  allocator's heap gets the same results from the pointer code as from sequences of elements,
  and faults (an allocation that failed) exactly when the sequences do.
\<close>

theorem list_programs_refine:
  assumes "lists_sim hC ls hA xss"
  shows "map_option fst (run_ptr cmp prog ls hC) = map_option fst (run_seq cmp prog xss hA)"
  using run_sim [OF assms, of cmp prog]
  by (cases "run_ptr cmp prog ls hC"; cases "run_seq cmp prog xss hA") auto

definition example_prog :: "(bool \<times> list_call) list" where
  "example_prog = [(True, AddLast 5), (True, AddFirst 7), (True, Sort), (False, PeekLast), (True, RemoveFirst)]"

lemma list_programs_refine_witness:
  "map_option fst (run_ptr (<) example_prog (\<lambda>_. \<lparr>head = 0, tail = 0\<rparr>) (init example_heap)) =
   Some [0, 0, 0, 0, 5]"
  unfolding list_programs_refine [OF lists_sim_empty [OF example_init]]
  by code_simp

text \<open>
  C33: \<open>sort\<close> returns on every list of the kernel and leaves the same elements, sorted for every
  transitive relation that the comparison decides, in the same cells; the other lists and the
  allocator's lists are untouched.
\<close>

theorem list_sort_correct:
  assumes "lists_sim hC ls hA xss"
    and "\<And>a b. cmp a b \<Longrightarrow> R a b" "\<And>a b. \<not> cmp a b \<Longrightarrow> R b a" "\<And>a b c. R a b \<Longrightarrow> R b c \<Longrightarrow> R a c"
  shows "\<exists>l' hC' ys. list_sort cmp (ls k) hC = Some (l', hC') \<and>
    lists_sim hC' (ls(k := l')) hA (xss(k := ys)) \<and> mset ys = mset (xss k) \<and> sorted_wrt R (datas ys)"
proof -
  obtain l' hC' where "list_sort cmp (ls k) hC = Some (l', hC')"
    "lists_sim hC' (ls(k := l')) hA (xss(k := msort cmp (xss k)))"
    using list_sort_sim [OF assms(1), of k cmp] by (cases "list_sort cmp (ls k) hC") (auto simp: k_sort_def)
  moreover have "sorted_wrt R (datas (msort cmp (xss k)))" by (rule msort_sorted [OF assms(2-4)])
  ultimately show ?thesis by (intro exI [of _ l'] exI [of _ hC'] exI [of _ "msort cmp (xss k)"]) simp
qed

lemma two_elements:
  "map_option (map snd \<circ> fst) (k_addLast 7 [] (init example_heap) \<bind> (\<lambda>(xs, h). k_addLast 5 xs h)) = Some [7, 5]"
  by code_simp

lemma list_sort_correct_witness:
  "\<exists>hC ls hA xss l' hC' ys. datas (xss ()) = [7, 5] \<and> list_sort (\<le>) (ls ()) hC = Some (l', hC') \<and>
     lists_sim hC' (ls(() := l')) hA (xss(() := ys)) \<and> mset ys = mset (xss ()) \<and> sorted_wrt (\<le>) (datas ys)"
proof -
  from two_elements obtain xs1 h1 xs2 h2 where k: "k_addLast 7 [] (init example_heap) = Some (xs1, h1)"
    "k_addLast 5 xs1 h1 = Some (xs2, h2)" "datas xs2 = [7, 5]"
    by (auto split: bind_splits)
  obtain l1 g1 where "lists_sim g1 ((\<lambda>_. \<lparr>head = 0, tail = 0\<rparr>)(() := l1)) h1 ((\<lambda>_. [])(() := xs1))"
    using addLast_sim [OF lists_sim_empty [OF example_init], of "()" 7] k(1)
    by (auto simp: option.rel_sel elim: option.rel_cases)
  from addLast_sim [OF this, of "()" 5] k(2) obtain g2 ls2 xss2 where
    sim: "lists_sim g2 ls2 h2 xss2" "xss2 () = xs2"
    by (auto elim!: option.rel_cases)
  have "\<exists>l' hC' ys. list_sort (\<le>) (ls2 ()) g2 = Some (l', hC') \<and> lists_sim hC' (ls2(() := l')) h2 (xss2(() := ys)) \<and>
      mset ys = mset (xss2 ()) \<and> sorted_wrt (\<le>) (datas ys)"
    by (rule list_sort_correct [OF sim(1)]) auto
  then obtain l' hC' ys where "list_sort (\<le>) (ls2 ()) g2 = Some (l', hC')"
    "lists_sim hC' (ls2(() := l')) h2 (xss2(() := ys))" "mset ys = mset (xss2 ())" "sorted_wrt (\<le>) (datas ys)"
    by (elim exE conjE) (rule that)
  with sim(2) k(3) show ?thesis
    by (intro exI [of _ g2] exI [of _ ls2] exI [of _ h2] exI [of _ xss2] exI [of _ l'] exI [of _ hC'] exI [of _ ys]) simp
qed

end
