(* ===== verification/KernelState.thy ===== *)
theory KernelState
  imports KList
begin

text \<open>
  The data of the kernel: the thread control block of \<open>h/_thread.hpp\<close>, the semaphore object of
  \<open>h/_sem.hpp\<close>, the console's members of \<open>h/_console.hpp\<close>, and the record \<open>kernel\<close> with all static
  members. Threads and semaphores are kept in maps from the address that \<open>operator new\<close> returned
  to the object; deleting an object removes its entry, so an access through a null pointer or to a
  freed object is \<open>None\<close>. Their memory, and that of the list cells, is taken from and given back
  to the allocator's \<open>heap\<close>.

  The saved context (\<open>ra\<close>, \<open>sp\<close>) of a thread is the point at which it continues when it is
  switched to: a \<open>resume_point\<close> names the call of \<open>_context::dispatch\<close> it is in. The registers themselves
  matter in one place, the context of a thread that has just been deleted, which is stored into its freed
  block: \<open>late_regs\<close> are the values that the machine has in \<open>ra\<close> and \<open>sp\<close> at these switches, one after the other.
\<close>

datatype threadStateTypes = RUNNING | READY | SUSPENDED | FINISHED

datatype threadsSemStatus =
  NON_WAITING | WAITING | TIMEDWAITING | REGULARLY_WAITED | TIMEOUT | SEM_DELETED

datatype resume_point =
  In_threadWrapper
| In_dispatch_wrapper
| In_exit_wrapper
| In_wait u64
| In_timedWait u64
| In_getChar u64
| In_sleep
| In_timer

record thread =
  body :: u64
  arg :: u64
  stack :: u64
  saved_context :: resume_point
  timeSlice :: u64
  threadState :: threadStateTypes
  myID :: u64
  myMagicNumber :: u64
  parentThread :: u64
  numOfChildren :: u64
  semStatus :: threadsSemStatus
  mySem :: u64
  timeForWakingUp :: u64

record sem =
  val :: u64
  queueBlocked :: klist
  numOfTimedWaiting :: u64

record console =
  headPrint :: u64
  tailPrint :: u64
  bufferPrint :: "u64 \<Rightarrow> u8"
  headGet :: u64
  tailGet :: u64
  bufferGet :: "u64 \<Rightarrow> u8"
  characterReadyToGet :: u64
  consoleInterrupt :: bool
  con_initialized :: bool

record kernel =
  kheap :: heap
  threads :: "u64 \<rightharpoonup> thread"
  sems :: "u64 \<rightharpoonup> sem"
  running :: u64
  ID :: u64
  numOfSystemThreads :: u64
  queueThreads :: klist
  allSemaphores :: klist
  numOfAllSemaphores :: u64
  SYS_TIME :: u64
  runningThread_CPU_time :: u64
  listAsleepThreads :: klist
  numOfThreadsAsleep :: u64
  con :: console
  sip :: u64
  umem :: "u64 \<Rightarrow> u64"
  late_regs :: "nat \<Rightarrow> u64 \<times> u64"

definition DEFAULT_STACK_SIZE :: u64 where "DEFAULT_STACK_SIZE = 4096"
definition DEFAULT_TIME_SLICE :: u64 where "DEFAULT_TIME_SLICE = 2"
definition STACK_SIZE :: u64 where "STACK_SIZE = DEFAULT_STACK_SIZE div 8"
definition TIME_SLICE :: u64 where "TIME_SLICE = DEFAULT_TIME_SLICE"
definition THREAD_MAGIC_NUMBER :: u64 where "THREAD_MAGIC_NUMBER = 0xf832d45809acdeef"
definition THREAD_DUMP_MAGIC_NUMBER :: u64 where "THREAD_DUMP_MAGIC_NUMBER = 0xacdcacdcacdcacdc"
definition THREAD_IS_INVALID_ERR :: int where "THREAD_IS_INVALID_ERR = -10"

text \<open>\<open>sizeof(_thread)\<close> is 112, \<open>sizeof(_sem)\<close> is 32; \<open>operator new\<close> rounds up to blocks with
  room for the header.\<close>

definition SIZEOF_thread :: u64 where "SIZEOF_thread = 112"
definition SIZEOF_sem :: u64 where "SIZEOF_sem = 32"

definition new_blocks :: "u64 \<Rightarrow> u64" where
  "new_blocks n = (SIZE_HEADER + n + MEM_BLOCK_SIZE - 1) div MEM_BLOCK_SIZE"

lemma new_blocks_thread [simp]: "new_blocks SIZEOF_thread = 2"
  by (simp add: new_blocks_def SIZEOF_thread_def SIZE_HEADER_def MEM_BLOCK_SIZE_def)

lemma new_blocks_sem [simp]: "new_blocks SIZEOF_sem = 1"
  by (simp add: new_blocks_def SIZEOF_sem_def SIZE_HEADER_def MEM_BLOCK_SIZE_def)

definition upd_thread :: "u64 \<Rightarrow> (thread \<Rightarrow> thread) \<Rightarrow> kernel \<Rightarrow> kernel option" where
  "upd_thread p f s = (case threads s p of None \<Rightarrow> None
     | Some t \<Rightarrow> Some (s\<lparr>threads := (threads s)(p \<mapsto> f t)\<rparr>))"

definition upd_sem :: "u64 \<Rightarrow> (sem \<Rightarrow> sem) \<Rightarrow> kernel \<Rightarrow> kernel option" where
  "upd_sem p f s = (case sems s p of None \<Rightarrow> None
     | Some x \<Rightarrow> Some (s\<lparr>sems := (sems s)(p \<mapsto> f x)\<rparr>))"

text \<open>The initial values of the static members.\<close>

definition console0 :: console where
  "console0 = \<lparr>headPrint = 0, tailPrint = 0, bufferPrint = (\<lambda>_. 0), headGet = 0, tailGet = 0, bufferGet = (\<lambda>_. 0),
     characterReadyToGet = 0, consoleInterrupt = False, con_initialized = False\<rparr>"

definition kernel0 :: "(nat \<Rightarrow> u64 \<times> u64) \<Rightarrow> heap \<Rightarrow> kernel" where
  "kernel0 rg h = \<lparr>kheap = h, threads = Map.empty, sems = Map.empty, running = 0, ID = 0, numOfSystemThreads = 0, queueThreads = [],
     allSemaphores = [], numOfAllSemaphores = 0, SYS_TIME = 0, runningThread_CPU_time = 0, listAsleepThreads = [],
     numOfThreadsAsleep = 0, con = console0, sip = 0, umem = (\<lambda>_. 0), late_regs = rg\<rparr>"

text \<open>A store through a user's pointer, as in \<open>*handle = ...\<close>.\<close>

definition user_store :: "u64 \<Rightarrow> u64 \<Rightarrow> kernel \<Rightarrow> kernel option" where
  "user_store a v s = (if a = 0 then None else Some (s\<lparr>umem := (umem s)(a := v)\<rparr>))"

text \<open>\<open>foreachWhile\<close>: the next element is fetched before the callback may remove the current one.\<close>

fun k_foreachWhile ::
  "(u64 \<Rightarrow> 's \<Rightarrow> 's option) \<Rightarrow> (u64 \<Rightarrow> 's \<Rightarrow> bool option) \<Rightarrow> klist \<Rightarrow> 's \<Rightarrow> 's option" where
  "k_foreachWhile func condition [] s = Some s"
| "k_foreachWhile func condition ((c, d) # xs) s = do {
     b \<leftarrow> condition d s;
     if b then do { s \<leftarrow> func d s; k_foreachWhile func condition xs s } else Some s
   }"

end
