(* ===== verification/Threads.thy ===== *)
theory Threads
  imports KernelState
begin

text \<open>
  \<open>h/_thread.hpp\<close>, \<open>src/_thread.cpp\<close> and \<open>src/_scheduler.cpp\<close>: the accessors of a thread, its
  constructor and destructor, and the scheduler's queue. Each accessor checks \<open>isThreadValid\<close>
  as the code does, by the magic number the constructor writes and \<open>disableThread\<close> overwrites.
\<close>

subsection \<open>Scheduler\<close>

definition put :: "u64 \<Rightarrow> kernel \<Rightarrow> kernel option" where
  "put thr s = do {
     (q, h) \<leftarrow> k_addLast thr (queueThreads s) (kheap s);
     Some (s\<lparr>queueThreads := q, kheap := h\<rparr>)
   }"

definition get :: "kernel \<Rightarrow> (u64 \<times> kernel) option" where
  "get s = do {
     (d, q, h) \<leftarrow> k_removeFirst (queueThreads s) (kheap s);
     Some (d, s\<lparr>queueThreads := q, kheap := h\<rparr>)
   }"

subsection \<open>Accessors\<close>

definition isThreadValid :: "u64 \<Rightarrow> kernel \<Rightarrow> bool option" where
  "isThreadValid thr s = (if thr = 0 then Some False
     else do { t \<leftarrow> threads s thr; Some (myMagicNumber t = THREAD_MAGIC_NUMBER) })"

definition isFinished :: "u64 \<Rightarrow> kernel \<Rightarrow> bool option" where
  "isFinished thr s = do {
     v \<leftarrow> isThreadValid thr s;
     if \<not> v then Some True else do { t \<leftarrow> threads s thr; Some (threadState t = FINISHED) }
   }"

definition readyToRun :: "thread \<Rightarrow> bool" where
  "readyToRun t \<longleftrightarrow> threadState t = READY \<or> threadState t = RUNNING"

definition setFinished :: "u64 \<Rightarrow> kernel \<Rightarrow> kernel option" where
  "setFinished thr s = do {
     v \<leftarrow> isThreadValid thr s;
     if \<not> v then Some s else upd_thread thr (threadState_update (\<lambda>_. FINISHED)) s
   }"

definition set_threadState :: "u64 \<Rightarrow> threadStateTypes \<Rightarrow> kernel \<Rightarrow> (int \<times> kernel) option" where
  "set_threadState thr newState s = do {
     v \<leftarrow> isThreadValid thr s;
     if \<not> v then Some (-1, s)
     else do { s \<leftarrow> upd_thread thr (threadState_update (\<lambda>_. newState)) s; Some (0, s) }
   }"

definition set_timeForWakingUp :: "u64 \<Rightarrow> u64 \<Rightarrow> kernel \<Rightarrow> (int \<times> kernel) option" where
  "set_timeForWakingUp thr time s = do {
     v \<leftarrow> isThreadValid thr s;
     if \<not> v then Some (-1, s)
     else do { s \<leftarrow> upd_thread thr (timeForWakingUp_update (\<lambda>_. time)) s; Some (0, s) }
   }"

definition set_mySem :: "u64 \<Rightarrow> u64 \<Rightarrow> kernel \<Rightarrow> kernel option" where
  "set_mySem thr x s = do {
     v \<leftarrow> isThreadValid thr s;
     if \<not> v then Some s else upd_thread thr (mySem_update (\<lambda>_. x)) s
   }"

text \<open>The same on the running thread, which may be null.\<close>

definition set_runningThread_state :: "threadStateTypes \<Rightarrow> kernel \<Rightarrow> (int \<times> kernel) option" where
  "set_runningThread_state newState s = do {
     v \<leftarrow> isThreadValid (running s) s;
     if \<not> v then Some (-1, s)
     else do { s \<leftarrow> upd_thread (running s) (threadState_update (\<lambda>_. newState)) s; Some (0, s) }
   }"

definition set_runningThread_timeForWakingUp :: "u64 \<Rightarrow> kernel \<Rightarrow> (int \<times> kernel) option" where
  "set_runningThread_timeForWakingUp time s = do {
     v \<leftarrow> isThreadValid (running s) s;
     if \<not> v then Some (-1, s)
     else do { s \<leftarrow> upd_thread (running s) (timeForWakingUp_update (\<lambda>_. time)) s; Some (0, s) }
   }"

definition get_runningThread_timeForWakingUp :: "kernel \<Rightarrow> u64 option" where
  "get_runningThread_timeForWakingUp s =
     (if running s \<noteq> 0 then do { t \<leftarrow> threads s (running s); Some (timeForWakingUp t) } else Some 0)"

definition get_runningThread_sem :: "kernel \<Rightarrow> u64 option" where
  "get_runningThread_sem s = (if running s \<noteq> 0 then do { t \<leftarrow> threads s (running s); Some (mySem t) } else Some 0)"

definition set_runningThread_sem :: "u64 \<Rightarrow> kernel \<Rightarrow> kernel option" where
  "set_runningThread_sem x s = (if running s \<noteq> 0 then set_mySem (running s) x s else Some s)"

definition set_threadsSemStatus :: "u64 \<Rightarrow> threadsSemStatus \<Rightarrow> kernel \<Rightarrow> kernel option" where
  "set_threadsSemStatus thr status s = do {
     v \<leftarrow> isThreadValid thr s;
     f \<leftarrow> isFinished thr s;
     if \<not> v \<or> f then Some s
     else do {
       s \<leftarrow> upd_thread thr (semStatus_update (\<lambda>_. status)) s;
       if status = WAITING \<or> status = TIMEDWAITING
       then upd_thread thr (threadState_update (\<lambda>_. SUSPENDED)) s
       else if running s = thr
       then upd_thread thr (threadState_update (\<lambda>_. RUNNING)) s
       else upd_thread thr (threadState_update (\<lambda>_. READY)) s
     }
   }"

subsection \<open>Construction and destruction\<close>

definition new_thread :: "u64 \<Rightarrow> u64 \<Rightarrow> u64 \<Rightarrow> kernel \<Rightarrow> thread" where
  "new_thread bdy ar stack_space s =
     \<lparr>body = bdy, arg = ar,
      stack = (if stack_space \<noteq> 0 then stack_space - STACK_SIZE * 8 else 0),
      saved_context = In_threadWrapper, timeSlice = TIME_SLICE, threadState = READY,
      myID = 0, myMagicNumber = 0, parentThread = running s, numOfChildren = 0,
      semStatus = NON_WAITING, mySem = 0, timeForWakingUp = 0\<rparr>"

definition createThread :: "u64 \<Rightarrow> u64 \<Rightarrow> u64 \<Rightarrow> kernel \<Rightarrow> (u64 \<times> kernel) option" where
  "createThread bdy ar stack_space s = do {
     (this, h) \<leftarrow> kmalloc (new_blocks SIZEOF_thread) (kheap s);
     let s = s\<lparr>kheap := h\<rparr>;
     if this = 0 then None
     else do {
       let parent = running s;
       let s = s\<lparr>threads := (threads s)(this \<mapsto> new_thread bdy ar stack_space s)\<rparr>;
       s \<leftarrow> (if bdy \<noteq> 0 then put this s else Some s);
       s \<leftarrow> (if parent \<noteq> 0 then upd_thread parent (\<lambda>t. t\<lparr>numOfChildren := numOfChildren t + 1\<rparr>) s
              else Some s);
       s \<leftarrow> (if running s = 0 \<and> bdy = 0
              then do { s \<leftarrow> upd_thread this (threadState_update (\<lambda>_. RUNNING)) s; Some (s\<lparr>running := this\<rparr>) }
              else Some s);
       let s = s\<lparr>ID := ID s + 1\<rparr>;
       s \<leftarrow> upd_thread this (\<lambda>t. t\<lparr>myID := ID s, myMagicNumber := THREAD_MAGIC_NUMBER\<rparr>) s;
       sys \<leftarrow> (if bdy = 0 then Some True
               else if parent = 0 then Some False
               else do { p \<leftarrow> threads s parent; Some (body p = 0) });
       Some (this, if sys then s\<lparr>numOfSystemThreads := numOfSystemThreads s + 1\<rparr> else s)
     }
   }"

definition disableThread :: "u64 \<Rightarrow> kernel \<Rightarrow> kernel option" where
  "disableThread this s = do {
     v \<leftarrow> isThreadValid this s;
     if \<not> v then Some s
     else do {
       s \<leftarrow> upd_thread this (myMagicNumber_update (\<lambda>_. THREAD_DUMP_MAGIC_NUMBER)) s;
       t \<leftarrow> threads s this;
       (_, h) \<leftarrow> kmfree (stack t) (kheap s);
       Some (s\<lparr>kheap := h\<rparr>)
     }
   }"

text \<open>\<open>delete thr\<close>: the destructor, then \<open>operator delete\<close>.\<close>

definition delete_thread :: "u64 \<Rightarrow> kernel \<Rightarrow> kernel option" where
  "delete_thread thr s = do {
     s \<leftarrow> disableThread thr s;
     (_, h) \<leftarrow> kmfree thr (kheap s);
     Some (s\<lparr>kheap := h, threads := (threads s)(thr := None)\<rparr>)
   }"

end
