(* ===== verification/Context.thy ===== *)
theory Context
  imports Threads
begin

text \<open>
  \<open>src/_context.cpp\<close>: the context switch. \<open>dispatch k\<close> is \<open>_context::dispatch\<close> called at the
  point \<open>k\<close> of the kernel: it ends with the new thread running and \<open>k\<close> saved as the old
  thread's context. The code saves it also when it has just deleted the old thread: the two words \<open>ra\<close> and
  \<open>sp\<close> are then stored into the freed block, at the offsets 24 and 32 of \<open>context\<close> in a \<open>_thread\<close>. What
  the new thread does in the kernel after the switch is \<open>resume_running\<close> of the theory SysCalls.
\<close>

definition threadDEAD :: "u64 \<Rightarrow> kernel \<Rightarrow> bool option" where
  "threadDEAD thr s = (if thr = 0 then Some True
     else do { v \<leftarrow> isThreadValid thr s; if \<not> v then Some True else isFinished thr s })"

definition deleteThread_inDispatch :: "u64 \<Rightarrow> kernel \<Rightarrow> kernel option" where
  "deleteThread_inDispatch thr s =
     (if thr = 0 then Some s
      else do {
        (r, q, h) \<leftarrow> k_removeSpec thr (queueThreads s) (kheap s);
        let s = s\<lparr>queueThreads := q, kheap := h\<rparr>;
        if \<not> r then Some s
        else do {
          v \<leftarrow> isThreadValid thr s;
          if \<not> v then Some s
          else do { f \<leftarrow> isFinished thr s; if f then delete_thread thr s else Some s }
        }
      })"

definition write_late_context :: "u64 \<Rightarrow> kernel \<Rightarrow> kernel" where
  "write_late_context old s =
     (let (ra, sp) = late_regs s 0; h = store (old + 24) ra (kheap s) in
      s\<lparr>kheap := store (old + 32) sp h, late_regs := (\<lambda>n. late_regs s (Suc n))\<rparr>)"

definition contextSwitch :: "u64 \<Rightarrow> resume_point \<Rightarrow> kernel \<Rightarrow> kernel" where
  "contextSwitch old k s = (case threads s old of None \<Rightarrow> write_late_context old s
     | Some t \<Rightarrow> s\<lparr>threads := (threads s)(old \<mapsto> t\<lparr>saved_context := k\<rparr>)\<rparr>)"

definition dispatch :: "resume_point \<Rightarrow> kernel \<Rightarrow> kernel option" where
  "dispatch k s = do {
     let s = s\<lparr>runningThread_CPU_time := 0\<rparr>;
     let old = running s;
     t \<leftarrow> threads s old;
     s \<leftarrow> (if readyToRun t
            then do { s \<leftarrow> upd_thread old (threadState_update (\<lambda>_. READY)) s; put old s }
            else Some s);
     f \<leftarrow> isFinished old s;
     s \<leftarrow> (if f then delete_thread old s else Some s);
     s \<leftarrow> k_foreachWhile deleteThread_inDispatch threadDEAD (queueThreads s) s;
     (new, s) \<leftarrow> get s;
     let s = s\<lparr>running := new\<rparr>;
     s \<leftarrow> upd_thread new (threadState_update (\<lambda>_. RUNNING)) s;
     Some (contextSwitch old k s)
   }"

text \<open>\<open>_context::exit\<close>: the write to the parent is an access to freed memory when the parent has
  been deleted.\<close>

definition context_exit :: "kernel \<Rightarrow> kernel option" where
  "context_exit s = do {
     t \<leftarrow> threads s (running s);
     s \<leftarrow> (if parentThread t \<noteq> 0
            then upd_thread (parentThread t) (\<lambda>t. t\<lparr>numOfChildren := numOfChildren t - 1\<rparr>) s
            else Some s);
     s \<leftarrow> setFinished (running s) s;
     dispatch In_exit_wrapper s
   }"

definition subtleKill :: "u64 \<Rightarrow> kernel \<Rightarrow> (int \<times> kernel) option" where
  "subtleKill thr s =
     (if thr = 0 then Some (THREAD_IS_INVALID_ERR, s)
      else do {
        v \<leftarrow> isThreadValid thr s;
        if \<not> v then Some (THREAD_IS_INVALID_ERR, s)
        else if running s = 0 then Some (-1, s)
        else do {
          t \<leftarrow> threads s thr;
          if running s \<noteq> parentThread t then Some (-2, s)
          else if running s = thr then Some (-3, s)
          else do { s \<leftarrow> setFinished thr s; Some (0, s) }
        }
      })"

end
