(* ===== verification/Sleep.thy ===== *)
theory Sleep
  imports Context
begin

text \<open>
  The list of sleeping threads of \<open>h/_time.hpp\<close> and \<open>src/_time.cpp\<close>: insertion in order of
  waking time, removal, and putting a thread to sleep. The waking of threads by the timer is in
  the theory TimerInterrupt, since it calls the semaphores.
\<close>

definition smallerSleepTime :: "kernel \<Rightarrow> u64 \<Rightarrow> u64 \<Rightarrow> bool" where
  "smallerSleepTime s thrA thrB = (case (threads s thrA, threads s thrB) of
       (Some a, Some b) \<Rightarrow> timeForWakingUp a < timeForWakingUp b
     | _ \<Rightarrow> False)"

text \<open>\<open>listAsleepThreads.insert_sorted(thr, smallerSleepTime, nullptr)\<close>. The comparison reads the
  elements up to the place of insertion; the first one not smaller is the last it reads, so a
  freed thread among those read is that one.\<close>

definition insert_asleep :: "u64 \<Rightarrow> kernel \<Rightarrow> kernel option" where
  "insert_asleep thr s = do {
     _ \<leftarrow> (case dropWhile (\<lambda>(c, x). smallerSleepTime s x thr) (listAsleepThreads s) of
             [] \<Rightarrow> Some ()
           | (c, x) # _ \<Rightarrow> if thr \<noteq> 0 \<and> threads s x = None then None else Some ());
     (xs, h) \<leftarrow> k_insert_sorted thr (smallerSleepTime s) (listAsleepThreads s) (kheap s);
     Some (s\<lparr>listAsleepThreads := xs, kheap := h\<rparr>)
   }"

definition insert_ordered_in_list_of_sleeping_threads :: "u64 \<Rightarrow> kernel \<Rightarrow> (bool \<times> kernel) option" where
  "insert_ordered_in_list_of_sleeping_threads thr s = do {
     v \<leftarrow> isThreadValid thr s;
     if \<not> v then Some (False, s) else do { s \<leftarrow> insert_asleep thr s; Some (True, s) }
   }"

definition remove_thread_from_sleep :: "u64 \<Rightarrow> kernel \<Rightarrow> (bool \<times> kernel) option" where
  "remove_thread_from_sleep thr s = do {
     (r, xs, h) \<leftarrow> k_removeSpec thr (listAsleepThreads s) (kheap s);
     Some (r, s\<lparr>listAsleepThreads := xs, kheap := h\<rparr>)
   }"

text \<open>\<open>put_thread_to_sleep\<close> up to the context switch: \<open>True\<close> if it switched. \<open>sleep_wakeup\<close> is
  what follows the switch.\<close>

definition put_thread_to_sleep :: "u64 \<Rightarrow> u64 \<Rightarrow> kernel \<Rightarrow> (bool \<times> kernel) option" where
  "put_thread_to_sleep thr timeSleeping s = do {
     v \<leftarrow> isThreadValid thr s;
     if \<not> v then Some (False, s)
     else do {
       (_, s) \<leftarrow> set_threadState thr SUSPENDED s;
       (_, s) \<leftarrow> set_timeForWakingUp thr (SYS_TIME s + timeSleeping) s;
       let s = s\<lparr>numOfThreadsAsleep := numOfThreadsAsleep s + 1\<rparr>;
       s \<leftarrow> insert_asleep thr s;
       s \<leftarrow> dispatch In_sleep s;
       Some (True, s)
     }
   }"

definition sleep_wakeup :: "u64 \<Rightarrow> kernel \<Rightarrow> kernel option" where
  "sleep_wakeup thr s = do {
     (_, s) \<leftarrow> set_threadState thr READY s;
     (_, s) \<leftarrow> set_timeForWakingUp thr 0 s;
     Some (s\<lparr>numOfThreadsAsleep := numOfThreadsAsleep s - 1\<rparr>)
   }"

definition put_runningThread_to_sleep :: "u64 \<Rightarrow> kernel \<Rightarrow> (bool \<times> kernel) option" where
  "put_runningThread_to_sleep timeSleeping s = put_thread_to_sleep (running s) timeSleeping s"

end
