(* ===== verification/Semaphore.thy ===== *)
theory Semaphore
  imports Sleep
begin

text \<open>
  \<open>h/_sem.hpp\<close> and \<open>src/_sem.cpp\<close>. \<open>val\<close> is a signed 64-bit integer, read with \<open>sint\<close>. A wait that
  blocks ends in a context switch: \<open>wait\<close> and \<open>timedWait\<close> return the answer of a wait that does
  not block and \<open>None\<close> after the switch; \<open>wait_resume\<close> and \<open>timedWait_resume\<close> are the code after
  the switch, run when the thread is running again. In \<open>timedWait_resume\<close> the counter of the
  semaphore is written even if the semaphore has been deleted: the entry is then missing and
  the result is \<open>None\<close>.
\<close>

definition SEM_DIDNTWAIT :: int where "SEM_DIDNTWAIT = 1"
definition SEM_OKAYWAITED :: int where "SEM_OKAYWAITED = 0"
definition SEM_DEAD :: int where "SEM_DEAD = -1"
definition SEM_TIMEOUT :: int where "SEM_TIMEOUT = -2"
definition SEM_UNEXPECTED :: int where "SEM_UNEXPECTED = -4"
definition SEM_ERROR :: int where "SEM_ERROR = -5"

fun wait_answer :: "threadsSemStatus \<Rightarrow> int" where
  "wait_answer NON_WAITING = SEM_DIDNTWAIT"
| "wait_answer WAITING = SEM_ERROR"
| "wait_answer TIMEDWAITING = SEM_ERROR"
| "wait_answer SEM_DELETED = SEM_DEAD"
| "wait_answer REGULARLY_WAITED = SEM_OKAYWAITED"
| "wait_answer TIMEOUT = SEM_TIMEOUT"

definition generateWAITResponses :: "kernel \<Rightarrow> (int \<times> kernel) option" where
  "generateWAITResponses s = do {
     t \<leftarrow> threads s (running s);
     let status = semStatus t;
     s \<leftarrow> set_threadsSemStatus (running s) NON_WAITING s;
     Some (wait_answer status, s)
   }"

subsection \<open>Blocking\<close>

definition sem_addLast :: "u64 \<Rightarrow> u64 \<Rightarrow> kernel \<Rightarrow> kernel option" where
  "sem_addLast this thr s = do {
     x \<leftarrow> sems s this;
     (q, h) \<leftarrow> k_addLast thr (queueBlocked x) (kheap s);
     upd_sem this (queueBlocked_update (\<lambda>_. q)) (s\<lparr>kheap := h\<rparr>)
   }"

definition block :: "(u64 \<Rightarrow> resume_point) \<Rightarrow> u64 \<Rightarrow> kernel \<Rightarrow> kernel option" where
  "block k this s = do {
     let old = running s;
     s \<leftarrow> sem_addLast this old s;
     s \<leftarrow> set_threadsSemStatus old WAITING s;
     s \<leftarrow> set_mySem old this s;
     dispatch (k this) s
   }"

definition timedBlock :: "u64 \<Rightarrow> u64 \<Rightarrow> kernel \<Rightarrow> kernel option" where
  "timedBlock this maxTimeSleeping s = do {
     let timeForRelease = maxTimeSleeping + SYS_TIME s;
     let old = running s;
     s \<leftarrow> set_threadsSemStatus old TIMEDWAITING s;
     (_, s) \<leftarrow> set_timeForWakingUp old timeForRelease s;
     s \<leftarrow> sem_addLast this old s;
     (_, s) \<leftarrow> insert_ordered_in_list_of_sleeping_threads old s;
     s \<leftarrow> upd_sem this (\<lambda>x. x\<lparr>numOfTimedWaiting := numOfTimedWaiting x + 1\<rparr>) s;
     s \<leftarrow> set_mySem old this s;
     dispatch (In_timedWait this) s
   }"

definition wait :: "(u64 \<Rightarrow> resume_point) \<Rightarrow> u64 \<Rightarrow> kernel \<Rightarrow> (int option \<times> kernel) option" where
  "wait k this s = do {
     s \<leftarrow> upd_sem this (\<lambda>x. x\<lparr>val := val x - 1\<rparr>) s;
     x \<leftarrow> sems s this;
     if 0 \<le> sint (val x) then Some (Some SEM_DIDNTWAIT, s)
     else do { s \<leftarrow> block k this s; Some (None, s) }
   }"

definition wait_resume :: "kernel \<Rightarrow> (int \<times> kernel) option" where
  "wait_resume s = do {
     s \<leftarrow> set_mySem (running s) 0 s;
     generateWAITResponses s
   }"

definition timedWait :: "u64 \<Rightarrow> u64 \<Rightarrow> kernel \<Rightarrow> (int option \<times> kernel) option" where
  "timedWait this maxTimeSleeping s = do {
     s \<leftarrow> upd_sem this (\<lambda>x. x\<lparr>val := val x - 1\<rparr>) s;
     x \<leftarrow> sems s this;
     if 0 \<le> sint (val x) then Some (Some SEM_DIDNTWAIT, s)
     else do { s \<leftarrow> timedBlock this maxTimeSleeping s; Some (None, s) }
   }"

definition timedWait_resume :: "u64 \<Rightarrow> kernel \<Rightarrow> (int \<times> kernel) option" where
  "timedWait_resume this s = do {
     let old = running s;
     s \<leftarrow> set_mySem old 0 s;
     s \<leftarrow> upd_sem this (\<lambda>x. x\<lparr>numOfTimedWaiting := numOfTimedWaiting x - 1\<rparr>) s;
     (_, s) \<leftarrow> set_timeForWakingUp old 0 s;
     generateWAITResponses s
   }"

definition tryWait :: "u64 \<Rightarrow> kernel \<Rightarrow> (int \<times> kernel) option" where
  "tryWait this s = do {
     x \<leftarrow> sems s this;
     s \<leftarrow> upd_sem this (\<lambda>x. x\<lparr>val := val x - 1\<rparr>) s;
     Some (if sint (val x) < 0 then 0 else 1, s)
   }"

subsection \<open>Unblocking\<close>

definition unblock :: "threadsSemStatus \<Rightarrow> u64 \<Rightarrow> kernel \<Rightarrow> kernel option" where
  "unblock unblockingCause this s = do {
     x \<leftarrow> sems s this;
     (old, q, h) \<leftarrow> k_removeFirst (queueBlocked x) (kheap s);
     s \<leftarrow> upd_sem this (queueBlocked_update (\<lambda>_. q)) (s\<lparr>kheap := h\<rparr>);
     t \<leftarrow> threads s old;
     s \<leftarrow> (if semStatus t = TIMEDWAITING
            then do { (_, s) \<leftarrow> remove_thread_from_sleep old s; Some s } else Some s);
     s \<leftarrow> set_mySem old 0 s;
     s \<leftarrow> set_threadsSemStatus old unblockingCause s;
     put old s
   }"

definition signal :: "u64 \<Rightarrow> kernel \<Rightarrow> (int \<times> kernel) option" where
  "signal this s = do {
     s \<leftarrow> upd_sem this (\<lambda>x. x\<lparr>val := val x + 1\<rparr>) s;
     x \<leftarrow> sems s this;
     if 0 < sint (val x) then Some (0, s)
     else do { s \<leftarrow> unblock REGULARLY_WAITED this s; Some (1, s) }
   }"

definition unblockedByTime :: "u64 \<Rightarrow> u64 \<Rightarrow> kernel \<Rightarrow> kernel option" where
  "unblockedByTime this old s = do {
     t \<leftarrow> threads s old;
     if semStatus t \<noteq> TIMEDWAITING then Some s
     else do {
       s \<leftarrow> upd_sem this (\<lambda>x. x\<lparr>val := val x + 1\<rparr>) s;
       (_, s) \<leftarrow> remove_thread_from_sleep old s;
       x \<leftarrow> sems s this;
       (_, q, h) \<leftarrow> k_removeSpec old (queueBlocked x) (kheap s);
       s \<leftarrow> upd_sem this (queueBlocked_update (\<lambda>_. q)) (s\<lparr>kheap := h\<rparr>);
       s \<leftarrow> set_mySem old 0 s;
       s \<leftarrow> set_threadsSemStatus old TIMEOUT s;
       put old s
     }
   }"

partial_function (option) unblockAll :: "threadsSemStatus \<Rightarrow> u64 \<Rightarrow> kernel \<Rightarrow> kernel option" where
  "unblockAll unblockingCause this s = do {
     x \<leftarrow> sems s this;
     if sint (val x) < 0
     then do {
       s \<leftarrow> unblock unblockingCause this s;
       s \<leftarrow> upd_sem this (\<lambda>x. x\<lparr>val := val x + 1\<rparr>) s;
       unblockAll unblockingCause this s
     }
     else Some s
   }"

declare unblockAll.simps [code]

subsection \<open>Construction and destruction\<close>

definition new_sem :: "u64 \<Rightarrow> kernel \<Rightarrow> (u64 \<times> kernel) option" where
  "new_sem N s = do {
     (this, h) \<leftarrow> kmalloc (new_blocks SIZEOF_sem) (kheap s);
     if this = 0 then None
     else do {
       let s = s\<lparr>kheap := h, sems := (sems s)(this \<mapsto> \<lparr>val = N, queueBlocked = [], numOfTimedWaiting = 0\<rparr>)\<rparr>;
       (xs, h) \<leftarrow> k_addLast this (allSemaphores s) (kheap s);
       Some (this, s\<lparr>allSemaphores := xs, kheap := h, numOfAllSemaphores := numOfAllSemaphores s + 1\<rparr>)
     }
   }"

definition delete_sem :: "u64 \<Rightarrow> kernel \<Rightarrow> kernel option" where
  "delete_sem this s = do {
     s \<leftarrow> unblockAll SEM_DELETED this s;
     (_, xs, h) \<leftarrow> k_removeSpec this (allSemaphores s) (kheap s);
     let s = s\<lparr>allSemaphores := xs, kheap := h, numOfAllSemaphores := numOfAllSemaphores s - 1\<rparr>;
     (_, h) \<leftarrow> kmfree this (kheap s);
     Some (s\<lparr>kheap := h, sems := (sems s)(this := None)\<rparr>)
   }"

end
