(* ===== verification/TimerInterrupt.thy ===== *)
theory TimerInterrupt
  imports Semaphore
begin

text \<open>
  The timer's side of \<open>src/_time.cpp\<close>: the tick, the waking of threads whose time has come, and
  the preemption of a thread that has used its time slice.
\<close>

definition shouldWakeUpThread :: "u64 \<Rightarrow> kernel \<Rightarrow> bool option" where
  "shouldWakeUpThread thr s = do { t \<leftarrow> threads s thr; Some (timeForWakingUp t \<le> SYS_TIME s) }"

definition wakeThreadUp :: "u64 \<Rightarrow> kernel \<Rightarrow> kernel option" where
  "wakeThreadUp thr s =
     (if thr = 0 then Some s
      else do {
        v \<leftarrow> isThreadValid thr s;
        if \<not> v then Some s
        else do {
          t \<leftarrow> threads s thr;
          if semStatus t = TIMEDWAITING
          then if mySem t \<noteq> 0 then unblockedByTime (mySem t) thr s else Some s
          else do {
            (r, s) \<leftarrow> remove_thread_from_sleep thr s;
            if r then put thr s else Some s
          }
        }
      })"

definition wake_asleep_threads_up :: "kernel \<Rightarrow> kernel option" where
  "wake_asleep_threads_up s = k_foreachWhile wakeThreadUp shouldWakeUpThread (listAsleepThreads s) s"

text \<open>The register \<open>sip\<close> of pending interrupts, with the instructions \<open>csrr\<close>, \<open>csrw\<close>, \<open>csrs\<close> and \<open>csrc\<close> of
  \<open>h/_riscV.hpp\<close>.\<close>

definition SIP_SSIP :: u64 where "SIP_SSIP = push_bit 1 1"
definition SIP_STIP :: u64 where "SIP_STIP = push_bit 5 1"
definition SIP_SEIP :: u64 where "SIP_SEIP = push_bit 9 1"

definition r_sip :: "kernel \<Rightarrow> u64" where "r_sip s = sip s"
definition w_sip :: "u64 \<Rightarrow> kernel \<Rightarrow> kernel" where "w_sip v s = s\<lparr>sip := v\<rparr>"
definition ms_sip :: "u64 \<Rightarrow> kernel \<Rightarrow> kernel" where "ms_sip bits s = s\<lparr>sip := Bit_Operations.or (sip s) bits\<rparr>"
definition mc_sip :: "u64 \<Rightarrow> kernel \<Rightarrow> kernel" where
  "mc_sip bits s = s\<lparr>sip := Bit_Operations.and (sip s) (Bit_Operations.not bits)\<rparr>"

text \<open>\<open>True\<close> if the running thread was preempted.\<close>

definition timer_interrupt_handler :: "kernel \<Rightarrow> (bool \<times> kernel) option" where
  "timer_interrupt_handler s = do {
     let s = mc_sip SIP_SSIP s;
     let s = s\<lparr>SYS_TIME := SYS_TIME s + 1\<rparr>;
     let s = s\<lparr>runningThread_CPU_time := runningThread_CPU_time s + 1\<rparr>;
     s \<leftarrow> wake_asleep_threads_up s;
     t \<leftarrow> threads s (running s);
     if timeSlice t \<le> runningThread_CPU_time s
     then do { s \<leftarrow> dispatch In_timer s; Some (True, s) }
     else Some (False, s)
   }"

end
