(* ===== verification/AbstractKernel.thy ===== *)
theory AbstractKernel
  imports TimerInterrupt
begin

text \<open>
  The abstract specification of the kernel's thread operations: queues are lists of threads, there
  is no memory, and every operation is a total function on \<open>akernel\<close>. The theories RefineBase,
  RefineDispatch and RefineSem show that the code's operations implement these functions while memory
  lasts; AbstractInvariant shows what the functions keep.
\<close>

record asem =
  aval :: u64
  awaiters :: "u64 list"
  atimed :: u64

record akernel =
  athreads :: "u64 \<rightharpoonup> thread"
  asems :: "u64 \<rightharpoonup> asem"
  arunning :: u64
  aready :: "u64 list"
  aasleep :: "u64 list"
  aallsems :: "u64 list"
  anumsems :: u64
  aID :: u64
  asystem :: u64
  atime :: u64
  acpu :: u64
  anumasleep :: u64
  acon :: console
  asip :: u64
  aumem :: "u64 \<Rightarrow> u64"

subsection \<open>Threads and the scheduler\<close>

definition a_thread :: "u64 \<Rightarrow> (thread \<Rightarrow> thread) \<Rightarrow> akernel \<Rightarrow> akernel" where
  "a_thread t f a = a\<lparr>athreads := (athreads a)(t := map_option f (athreads a t))\<rparr>"

definition a_sem :: "u64 \<Rightarrow> (asem \<Rightarrow> asem) \<Rightarrow> akernel \<Rightarrow> akernel" where
  "a_sem p f a = a\<lparr>asems := (asems a)(p := map_option f (asems a p))\<rparr>"

definition a_put :: "u64 \<Rightarrow> akernel \<Rightarrow> akernel" where
  "a_put t a = a\<lparr>aready := aready a @ [t]\<rparr>"

definition a_finished :: "akernel \<Rightarrow> u64 \<Rightarrow> bool" where
  "a_finished a t \<longleftrightarrow> (case athreads a t of None \<Rightarrow> True | Some x \<Rightarrow> threadState x = FINISHED)"

definition a_status :: "u64 \<Rightarrow> threadsSemStatus \<Rightarrow> akernel \<Rightarrow> akernel" where
  "a_status t st a = a_thread t (\<lambda>x. x\<lparr>semStatus := st,
     threadState := (if st = WAITING \<or> st = TIMEDWAITING then SUSPENDED
                     else if arunning a = t then RUNNING else READY)\<rparr>) a"

text \<open>The old thread goes to the end of the queue if it can still run and is deleted if it has
  finished; finished threads at the front of the queue are deleted; the first thread of the
  rest runs.\<close>

definition a_leave :: "akernel \<Rightarrow> akernel" where
  "a_leave a =
     (let old = arunning a; x = the (athreads a old); a = a\<lparr>acpu := 0\<rparr>
      in if readyToRun x then a_put old (a_thread old (threadState_update (\<lambda>_. READY)) a)
         else if threadState x = FINISHED then a\<lparr>athreads := (athreads a)(old := None)\<rparr>
         else a)"

definition a_purge :: "akernel \<Rightarrow> akernel" where
  "a_purge a = a\<lparr>athreads := athreads a |` (- set (takeWhile (a_finished a) (aready a))),
     aready := dropWhile (a_finished a) (aready a)\<rparr>"

definition a_enter :: "akernel \<Rightarrow> akernel" where
  "a_enter a = a_thread (hd (aready a)) (threadState_update (\<lambda>_. RUNNING))
     (a\<lparr>arunning := hd (aready a), aready := tl (aready a)\<rparr>)"

definition a_dispatch :: "resume_point \<Rightarrow> akernel \<Rightarrow> akernel" where
  "a_dispatch k a = a_thread (arunning a) (saved_context_update (\<lambda>_. k)) (a_enter (a_purge (a_leave a)))"

definition a_finish :: "akernel \<Rightarrow> akernel" where
  "a_finish a =
     (let p = parentThread (the (athreads a (arunning a)));
          a = (if p \<noteq> 0 then a_thread p (\<lambda>x. x\<lparr>numOfChildren := numOfChildren x - 1\<rparr>) a else a)
      in a_thread (arunning a) (threadState_update (\<lambda>_. FINISHED)) a)"

definition a_exit :: "akernel \<Rightarrow> akernel" where
  "a_exit a = a_dispatch In_exit_wrapper (a_finish a)"

text \<open>The thread at \<open>p\<close>, with its parent and its place in the queue.\<close>

definition a_create :: "u64 \<Rightarrow> u64 \<Rightarrow> u64 \<Rightarrow> u64 \<Rightarrow> akernel \<Rightarrow> akernel" where
  "a_create p bdy ar stk a =
     (let parent = arunning a;
          first = (arunning a = 0 \<and> bdy = 0);
          x = \<lparr>body = bdy, arg = ar, stack = stk, saved_context = In_threadWrapper, timeSlice = TIME_SLICE,
               threadState = (if first then RUNNING else READY), myID = aID a + 1, myMagicNumber = THREAD_MAGIC_NUMBER,
               parentThread = parent, numOfChildren = 0, semStatus = NON_WAITING, mySem = 0, timeForWakingUp = 0\<rparr>;
          sys = (bdy = 0 \<or> (parent \<noteq> 0 \<and> body (the (athreads a parent)) = 0));
          a = (if bdy \<noteq> 0 then a_put p a else a);
          a = (if parent \<noteq> 0 then a_thread parent (\<lambda>t. t\<lparr>numOfChildren := numOfChildren t + 1\<rparr>) a else a);
          a = a\<lparr>athreads := (athreads a)(p \<mapsto> x), aID := aID a + 1\<rparr>;
          a = (if first then a\<lparr>arunning := p\<rparr> else a)
      in if sys then a\<lparr>asystem := asystem a + 1\<rparr> else a)"

subsection \<open>Sleeping\<close>

definition a_wake_time :: "akernel \<Rightarrow> u64 \<Rightarrow> u64" where
  "a_wake_time a t = (case athreads a t of None \<Rightarrow> 0 | Some x \<Rightarrow> timeForWakingUp x)"

definition a_insert_asleep :: "u64 \<Rightarrow> akernel \<Rightarrow> akernel" where
  "a_insert_asleep t a = a\<lparr>aasleep := takeWhile (\<lambda>x. a_wake_time a x < a_wake_time a t) (aasleep a) @ t #
     dropWhile (\<lambda>x. a_wake_time a x < a_wake_time a t) (aasleep a)\<rparr>"

definition a_sleep :: "u64 \<Rightarrow> akernel \<Rightarrow> akernel" where
  "a_sleep d a =
     (let t = arunning a;
          a = a_thread t (\<lambda>x. x\<lparr>threadState := SUSPENDED, timeForWakingUp := atime a + d\<rparr>) a;
          a = a\<lparr>anumasleep := anumasleep a + 1\<rparr>
      in a_insert_asleep t a)"

definition a_sleep_wakeup :: "akernel \<Rightarrow> akernel" where
  "a_sleep_wakeup a =
     (let a = a_thread (arunning a) (\<lambda>x. x\<lparr>threadState := READY, timeForWakingUp := 0\<rparr>) a
      in a\<lparr>anumasleep := anumasleep a - 1\<rparr>)"

subsection \<open>Semaphores\<close>

text \<open>\<open>a_sleep\<close>, \<open>a_block\<close> and \<open>a_timedBlock\<close> end before the context switch.\<close>

definition a_block :: "u64 \<Rightarrow> akernel \<Rightarrow> akernel" where
  "a_block p a =
     (let t = arunning a;
          a = a_sem p (\<lambda>x. x\<lparr>awaiters := awaiters x @ [t]\<rparr>) a;
          a = a_status t WAITING a
      in a_thread t (mySem_update (\<lambda>_. p)) a)"

definition a_timedBlock :: "u64 \<Rightarrow> u64 \<Rightarrow> akernel \<Rightarrow> akernel" where
  "a_timedBlock p d a =
     (let t = arunning a;
          time = d + atime a;
          a = a_status t TIMEDWAITING a;
          a = a_thread t (timeForWakingUp_update (\<lambda>_. time)) a;
          a = a_sem p (\<lambda>x. x\<lparr>awaiters := awaiters x @ [t]\<rparr>) a;
          a = a_insert_asleep t a;
          a = a_sem p (\<lambda>x. x\<lparr>atimed := atimed x + 1\<rparr>) a
      in a_thread t (mySem_update (\<lambda>_. p)) a)"

definition a_dec :: "u64 \<Rightarrow> akernel \<Rightarrow> akernel" where
  "a_dec p a = a_sem p (\<lambda>x. x\<lparr>aval := aval x - 1\<rparr>) a"

definition a_inc :: "u64 \<Rightarrow> akernel \<Rightarrow> akernel" where
  "a_inc p a = a_sem p (\<lambda>x. x\<lparr>aval := aval x + 1\<rparr>) a"

definition a_val :: "akernel \<Rightarrow> u64 \<Rightarrow> int" where
  "a_val a p = (case asems a p of None \<Rightarrow> 0 | Some x \<Rightarrow> sint (aval x))"

definition a_queue :: "akernel \<Rightarrow> u64 \<Rightarrow> u64 list" where
  "a_queue a p = (case asems a p of None \<Rightarrow> [] | Some x \<Rightarrow> awaiters x)"

definition a_wait :: "(u64 \<Rightarrow> resume_point) \<Rightarrow> u64 \<Rightarrow> akernel \<Rightarrow> int option \<times> akernel" where
  "a_wait k p a = (let a = a_dec p a in
     if 0 \<le> a_val a p then (Some SEM_DIDNTWAIT, a) else (None, a_dispatch (k p) (a_block p a)))"

definition a_timedWait :: "u64 \<Rightarrow> u64 \<Rightarrow> akernel \<Rightarrow> int option \<times> akernel" where
  "a_timedWait p d a = (let a = a_dec p a in
     if 0 \<le> a_val a p then (Some SEM_DIDNTWAIT, a) else (None, a_dispatch (In_timedWait p) (a_timedBlock p d a)))"

definition a_answer :: "akernel \<Rightarrow> int \<times> akernel" where
  "a_answer a = (wait_answer (semStatus (the (athreads a (arunning a)))), a_status (arunning a) NON_WAITING a)"

definition a_wait_resume :: "akernel \<Rightarrow> int \<times> akernel" where
  "a_wait_resume a = a_answer (a_thread (arunning a) (mySem_update (\<lambda>_. 0)) a)"

definition a_timedWait_resume :: "u64 \<Rightarrow> akernel \<Rightarrow> int \<times> akernel" where
  "a_timedWait_resume p a =
     (let a = a_thread (arunning a) (mySem_update (\<lambda>_. 0)) a;
          a = a_sem p (\<lambda>x. x\<lparr>atimed := atimed x - 1\<rparr>) a;
          a = a_thread (arunning a) (timeForWakingUp_update (\<lambda>_. 0)) a
      in a_answer a)"

definition a_release :: "threadsSemStatus \<Rightarrow> u64 \<Rightarrow> akernel \<Rightarrow> akernel" where
  "a_release cause t a = a_put t (a_status t cause (a_thread t (mySem_update (\<lambda>_. 0)) a))"

definition a_unblock :: "threadsSemStatus \<Rightarrow> u64 \<Rightarrow> akernel \<Rightarrow> akernel" where
  "a_unblock cause p a =
     (let t = hd (a_queue a p);
          a = a_sem p (\<lambda>x. x\<lparr>awaiters := tl (awaiters x)\<rparr>) a;
          a = (if semStatus (the (athreads a t)) = TIMEDWAITING then a\<lparr>aasleep := remove1 t (aasleep a)\<rparr> else a)
      in a_release cause t a)"

definition a_signal :: "u64 \<Rightarrow> akernel \<Rightarrow> int \<times> akernel" where
  "a_signal p a = (let a = a_inc p a in
     if 0 < a_val a p then (0, a) else (1, a_unblock REGULARLY_WAITED p a))"

definition a_timeout :: "u64 \<Rightarrow> u64 \<Rightarrow> akernel \<Rightarrow> akernel" where
  "a_timeout p t a =
     (let a = a_inc p a;
          a = a\<lparr>aasleep := remove1 t (aasleep a)\<rparr>;
          a = a_sem p (\<lambda>x. x\<lparr>awaiters := remove1 t (awaiters x)\<rparr>) a
      in a_release TIMEOUT t a)"

primrec a_unblockAll :: "threadsSemStatus \<Rightarrow> u64 \<Rightarrow> nat \<Rightarrow> akernel \<Rightarrow> akernel" where
  "a_unblockAll cause p 0 a = a"
| "a_unblockAll cause p (Suc n) a = a_unblockAll cause p n (a_inc p (a_unblock cause p a))"

definition a_close :: "u64 \<Rightarrow> akernel \<Rightarrow> akernel" where
  "a_close p a =
     (let a = a_unblockAll SEM_DELETED p (nat (- a_val a p)) a
      in a\<lparr>aallsems := remove1 p (aallsems a), anumsems := anumsems a - 1, asems := (asems a)(p := None)\<rparr>)"

definition a_open :: "u64 \<Rightarrow> u64 \<Rightarrow> akernel \<Rightarrow> akernel" where
  "a_open p v a = a\<lparr>asems := (asems a)(p \<mapsto> \<lparr>aval = v, awaiters = [], atimed = 0\<rparr>),
     aallsems := aallsems a @ [p], anumsems := anumsems a + 1\<rparr>"

subsection \<open>The timer\<close>

definition a_wake :: "u64 \<Rightarrow> akernel \<Rightarrow> akernel" where
  "a_wake t a =
     (let x = the (athreads a t) in
      if semStatus x = TIMEDWAITING then a_timeout (mySem x) t a
      else a_put t (a\<lparr>aasleep := remove1 t (aasleep a)\<rparr>))"

fun a_wake_list :: "u64 list \<Rightarrow> akernel \<Rightarrow> akernel" where
  "a_wake_list [] a = a"
| "a_wake_list (t # ts) a = (if a_wake_time a t \<le> atime a then a_wake_list ts (a_wake t a) else a)"

definition a_tick :: "akernel \<Rightarrow> bool \<times> akernel" where
  "a_tick a =
     (let a = a\<lparr>asip := Bit_Operations.and (asip a) (Bit_Operations.not SIP_SSIP), atime := atime a + 1, acpu := acpu a + 1\<rparr>;
          a = a_wake_list (aasleep a) a
      in if timeSlice (the (athreads a (arunning a))) \<le> acpu a then (True, a_dispatch In_timer a) else (False, a))"

end
