(* ===== verification/RefineBase.thy ===== *)
theory RefineBase
  imports AbstractKernel HeapInterface
begin

text \<open>
  The abstraction function from the kernel's state to the abstract kernel, the ownership of memory by
  the kernel's objects, and the refinement lemmas of the list operations and of the accessors of threads
  and semaphores.
\<close>

subsection \<open>Abstraction\<close>

definition abs_sem :: "sem \<Rightarrow> asem" where
  "abs_sem x = \<lparr>aval = val x, awaiters = datas (queueBlocked x), atimed = numOfTimedWaiting x\<rparr>"

definition abs :: "kernel \<Rightarrow> akernel" where
  "abs s = \<lparr>athreads = threads s, asems = map_option abs_sem \<circ> sems s, arunning = running s,
     aready = datas (queueThreads s), aasleep = datas (listAsleepThreads s), aallsems = datas (allSemaphores s),
     anumsems = numOfAllSemaphores s, aID = ID s, asystem = numOfSystemThreads s, atime = SYS_TIME s,
     acpu = runningThread_CPU_time s, anumasleep = numOfThreadsAsleep s, acon = con s, asip = sip s, aumem = umem s\<rparr>"

lemma abs_sel [simp]:
  "athreads (abs s) = threads s" "asems (abs s) p = map_option abs_sem (sems s p)" "arunning (abs s) = running s"
  "aready (abs s) = datas (queueThreads s)" "aasleep (abs s) = datas (listAsleepThreads s)"
  "aallsems (abs s) = datas (allSemaphores s)" "anumsems (abs s) = numOfAllSemaphores s" "aID (abs s) = ID s"
  "asystem (abs s) = numOfSystemThreads s" "atime (abs s) = SYS_TIME s" "acpu (abs s) = runningThread_CPU_time s"
  "anumasleep (abs s) = numOfThreadsAsleep s" "acon (abs s) = con s" "asip (abs s) = sip s" "aumem (abs s) = umem s"
  by (simp_all add: abs_def)

lemma abs_upd [simp]:
  "abs (s\<lparr>kheap := h\<rparr>) = abs s"
  "abs (s\<lparr>queueThreads := q\<rparr>) = (abs s)\<lparr>aready := datas q\<rparr>"
  "abs (s\<lparr>listAsleepThreads := q\<rparr>) = (abs s)\<lparr>aasleep := datas q\<rparr>"
  "abs (s\<lparr>allSemaphores := q\<rparr>) = (abs s)\<lparr>aallsems := datas q\<rparr>"
  "abs (s\<lparr>numOfAllSemaphores := n\<rparr>) = (abs s)\<lparr>anumsems := n\<rparr>"
  "abs (s\<lparr>threads := m'\<rparr>) = (abs s)\<lparr>athreads := m'\<rparr>"
  "m = sems s \<Longrightarrow> abs (s\<lparr>sems := m(p \<mapsto> x)\<rparr>) = (abs s)\<lparr>asems := (asems (abs s))(p \<mapsto> abs_sem x)\<rparr>"
  "m = sems s \<Longrightarrow> abs (s\<lparr>sems := m(p := None)\<rparr>) = (abs s)\<lparr>asems := (asems (abs s))(p := None)\<rparr>"
  "abs (s\<lparr>running := t\<rparr>) = (abs s)\<lparr>arunning := t\<rparr>"
  "abs (s\<lparr>ID := n\<rparr>) = (abs s)\<lparr>aID := n\<rparr>"
  "abs (s\<lparr>numOfSystemThreads := n\<rparr>) = (abs s)\<lparr>asystem := n\<rparr>"
  "abs (s\<lparr>SYS_TIME := n\<rparr>) = (abs s)\<lparr>atime := n\<rparr>"
  "abs (s\<lparr>runningThread_CPU_time := n\<rparr>) = (abs s)\<lparr>acpu := n\<rparr>"
  "abs (s\<lparr>numOfThreadsAsleep := n\<rparr>) = (abs s)\<lparr>anumasleep := n\<rparr>"
  "abs (s\<lparr>con := c\<rparr>) = (abs s)\<lparr>acon := c\<rparr>"
  "abs (s\<lparr>sip := n\<rparr>) = (abs s)\<lparr>asip := n\<rparr>"
  "abs (s\<lparr>umem := u\<rparr>) = (abs s)\<lparr>aumem := u\<rparr>"
  by (auto simp: abs_def fun_eq_iff)

lemma abs_sem_upd [simp]:
  "abs_sem (x\<lparr>val := v\<rparr>) = (abs_sem x)\<lparr>aval := v\<rparr>"
  "abs_sem (x\<lparr>queueBlocked := q\<rparr>) = (abs_sem x)\<lparr>awaiters := datas q\<rparr>"
  "abs_sem (x\<lparr>numOfTimedWaiting := v\<rparr>) = (abs_sem x)\<lparr>atimed := v\<rparr>"
  "aval (abs_sem x) = val x" "awaiters (abs_sem x) = datas (queueBlocked x)" "atimed (abs_sem x) = numOfTimedWaiting x"
  by (simp_all add: abs_sem_def)

subsection \<open>Ownership of memory\<close>

datatype list_id = Ready | Asleep | AllSems | Blocked u64

fun lists :: "kernel \<Rightarrow> list_id \<Rightarrow> klist" where
  "lists s Ready = queueThreads s"
| "lists s Asleep = listAsleepThreads s"
| "lists s AllSems = allSemaphores s"
| "lists s (Blocked p) = (case sems s p of None \<Rightarrow> [] | Some x \<Rightarrow> queueBlocked x)"

definition stacks :: "kernel \<Rightarrow> u64 \<rightharpoonup> u64" where
  "stacks s = map_option stack \<circ> threads s"

text \<open>Which live pointers are whose: list cells are one block, threads two, semaphores one, stacks 65.\<close>

definition owned :: "(list_id \<Rightarrow> klist) \<Rightarrow> (u64 \<rightharpoonup> u64) \<Rightarrow> u64 set \<Rightarrow> (u64 \<rightharpoonup> nat) \<Rightarrow> bool" where
  "owned ls st se L \<longleftrightarrow>
     (\<forall>i. distinct (cellptrs (ls i))) \<and>
     (\<forall>i j. i \<noteq> j \<longrightarrow> fst ` set (ls i) \<inter> fst ` set (ls j) = {}) \<and>
     (\<forall>i. \<forall>c\<in>fst ` set (ls i). L c = Some 1 \<and> c \<notin> se) \<and>
     (\<forall>t k. st t = Some k \<longrightarrow> L t = Some 2 \<and> (k \<noteq> 0 \<longrightarrow> L k = Some 65)) \<and>
     (\<forall>t u k. st t = Some k \<longrightarrow> st u = Some k \<longrightarrow> k \<noteq> 0 \<longrightarrow> t = u) \<and>
     (\<forall>p\<in>se. L p = Some 1)"

definition kptrs :: "(list_id \<Rightarrow> klist) \<Rightarrow> (u64 \<rightharpoonup> u64) \<Rightarrow> u64 set \<Rightarrow> u64 set" where
  "kptrs ls st se = (\<Union>i. fst ` set (ls i)) \<union> dom st \<union> ran st \<union> se"

text \<open>\<open>kmem s U f\<close>: the kernel's objects are live and apart, \<open>U\<close> are the live blocks of the user and
  at least \<open>f\<close> blocks are free.\<close>

definition kmem :: "kernel \<Rightarrow> (u64 \<rightharpoonup> nat) \<Rightarrow> nat \<Rightarrow> bool" where
  "kmem s U f \<longleftrightarrow> (\<exists>L g. heap_live (kheap s) L g \<and> f \<le> g \<and> owned (lists s) (stacks s) (dom (sems s)) L \<and>
     U = L |` (- kptrs (lists s) (stacks s) (dom (sems s))))"

lemma kmemE:
  assumes "kmem s U f"
  obtains L g where "heap_live (kheap s) L g" "f \<le> g" "owned (lists s) (stacks s) (dom (sems s)) L"
    "U = L |` (- kptrs (lists s) (stacks s) (dom (sems s)))"
  using assms by (auto simp: kmem_def)

lemma kmemI:
  "heap_live (kheap s) L g \<Longrightarrow> f \<le> g \<Longrightarrow> owned ls st se L \<Longrightarrow> U = L |` (- kptrs ls st se) \<Longrightarrow>
   lists s = ls \<Longrightarrow> stacks s = st \<Longrightarrow> dom (sems s) = se \<Longrightarrow> kmem s U f"
  by (auto simp: kmem_def)

lemma kmem_cong:
  "kmem s U f \<Longrightarrow> kheap s' = kheap s \<Longrightarrow> lists s' = lists s \<Longrightarrow> stacks s' = stacks s \<Longrightarrow> dom (sems s') = dom (sems s) \<Longrightarrow>
   kmem s' U f"
  by (simp add: kmem_def)

lemma kmem_mono: "kmem s U f \<Longrightarrow> g \<le> f \<Longrightarrow> kmem s U g"
  unfolding kmem_def using order_trans by blast

lemma UN_fun_upd: "(\<Union>j. F ((ls(i := x)) j)) = F x \<union> (\<Union>j\<in>- {i}. F (ls j))"
  and UN_split: "(\<Union>j. F (ls j)) = F (ls i) \<union> (\<Union>j\<in>- {i}. F (ls j))"
  by (auto split: if_splits)

lemma owned_insert:
  assumes "owned ls st se L" "L c = None" "distinct (cellptrs xs)" "fst ` set xs = insert c (fst ` set (ls i))"
  shows "owned (ls(i := xs)) st se (L(c \<mapsto> 1))" and
    "(L(c \<mapsto> 1)) |` (- kptrs (ls(i := xs)) st se) = L |` (- kptrs ls st se)"
proof -
  have o: "\<And>j. distinct (cellptrs (ls j))" "\<And>i j. i \<noteq> j \<Longrightarrow> fst ` set (ls i) \<inter> fst ` set (ls j) = {}"
    "\<And>j d. d \<in> fst ` set (ls j) \<Longrightarrow> L d = Some 1 \<and> d \<notin> se"
    "\<And>t k. st t = Some k \<Longrightarrow> L t = Some 2 \<and> (k \<noteq> 0 \<longrightarrow> L k = Some 65)"
    "\<And>t u k. st t = Some k \<Longrightarrow> st u = Some k \<Longrightarrow> k \<noteq> 0 \<Longrightarrow> t = u" "\<And>p. p \<in> se \<Longrightarrow> L p = Some 1"
    using assms(1) unfolding owned_def by blast+
  have c: "\<And>j. c \<notin> fst ` set (ls j)" "c \<notin> se" using o(3,6) assms(2) by fastforce+
  show "owned (ls(i := xs)) st se (L(c \<mapsto> 1))"
    unfolding owned_def
  proof (intro conjI allI ballI impI)
    fix j show "distinct (cellptrs ((ls(i := xs)) j))" using o(1) assms(3) by simp
  next
    fix j k :: list_id assume "j \<noteq> k"
    then show "fst ` set ((ls(i := xs)) j) \<inter> fst ` set ((ls(i := xs)) k) = {}"
      using o(2) [of j k] c(1) assms(4) o(2) [of i k] o(2) [of j i] by auto
  next
    fix j d assume "d \<in> fst ` set ((ls(i := xs)) j)"
    then have "d = c \<or> d \<in> fst ` set (ls j)" using assms(4) by (auto split: if_splits)
    then show "(L(c \<mapsto> 1)) d = Some 1" "d \<notin> se" using o(3) c by auto
  next
    fix t k assume "st t = Some k"
    then show "(L(c \<mapsto> 1)) t = Some 2" "k \<noteq> 0 \<Longrightarrow> (L(c \<mapsto> 1)) k = Some 65" using o(4) assms(2) by fastforce+
  next
    fix t u k assume "st t = Some k" "st u = Some k" "k \<noteq> 0"
    then show "t = u" by (rule o(5))
  next
    fix p assume "p \<in> se"
    then show "(L(c \<mapsto> 1)) p = Some 1" using o(6) by simp
  qed
  have "kptrs (ls(i := xs)) st se = insert c (kptrs ls st se)"
    unfolding kptrs_def UN_fun_upd [of "\<lambda>xs. fst ` set xs"] UN_split [of "\<lambda>xs. fst ` set xs" ls i] assms(4) by blast
  then show "(L(c \<mapsto> 1)) |` (- kptrs (ls(i := xs)) st se) = L |` (- kptrs ls st se)"
    using assms(2) by (auto simp: restrict_map_def fun_eq_iff)
qed

lemma owned_remove:
  assumes "owned ls st se L" "c \<in> fst ` set (ls i)" "distinct (cellptrs xs)" "fst ` set xs = fst ` set (ls i) - {c}"
  shows "owned (ls(i := xs)) st se (L(c := None))" and
    "(L(c := None)) |` (- kptrs (ls(i := xs)) st se) = L |` (- kptrs ls st se)" and "L c = Some 1"
proof -
  have o: "\<And>j. distinct (cellptrs (ls j))" "\<And>i j. i \<noteq> j \<Longrightarrow> fst ` set (ls i) \<inter> fst ` set (ls j) = {}"
    "\<And>j d. d \<in> fst ` set (ls j) \<Longrightarrow> L d = Some 1 \<and> d \<notin> se"
    "\<And>t k. st t = Some k \<Longrightarrow> L t = Some 2 \<and> (k \<noteq> 0 \<longrightarrow> L k = Some 65)"
    "\<And>t u k. st t = Some k \<Longrightarrow> st u = Some k \<Longrightarrow> k \<noteq> 0 \<Longrightarrow> t = u" "\<And>p. p \<in> se \<Longrightarrow> L p = Some 1"
    using assms(1) unfolding owned_def by blast+
  show L: "L c = Some 1" using o(3) assms(2) by blast
  have c: "c \<notin> se" "\<And>j. j \<noteq> i \<Longrightarrow> c \<notin> fst ` set (ls j)" using o(2,3) assms(2) by blast+
  show "owned (ls(i := xs)) st se (L(c := None))"
    unfolding owned_def
  proof (intro conjI allI ballI impI)
    fix j show "distinct (cellptrs ((ls(i := xs)) j))" using o(1) assms(3) by simp
  next
    fix j k :: list_id assume "j \<noteq> k"
    then show "fst ` set ((ls(i := xs)) j) \<inter> fst ` set ((ls(i := xs)) k) = {}"
      using o(2) [of j k] assms(4) by auto
  next
    fix j d assume d: "d \<in> fst ` set ((ls(i := xs)) j)"
    then have "d \<noteq> c" "d \<in> fst ` set (ls j)" using assms(4) c(2) [of j] by (cases "j = i"; auto)+
    then show "(L(c := None)) d = Some 1" "d \<notin> se" using o(3) by auto
  next
    fix t k assume "st t = Some k"
    then show "(L(c := None)) t = Some 2" "k \<noteq> 0 \<Longrightarrow> (L(c := None)) k = Some 65" using o(4) L by fastforce+
  next
    fix t u k assume "st t = Some k" "st u = Some k" "k \<noteq> 0"
    then show "t = u" by (rule o(5))
  next
    fix p assume "p \<in> se"
    then show "(L(c := None)) p = Some 1" using o(6) c(1) by auto
  qed
  have "kptrs ls st se = insert c (kptrs (ls(i := xs)) st se)"
    unfolding kptrs_def UN_fun_upd [of "\<lambda>xs. fst ` set xs"] UN_split [of "\<lambda>xs. fst ` set xs" ls i] assms(4)
    using assms(2) by blast
  then show "(L(c := None)) |` (- kptrs (ls(i := xs)) st se) = L |` (- kptrs ls st se)"
    by (auto simp: restrict_map_def fun_eq_iff)
qed

subsection \<open>List operations\<close>

lemma kmem_add:
  assumes m: "kmem s U (Suc f)" and xs: "lists s i = pre @ suf"
  obtains c h' where "new_elem d (kheap s) = Some ((c, d), h')"
    "\<And>s'. kheap s' = h' \<Longrightarrow> lists s' = (lists s)(i := pre @ (c, d) # suf) \<Longrightarrow> stacks s' = stacks s \<Longrightarrow>
       dom (sems s') = dom (sems s) \<Longrightarrow> kmem s' U f"
proof -
  from m obtain L g where m: "heap_live (kheap s) L g" "Suc f \<le> g" "owned (lists s) (stacks s) (dom (sems s)) L"
    "U = L |` (- kptrs (lists s) (stacks s) (dom (sems s)))" by (rule kmemE)
  have "0 < g" using m(2) by simp
  from kh.malloc_one_ok [OF m(1) this] obtain c h' where c: "kmalloc 1 (kheap s) = Some (c, h')" "c \<noteq> 0" "L c = None"
    "heap_live h' (L(c \<mapsto> 1)) (g - 1)" .
  have o: "\<And>j e. e \<in> fst ` set (lists s j) \<Longrightarrow> L e = Some 1" "distinct (cellptrs (lists s i))"
    using m(3) unfolding owned_def by blast+
  have "c \<notin> fst ` set (lists s i)" using o(1) c(3) by fastforce
  then have ds: "distinct (cellptrs (pre @ (c, d) # suf))" using o(2) unfolding xs by auto
  have cs: "fst ` set (pre @ (c, d) # suf) = insert c (fst ` set (lists s i))" unfolding xs by auto
  note ow = owned_insert [OF m(3) c(3) ds cs]
  have "kmem s' U f" if s': "kheap s' = h'" "lists s' = (lists s)(i := pre @ (c, d) # suf)"
    "stacks s' = stacks s" "dom (sems s') = dom (sems s)" for s'
  proof (rule kmemI [OF _ _ ow(1) _ s'(2,3,4)])
    show "heap_live (kheap s') (L(c \<mapsto> 1)) (g - 1)" using c(4) s'(1) by simp
    show "f \<le> g - 1" using m(2) by simp
    show "U = (L(c \<mapsto> 1)) |` (- kptrs ((lists s)(i := pre @ (c, d) # suf)) (stacks s) (dom (sems s)))"
      unfolding ow(2) by (rule m(4))
  qed
  with that [of c h'] c(1,2) show ?thesis by (simp add: new_elem_def)
qed

lemma kmem_del:
  assumes m: "kmem s U f" and xs: "lists s i = pre @ (c, d) # suf"
  obtains h' where "kmfree c (kheap s) = Some (0, h')"
    "\<And>s'. kheap s' = h' \<Longrightarrow> lists s' = (lists s)(i := pre @ suf) \<Longrightarrow> stacks s' = stacks s \<Longrightarrow>
       dom (sems s') = dom (sems s) \<Longrightarrow> kmem s' U (Suc f)"
proof -
  from m obtain L g where m: "heap_live (kheap s) L g" "f \<le> g" "owned (lists s) (stacks s) (dom (sems s)) L"
    "U = L |` (- kptrs (lists s) (stacks s) (dom (sems s)))" by (rule kmemE)
  have o: "distinct (cellptrs (lists s i))" using m(3) unfolding owned_def by blast
  have c: "c \<in> fst ` set (lists s i)" unfolding xs by simp
  have ys: "distinct (cellptrs (pre @ suf))" "fst ` set (pre @ suf) = fst ` set (lists s i) - {c}"
    using o unfolding xs by auto
  from kh.free_live [OF m(1) owned_remove(3) [OF m(3) c ys]] obtain h' where h': "kmfree c (kheap s) = Some (0, h')"
    "heap_live h' (L(c := None)) (g + 1)" by auto
  note ow = owned_remove [OF m(3) c ys]
  have "kmem s' U (Suc f)" if s': "kheap s' = h'" "lists s' = (lists s)(i := pre @ suf)"
    "stacks s' = stacks s" "dom (sems s') = dom (sems s)" for s'
  proof (rule kmemI [OF _ _ ow(1) _ s'(2,3,4)])
    show "heap_live (kheap s') (L(c := None)) (g + 1)" using h'(2) s'(1) by simp
    show "Suc f \<le> g + 1" using m(2) by simp
    show "U = (L(c := None)) |` (- kptrs ((lists s)(i := pre @ suf)) (stacks s) (dom (sems s)))"
      unfolding ow(2) by (rule m(4))
  qed
  with that h'(1) show ?thesis by simp
qed

lemma lists_eqI:
  "(ls Ready = ms Ready) \<Longrightarrow> ls Asleep = ms Asleep \<Longrightarrow> ls AllSems = ms AllSems \<Longrightarrow>
   (\<And>p. ls (Blocked p) = ms (Blocked p)) \<Longrightarrow> ls = ms"
proof (rule ext)
  fix i assume "ls Ready = ms Ready" "ls Asleep = ms Asleep" "ls AllSems = ms AllSems" "\<And>p. ls (Blocked p) = ms (Blocked p)"
  then show "ls i = ms i" by (cases i) auto
qed

lemma lists_upd [simp]:
  "lists (s\<lparr>kheap := h\<rparr>) = lists s"
  "lists (s\<lparr>queueThreads := q\<rparr>) = (lists s)(Ready := q)"
  "lists (s\<lparr>listAsleepThreads := q\<rparr>) = (lists s)(Asleep := q)"
  "lists (s\<lparr>allSemaphores := q\<rparr>) = (lists s)(AllSems := q)"
  "lists (s\<lparr>numOfAllSemaphores := n\<rparr>) = lists s" "lists (s\<lparr>threads := m\<rparr>) = lists s"
  "lists (s\<lparr>running := t\<rparr>) = lists s" "lists (s\<lparr>ID := n\<rparr>) = lists s" "lists (s\<lparr>numOfSystemThreads := n\<rparr>) = lists s"
  "lists (s\<lparr>SYS_TIME := n\<rparr>) = lists s" "lists (s\<lparr>runningThread_CPU_time := n\<rparr>) = lists s"
  "lists (s\<lparr>numOfThreadsAsleep := n\<rparr>) = lists s" "lists (s\<lparr>con := c\<rparr>) = lists s" "lists (s\<lparr>sip := n\<rparr>) = lists s"
  "lists (s\<lparr>umem := u\<rparr>) = lists s"
  "m' = sems s \<Longrightarrow> lists (s\<lparr>sems := m'(p \<mapsto> x)\<rparr>) = (lists s)(Blocked p := queueBlocked x)"
  "m' = sems s \<Longrightarrow> lists (s\<lparr>sems := m'(p := None)\<rparr>) = (lists s)(Blocked p := [])"
  by (rule lists_eqI; simp)+

lemma stacks_upd [simp]:
  "stacks (s\<lparr>kheap := h\<rparr>) = stacks s" "stacks (s\<lparr>queueThreads := q\<rparr>) = stacks s"
  "stacks (s\<lparr>listAsleepThreads := q\<rparr>) = stacks s" "stacks (s\<lparr>allSemaphores := q\<rparr>) = stacks s"
  "stacks (s\<lparr>numOfAllSemaphores := n\<rparr>) = stacks s" "stacks (s\<lparr>running := t\<rparr>) = stacks s"
  "stacks (s\<lparr>ID := n\<rparr>) = stacks s" "stacks (s\<lparr>numOfSystemThreads := n\<rparr>) = stacks s"
  "stacks (s\<lparr>SYS_TIME := n\<rparr>) = stacks s" "stacks (s\<lparr>runningThread_CPU_time := n\<rparr>) = stacks s"
  "stacks (s\<lparr>numOfThreadsAsleep := n\<rparr>) = stacks s" "stacks (s\<lparr>con := c\<rparr>) = stacks s" "stacks (s\<lparr>sip := n\<rparr>) = stacks s"
  "stacks (s\<lparr>umem := u\<rparr>) = stacks s" "stacks (s\<lparr>sems := m\<rparr>) = stacks s"
  by (simp_all add: stacks_def)

lemma stacks_thread: "threads s t = Some x \<Longrightarrow> stack y = stack x \<Longrightarrow> stacks (s\<lparr>threads := (threads s)(t \<mapsto> y)\<rparr>) = stacks s"
  by (auto simp: stacks_def fun_eq_iff)

lemma put_ok:
  assumes "kmem s U (Suc f)"
  obtains s' where "put t s = Some s'" "kmem s' U f" "abs s' = a_put t (abs s)"
proof -
  have xs: "lists s Ready = queueThreads s @ []" by simp
  obtain c h' where c: "new_elem t (kheap s) = Some ((c, t), h')"
    "\<And>s'. kheap s' = h' \<Longrightarrow> lists s' = (lists s)(Ready := queueThreads s @ [(c, t)]) \<Longrightarrow> stacks s' = stacks s \<Longrightarrow>
       dom (sems s') = dom (sems s) \<Longrightarrow> kmem s' U f"
    by (rule kmem_add [OF assms xs, of t]) auto
  show ?thesis
    by (rule that [of "s\<lparr>queueThreads := queueThreads s @ [(c, t)], kheap := h'\<rparr>"])
      (use c in \<open>simp_all add: put_def k_addLast_def a_put_def\<close>)
qed

lemma get_ok:
  assumes "kmem s U f" "datas (queueThreads s) = t # ts"
  obtains s' where "get s = Some (t, s')" "kmem s' U (Suc f)" "abs s' = (abs s)\<lparr>aready := ts\<rparr>"
proof -
  obtain c q where q: "queueThreads s = (c, t) # q" "ts = datas q" using assms(2) by (cases "queueThreads s") auto
  have xs: "lists s Ready = [] @ (c, t) # q" using q by simp
  obtain h' where h': "kmfree c (kheap s) = Some (0, h')"
    "\<And>s'. kheap s' = h' \<Longrightarrow> lists s' = (lists s)(Ready := q) \<Longrightarrow> stacks s' = stacks s \<Longrightarrow>
       dom (sems s') = dom (sems s) \<Longrightarrow> kmem s' U (Suc f)"
    by (rule kmem_del [OF assms(1) xs]) auto
  show ?thesis
    by (rule that [of "s\<lparr>queueThreads := q, kheap := h'\<rparr>"]) (use h' q in \<open>simp_all add: get_def\<close>)
qed

lemma datas_split:
  "dropWhile (\<lambda>(c, d). P d) xs = (c, d) # suf \<Longrightarrow>
   takeWhile P (datas xs) = datas (takeWhile (\<lambda>(c, d). P d) xs) \<and> dropWhile P (datas xs) = d # datas suf"
  by (induction xs) (auto split: if_splits)

lemma remove1_split: "remove1 t xs = takeWhile (\<lambda>x. x \<noteq> t) xs @ tl (dropWhile (\<lambda>x. x \<noteq> t) xs)"
  by (induction xs) auto

text \<open>\<open>k_removeSpec\<close> on any of the lists.\<close>

lemma removeSpec_kmem:
  assumes "kmem s U f" "t \<noteq> 0" "lists s i = xs"
  obtains ys h' where "k_removeSpec t xs (kheap s) = Some (t \<in> set (datas xs), ys, h')"
    "datas ys = remove1 t (datas xs)"
    "\<And>s'. kheap s' = h' \<Longrightarrow> lists s' = (lists s)(i := ys) \<Longrightarrow> stacks s' = stacks s \<Longrightarrow>
       dom (sems s') = dom (sems s) \<Longrightarrow> kmem s' U (if t \<in> set (datas xs) then Suc f else f)"
proof (cases "dropWhile (\<lambda>(c, d). d \<noteq> t) xs")
  case Nil
  then have n: "t \<notin> set (datas xs)" by auto
  have "kmem s' U f" if "kheap s' = kheap s" "lists s' = (lists s)(i := xs)" "stacks s' = stacks s"
    "dom (sems s') = dom (sems s)" for s'
  proof -
    have "lists s' = lists s" using that(2) assms(3) by auto
    with kmem_cong [OF assms(1)] that show ?thesis by simp
  qed
  with that [of xs "kheap s"] n Nil assms(2) show ?thesis
    by (simp add: k_removeSpec_def remove1_idem del: dropWhile_eq_Nil_conv)
next
  case (Cons x suf)
  obtain c d where x: "x = (c, d)" by (cases x)
  define pre where "pre = takeWhile (\<lambda>(c, d). d \<noteq> t) xs"
  have sp: "xs = pre @ (c, d) # suf" "d = t"
    using takeWhile_dropWhile_Cons [OF Cons] x by (simp_all add: pre_def)
  have rm: "datas (pre @ suf) = remove1 t (datas xs)"
    using datas_split [of "\<lambda>d. d \<noteq> t" xs c d suf] Cons x by (simp add: remove1_split pre_def)
  have "lists s i = pre @ (c, t) # suf" using sp assms(3) by simp
  then obtain h' where h': "kmfree c (kheap s) = Some (0, h')"
    "\<And>s'. kheap s' = h' \<Longrightarrow> lists s' = (lists s)(i := pre @ suf) \<Longrightarrow> stacks s' = stacks s \<Longrightarrow>
       dom (sems s') = dom (sems s) \<Longrightarrow> kmem s' U (Suc f)"
    by (rule kmem_del [OF assms(1)]) auto
  have t: "t \<in> set (datas xs)" using sp by simp
  have "k_removeSpec t xs (kheap s) = Some (True, pre @ suf, h')"
    using Cons x h'(1) assms(2) by (simp add: k_removeSpec_def pre_def)
  with that [of "pre @ suf" h'] rm h'(2) t show ?thesis by simp
qed

subsection \<open>Runs of straight-line code\<close>

text \<open>\<open>goes m U f a\<close>: the step \<open>m\<close> does not fault and ends in a state with memory \<open>U\<close>, \<open>f\<close> and
  abstraction \<open>a\<close>; \<open>returns\<close> is the same with a result.\<close>

definition goes :: "kernel option \<Rightarrow> (u64 \<rightharpoonup> nat) \<Rightarrow> nat \<Rightarrow> akernel \<Rightarrow> bool" where
  "goes m U f a \<longleftrightarrow> (\<exists>s. m = Some s \<and> kmem s U f \<and> abs s = a)"

definition returns :: "('r \<times> kernel) option \<Rightarrow> 'r \<Rightarrow> (u64 \<rightharpoonup> nat) \<Rightarrow> nat \<Rightarrow> akernel \<Rightarrow> bool" where
  "returns m r U f a \<longleftrightarrow> (\<exists>s. m = Some (r, s) \<and> kmem s U f \<and> abs s = a)"

lemma goesI: "kmem s U f \<Longrightarrow> abs s = a \<Longrightarrow> goes (Some s) U f a"
  by (simp add: goes_def)

lemma returnsI: "kmem s U f \<Longrightarrow> abs s = a \<Longrightarrow> r = r' \<Longrightarrow> returns (Some (r, s)) r' U f a"
  by (simp add: returns_def)

lemma goes_bind: "goes m U f a \<Longrightarrow> (\<And>s. kmem s U f \<Longrightarrow> abs s = a \<Longrightarrow> goes (g s) U' f' a') \<Longrightarrow> goes (m \<bind> g) U' f' a'"
  by (auto simp: goes_def)

lemma goes_bind_eq:
  "goes m U f a \<Longrightarrow> (\<And>s. kmem s U f \<Longrightarrow> abs s = a \<Longrightarrow> m = Some s \<Longrightarrow> goes (g s) U' f' a') \<Longrightarrow> goes (m \<bind> g) U' f' a'"
  by (auto simp: goes_def)

lemma goes_bind_returns:
  "returns m r U f a \<Longrightarrow> (\<And>s. kmem s U f \<Longrightarrow> abs s = a \<Longrightarrow> goes (g r s) U' f' a') \<Longrightarrow> goes (m \<bind> (\<lambda>(r, s). g r s)) U' f' a'"
  by (auto simp: goes_def returns_def)

lemma returns_bind_goes:
  "goes m U f a \<Longrightarrow> (\<And>s. kmem s U f \<Longrightarrow> abs s = a \<Longrightarrow> returns (g s) r U' f' a') \<Longrightarrow> returns (m \<bind> g) r U' f' a'"
  by (auto simp: goes_def returns_def)

lemma returns_bind:
  "returns m r U f a \<Longrightarrow> (\<And>s. kmem s U f \<Longrightarrow> abs s = a \<Longrightarrow> returns (g r s) r' U' f' a') \<Longrightarrow>
   returns (m \<bind> (\<lambda>(r, s). g r s)) r' U' f' a'"
  by (auto simp: returns_def)

subsection \<open>Accessors\<close>

definition alive :: "akernel \<Rightarrow> u64 \<Rightarrow> bool" where
  "alive a t \<longleftrightarrow> (\<exists>x. athreads a t = Some x \<and> myMagicNumber x = THREAD_MAGIC_NUMBER)"

lemma kmem_null:
  assumes "kmem s U f"
  shows "threads s 0 = None" "sems s 0 = None" "\<And>i. 0 \<notin> fst ` set (lists s i)"
proof -
  from assms obtain L g where m: "heap_live (kheap s) L g" "owned (lists s) (stacks s) (dom (sems s)) L" by (rule kmemE)
  have "L 0 = None" using kh.null [OF m(1)] .
  have o: "\<And>j e. e \<in> fst ` set (lists s j) \<Longrightarrow> L e = Some 1" "\<And>t k. stacks s t = Some k \<Longrightarrow> L t = Some 2"
    "\<And>p. p \<in> dom (sems s) \<Longrightarrow> L p = Some 1"
    using m(2) unfolding owned_def by blast+
  show "threads s 0 = None" using o(2) [of 0] \<open>L 0 = None\<close> by (cases "threads s 0") (auto simp: stacks_def)
  show "sems s 0 = None" using o(3) [of 0] \<open>L 0 = None\<close> by (cases "sems s 0") auto
  show "0 \<notin> fst ` set (lists s i)" for i using o(1) [of 0 i] \<open>L 0 = None\<close> by auto
qed

lemma kmem_thread:
  assumes "kmem s U f" "threads s t = Some x" "stack y = stack x"
  shows "kmem (s\<lparr>threads := (threads s)(t \<mapsto> y)\<rparr>) U f"
  by (rule kmem_cong [OF assms(1)]) (simp_all add: stacks_thread [OF assms(2,3)])

lemma kmem_sem:
  assumes "kmem s U f" "sems s p = Some x" "queueBlocked y = queueBlocked x"
  shows "kmem (s\<lparr>sems := (sems s)(p \<mapsto> y)\<rparr>) U f"
  by (rule kmem_cong [OF assms(1)]) (use assms(2,3) in \<open>auto intro: lists_eqI\<close>)

lemma aliveD:
  assumes "kmem s U f" "alive (abs s) t"
  obtains x where "threads s t = Some x" "t \<noteq> 0" "myMagicNumber x = THREAD_MAGIC_NUMBER" "isThreadValid t s = Some True"
    "isFinished t s = Some (threadState x = FINISHED)"
proof -
  from assms(2) obtain x where x: "threads s t = Some x" "myMagicNumber x = THREAD_MAGIC_NUMBER" by (auto simp: alive_def)
  then have "t \<noteq> 0" using kmem_null(1) [OF assms(1)] by auto
  with x that show ?thesis by (simp add: isThreadValid_def isFinished_def)
qed

lemma upd_thread_ok:
  assumes "kmem s U f" "athreads (abs s) t = Some x" "\<And>x. stack (g x) = stack x"
  shows "goes (upd_thread t g s) U f (a_thread t g (abs s))"
  unfolding goes_def upd_thread_def using assms kmem_thread [OF assms(1), of t x "g x"] by (simp add: a_thread_def)

lemma upd_sem_ok:
  assumes "kmem s U f" "sems s p = Some x" "\<And>x. queueBlocked (g x) = queueBlocked x" "\<And>x. abs_sem (g x) = g' (abs_sem x)"
  shows "goes (upd_sem p g s) U f (a_sem p g' (abs s))"
  unfolding goes_def upd_sem_def using assms kmem_sem [OF assms(1,2), of "g x"] by (simp add: a_sem_def)

lemma set_mySem_ok:
  assumes "kmem s U f" "alive (abs s) t"
  shows "goes (set_mySem t p s) U f (a_thread t (mySem_update (\<lambda>_. p)) (abs s))"
proof -
  obtain x where x: "threads s t = Some x" "isThreadValid t s = Some True" by (rule aliveD [OF assms])
  then show ?thesis unfolding set_mySem_def using upd_thread_ok [OF assms(1), of t x] by simp
qed

lemma set_threadState_ok:
  assumes "kmem s U f" "alive (abs s) t"
  shows "returns (set_threadState t st s) 0 U f (a_thread t (threadState_update (\<lambda>_. st)) (abs s))"
proof -
  obtain x where x: "threads s t = Some x" "isThreadValid t s = Some True" by (rule aliveD [OF assms])
  have "returns (upd_thread t (threadState_update (\<lambda>_. st)) s \<bind> (\<lambda>s. Some (0 :: int, s))) 0 U f
      (a_thread t (threadState_update (\<lambda>_. st)) (abs s))"
    by (rule returns_bind_goes [OF upd_thread_ok [OF assms(1)]]) (use x in \<open>auto intro: returnsI\<close>)
  then show ?thesis unfolding set_threadState_def using x by simp
qed

lemma set_timeForWakingUp_ok:
  assumes "kmem s U f" "alive (abs s) t"
  shows "returns (set_timeForWakingUp t w s) 0 U f (a_thread t (timeForWakingUp_update (\<lambda>_. w)) (abs s))"
proof -
  obtain x where x: "threads s t = Some x" "isThreadValid t s = Some True" by (rule aliveD [OF assms])
  have "returns (upd_thread t (timeForWakingUp_update (\<lambda>_. w)) s \<bind> (\<lambda>s. Some (0 :: int, s))) 0 U f
      (a_thread t (timeForWakingUp_update (\<lambda>_. w)) (abs s))"
    by (rule returns_bind_goes [OF upd_thread_ok [OF assms(1)]]) (use x in \<open>auto intro: returnsI\<close>)
  then show ?thesis unfolding set_timeForWakingUp_def using x by simp
qed

lemma setFinished_ok:
  assumes "kmem s U f" "alive (abs s) t"
  shows "goes (setFinished t s) U f (a_thread t (threadState_update (\<lambda>_. FINISHED)) (abs s))"
proof -
  obtain x where x: "threads s t = Some x" "isThreadValid t s = Some True" by (rule aliveD [OF assms])
  then show ?thesis unfolding setFinished_def using upd_thread_ok [OF assms(1), of t x] by simp
qed

lemma set_threadsSemStatus_ok:
  assumes "kmem s U f" "alive (abs s) t" "\<not> a_finished (abs s) t"
  shows "goes (set_threadsSemStatus t st s) U f (a_status t st (abs s))"
proof -
  obtain x where x: "threads s t = Some x" "isThreadValid t s = Some True" "isFinished t s = Some (threadState x = FINISHED)"
    by (rule aliveD [OF assms(1,2)])
  then have "threadState x \<noteq> FINISHED" using assms(3) by (simp add: a_finished_def)
  then have "set_threadsSemStatus t st s = Some (s\<lparr>threads := (threads s)(t \<mapsto> x\<lparr>semStatus := st, threadState :=
      (if st = WAITING \<or> st = TIMEDWAITING then SUSPENDED else if running s = t then RUNNING else READY)\<rparr>)\<rparr>)"
    using x by (simp add: set_threadsSemStatus_def upd_thread_def)
  then show ?thesis using x(1) by (auto simp: a_status_def a_thread_def intro!: goesI kmem_thread [OF assms(1)])
qed

end
