(* ===== verification/RefineObjects.thy ===== *)
theory RefineObjects
  imports RefineBase
begin

text \<open>
  The refinement lemmas of the operations on the list of sleeping threads and on the queues of the
  semaphores, and of the construction and destruction of threads and semaphores.
\<close>

subsection \<open>The list of sleeping threads\<close>

lemma insert_asleep_ok:
  assumes m: "kmem s U (Suc f)" and t: "alive (abs s) t" and A: "set (aasleep (abs s)) \<subseteq> dom (athreads (abs s))"
  shows "goes (insert_asleep t s) U f (a_insert_asleep t (abs s))"
proof -
  obtain x where x: "threads s t = Some x" "t \<noteq> 0" using aliveD [OF m t] by metis
  let ?A = "listAsleepThreads s" and ?P = "smallerSleepTime s"
  have dom: "d \<in> dom (threads s)" if "(c, d) \<in> set ?A" for c d using A that by force
  have le: "?P d t = (a_wake_time (abs s) d < a_wake_time (abs s) t)" if "(c, d) \<in> set ?A" for c d
    using dom [OF that] x(1) by (auto simp: smallerSleepTime_def a_wake_time_def)
  let ?Q = "\<lambda>d. a_wake_time (abs s) d < a_wake_time (abs s) t"
  have tw: "takeWhile (\<lambda>(c, d). ?P d t) ?A = takeWhile (\<lambda>(c, d). ?Q d) ?A"
    "dropWhile (\<lambda>(c, d). ?P d t) ?A = dropWhile (\<lambda>(c, d). ?Q d) ?A"
    using le by (auto intro!: takeWhile_cong dropWhile_cong)
  have dt: "datas (takeWhile (\<lambda>(c, d). ?Q d) ?A) = takeWhile ?Q (datas ?A)"
    "datas (dropWhile (\<lambda>(c, d). ?Q d) ?A) = dropWhile ?Q (datas ?A)"
    by (simp_all add: takeWhile_map dropWhile_map comp_def case_prod_unfold)
  have chk: "(case dropWhile (\<lambda>(c, d). ?P d t) ?A of [] \<Rightarrow> Some () | (c, d) # _ \<Rightarrow> if t \<noteq> 0 \<and> threads s d = None then None else Some ()) = Some ()"
  proof (cases "dropWhile (\<lambda>(c, d). ?P d t) ?A")
    case (Cons y ys)
    obtain c d where y: "y = (c, d)" by (cases y)
    have "(c, d) \<in> set ?A" using takeWhile_dropWhile_Cons(1) [OF Cons] y by (metis in_set_conv_decomp)
    from dom [OF this] show ?thesis unfolding Cons y by auto
  next
    case Nil
    show ?thesis unfolding Nil by simp
  qed
  have xs: "lists s Asleep = takeWhile (\<lambda>(c, d). ?Q d) ?A @ dropWhile (\<lambda>(c, d). ?Q d) ?A" by simp
  obtain c h' where c: "new_elem t (kheap s) = Some ((c, t), h')"
    "\<And>s'. kheap s' = h' \<Longrightarrow> lists s' = (lists s)(Asleep := takeWhile (\<lambda>(c, d). ?Q d) ?A @ (c, t) # dropWhile (\<lambda>(c, d). ?Q d) ?A) \<Longrightarrow>
       stacks s' = stacks s \<Longrightarrow> dom (sems s') = dom (sems s) \<Longrightarrow> kmem s' U f"
    by (rule kmem_add [OF m xs, of t]) blast
  have "insert_asleep t s = Some (s\<lparr>listAsleepThreads := takeWhile (\<lambda>(c, d). ?Q d) ?A @ (c, t) # dropWhile (\<lambda>(c, d). ?Q d) ?A, kheap := h'\<rparr>)"
    unfolding insert_asleep_def k_insert_sorted_def tw chk [unfolded tw] using c(1) x(2) by simp
  then show ?thesis
    by (auto intro!: goesI c(2) simp: a_insert_asleep_def dt)
qed

lemma remove_from_sleep_ok:
  assumes m: "kmem s U f" and t: "t \<noteq> 0"
  shows "returns (remove_thread_from_sleep t s) (t \<in> set (aasleep (abs s))) U
    (if t \<in> set (aasleep (abs s)) then Suc f else f) ((abs s)\<lparr>aasleep := remove1 t (aasleep (abs s))\<rparr>)"
proof -
  obtain ys h' where r: "k_removeSpec t (listAsleepThreads s) (kheap s) = Some (t \<in> set (aasleep (abs s)), ys, h')"
    "datas ys = remove1 t (aasleep (abs s))"
    "\<And>s'. kheap s' = h' \<Longrightarrow> lists s' = (lists s)(Asleep := ys) \<Longrightarrow> stacks s' = stacks s \<Longrightarrow>
       dom (sems s') = dom (sems s) \<Longrightarrow> kmem s' U (if t \<in> set (aasleep (abs s)) then Suc f else f)"
    by (rule removeSpec_kmem [OF m t, of Asleep "listAsleepThreads s"]) auto
  have "kmem (s\<lparr>listAsleepThreads := ys, kheap := h'\<rparr>) U (if t \<in> set (aasleep (abs s)) then Suc f else f)"
    by (rule r(3)) simp_all
  then show ?thesis unfolding remove_thread_from_sleep_def r(1) using r(2)
    by (simp add: returns_def)
qed

subsection \<open>The queues of the semaphores\<close>

lemma sem_addLast_ok:
  assumes m: "kmem s U (Suc f)" and p: "asems (abs s) p \<noteq> None"
  shows "goes (sem_addLast p t s) U f (a_sem p (\<lambda>x. x\<lparr>awaiters := awaiters x @ [t]\<rparr>) (abs s))"
proof -
  obtain x where x: "sems s p = Some x" using p by auto
  have xs: "lists s (Blocked p) = queueBlocked x @ []" using x by simp
  obtain c h' where c: "new_elem t (kheap s) = Some ((c, t), h')"
    "\<And>s'. kheap s' = h' \<Longrightarrow> lists s' = (lists s)(Blocked p := queueBlocked x @ [(c, t)]) \<Longrightarrow> stacks s' = stacks s \<Longrightarrow>
       dom (sems s') = dom (sems s) \<Longrightarrow> kmem s' U f"
    by (rule kmem_add [OF m xs, of t]) auto
  have d: "dom (sems s) = insert p (dom (sems s))" using x by auto
  show ?thesis using x c(1)
    by (auto intro!: goesI c(2) simp: sem_addLast_def k_addLast_def upd_sem_def a_sem_def d [symmetric] split: if_splits)
qed

definition sem_removeFirst :: "u64 \<Rightarrow> kernel \<Rightarrow> (u64 \<times> kernel) option" where
  "sem_removeFirst p s = do {
     x \<leftarrow> sems s p;
     (old, q, h) \<leftarrow> k_removeFirst (queueBlocked x) (kheap s);
     s \<leftarrow> upd_sem p (queueBlocked_update (\<lambda>_. q)) (s\<lparr>kheap := h\<rparr>);
     Some (old, s)
   }"

lemma sem_removeFirst_ok:
  assumes m: "kmem s U f" and p: "asems (abs s) p \<noteq> None" "a_queue (abs s) p = t # ts"
  shows "returns (sem_removeFirst p s) t U (Suc f) (a_sem p (\<lambda>x. x\<lparr>awaiters := tl (awaiters x)\<rparr>) (abs s))"
proof -
  obtain x where x: "sems s p = Some x" using p(1) by auto
  then obtain c q where q: "queueBlocked x = (c, t) # q" using p(2) by (cases "queueBlocked x") (auto simp: a_queue_def)
  have xs: "lists s (Blocked p) = [] @ (c, t) # q" using x q by simp
  obtain h' where h': "kmfree c (kheap s) = Some (0, h')"
    "\<And>s'. kheap s' = h' \<Longrightarrow> lists s' = (lists s)(Blocked p := q) \<Longrightarrow> stacks s' = stacks s \<Longrightarrow>
       dom (sems s') = dom (sems s) \<Longrightarrow> kmem s' U (Suc f)"
    by (rule kmem_del [OF m xs]) auto
  have d: "dom (sems s) = insert p (dom (sems s))" using x by auto
  show ?thesis using x q h'(1)
    by (auto intro!: returnsI h'(2) simp: sem_removeFirst_def upd_sem_def a_sem_def d [symmetric] split: if_splits)
qed

definition sem_removeSpec :: "u64 \<Rightarrow> u64 \<Rightarrow> kernel \<Rightarrow> (bool \<times> kernel) option" where
  "sem_removeSpec p t s = do {
     x \<leftarrow> sems s p;
     (r, q, h) \<leftarrow> k_removeSpec t (queueBlocked x) (kheap s);
     s \<leftarrow> upd_sem p (queueBlocked_update (\<lambda>_. q)) (s\<lparr>kheap := h\<rparr>);
     Some (r, s)
   }"

lemma sem_removeSpec_ok:
  assumes m: "kmem s U f" and p: "asems (abs s) p \<noteq> None" "t \<noteq> 0" "t \<in> set (a_queue (abs s) p)"
  shows "returns (sem_removeSpec p t s) True U (Suc f) (a_sem p (\<lambda>x. x\<lparr>awaiters := remove1 t (awaiters x)\<rparr>) (abs s))"
proof -
  obtain x where x: "sems s p = Some x" using p(1) by auto
  have xs: "lists s (Blocked p) = queueBlocked x" using x by simp
  have t: "t \<in> set (datas (queueBlocked x))" using p(3) x by (simp add: a_queue_def)
  obtain ys h' where r: "k_removeSpec t (queueBlocked x) (kheap s) = Some (t \<in> set (datas (queueBlocked x)), ys, h')"
    "datas ys = remove1 t (datas (queueBlocked x))"
    "\<And>s'. kheap s' = h' \<Longrightarrow> lists s' = (lists s)(Blocked p := ys) \<Longrightarrow> stacks s' = stacks s \<Longrightarrow>
       dom (sems s') = dom (sems s) \<Longrightarrow> kmem s' U (if t \<in> set (datas (queueBlocked x)) then Suc f else f)"
    by (rule removeSpec_kmem [OF m p(2) xs]) auto
  have d: "dom (sems s) = insert p (dom (sems s))" using x by auto
  have "kmem (s\<lparr>kheap := h', sems := (sems s)(p \<mapsto> x\<lparr>queueBlocked := ys\<rparr>)\<rparr>) U (Suc f)"
    using r(3) [of "s\<lparr>kheap := h', sems := (sems s)(p \<mapsto> x\<lparr>queueBlocked := ys\<rparr>)\<rparr>"] t x d by simp
  then show ?thesis using x r(1,2) t
    by (auto intro!: returnsI simp: sem_removeSpec_def upd_sem_def a_sem_def)
qed

subsection \<open>Destruction of threads\<close>

lemma owned_delete:
  assumes o: "owned ls st se L" and t: "st t = Some k" and z: "L 0 = None"
  shows "owned ls (st(t := None)) se (L(k := None, t := None))" and
    "(L(k := None, t := None)) |` (- kptrs ls (st(t := None)) se) = L |` (- kptrs ls st se)"
proof -
  have o: "\<And>j. distinct (cellptrs (ls j))" "\<And>i j. i \<noteq> j \<Longrightarrow> fst ` set (ls i) \<inter> fst ` set (ls j) = {}"
    "\<And>j d. d \<in> fst ` set (ls j) \<Longrightarrow> L d = Some 1 \<and> d \<notin> se"
    "\<And>t k. st t = Some k \<Longrightarrow> L t = Some 2" "\<And>t k. st t = Some k \<Longrightarrow> k \<noteq> 0 \<Longrightarrow> L k = Some 65"
    "\<And>t u k. st t = Some k \<Longrightarrow> st u = Some k \<Longrightarrow> k \<noteq> 0 \<Longrightarrow> t = u" "\<And>p. p \<in> se \<Longrightarrow> L p = Some 1"
    using o unfolding owned_def by blast+
  have one: "d \<noteq> k \<and> d \<noteq> t" if "L d = Some 1" for d using that o(4,5) [OF t] z by (cases "k = 0") auto
  have two: "u \<noteq> k" if "st u = Some j" for u j using that o(4) [OF that] o(5) [OF t] z by (cases "k = 0") auto
  have st: "j \<noteq> k \<and> j \<noteq> t" if "st u = Some j" "u \<noteq> t" "j \<noteq> 0" for u j
    using that o(5) [OF that(1,3)] o(4) [OF t] o(6) [of u j t] t by auto
  show "owned ls (st(t := None)) se (L(k := None, t := None))"
    unfolding owned_def
  proof (intro conjI allI ballI impI)
    fix j show "distinct (cellptrs (ls j))" by (rule o(1))
  next
    fix i j :: list_id assume "i \<noteq> j" then show "fst ` set (ls i) \<inter> fst ` set (ls j) = {}" by (rule o(2))
  next
    fix j d assume "d \<in> fst ` set (ls j)"
    then show "(L(k := None, t := None)) d = Some 1" "d \<notin> se" using o(3) one by auto
  next
    fix u j assume u: "(st(t := None)) u = Some j"
    then have "st u = Some j" "u \<noteq> t" by (auto split: if_splits)
    then show "(L(k := None, t := None)) u = Some 2" "j \<noteq> 0 \<Longrightarrow> (L(k := None, t := None)) j = Some 65"
      using o(4,5) two st by auto
  next
    fix u v j assume "(st(t := None)) u = Some j" "(st(t := None)) v = Some j" "j \<noteq> 0"
    then show "u = v" using o(6) by (auto split: if_splits)
  next
    fix p assume "p \<in> se" then show "(L(k := None, t := None)) p = Some 1" using o(7) one by auto
  qed
  have "ran st \<subseteq> insert k (ran (st(t := None)))"
  proof
    fix j assume "j \<in> ran st"
    then obtain u where "st u = Some j" by (auto simp: ran_def)
    then show "j \<in> insert k (ran (st(t := None)))" using t by (cases "u = t") (auto intro: ranI)
  qed
  then have in1: "kptrs ls st se \<subseteq> insert t (insert k (kptrs ls (st(t := None)) se))"
    by (auto simp: kptrs_def)
  have in2: "kptrs ls (st(t := None)) se \<subseteq> kptrs ls st se" "t \<in> kptrs ls st se" "k \<in> kptrs ls st se"
    using t by (auto simp: kptrs_def ran_def split: if_splits)
  show "(L(k := None, t := None)) |` (- kptrs ls (st(t := None)) se) = L |` (- kptrs ls st se)"
  proof
    fix p show "((L(k := None, t := None)) |` (- kptrs ls (st(t := None)) se)) p = (L |` (- kptrs ls st se)) p"
      using in1 in2 by (cases "p = t \<or> p = k") (auto simp: restrict_map_def)
  qed
qed

lemma delete_thread_ok:
  assumes m: "kmem s U f" and t: "alive (abs s) t"
  shows "goes (delete_thread t s) U f ((abs s)\<lparr>athreads := (athreads (abs s))(t := None)\<rparr>)"
proof -
  obtain x where x: "threads s t = Some x" "isThreadValid t s = Some True" using aliveD [OF m t] by metis
  from m obtain L g where k: "heap_live (kheap s) L g" "f \<le> g" "owned (lists s) (stacks s) (dom (sems s)) L"
    "U = L |` (- kptrs (lists s) (stacks s) (dom (sems s)))" by (rule kmemE)
  have st: "stacks s t = Some (stack x)" using x by (simp add: stacks_def)
  note ow = owned_delete [OF k(3) st kh.null [OF k(1)]]
  obtain r1 h1 g1 where h1: "kmfree (stack x) (kheap s) = Some (r1, h1)" "heap_live h1 (L(stack x := None)) g1" "g \<le> g1"
    using kh.free_any [OF k(1), of "stack x"] by (metis le_add1)
  obtain r2 h2 g2 where h2: "kmfree t h1 = Some (r2, h2)" "heap_live h2 (L(stack x := None, t := None)) g2" "g1 \<le> g2"
    using kh.free_any [OF h1(2), of t] by (metis le_add1)
  let ?s = "s\<lparr>kheap := h2, threads := (threads s)(t := None)\<rparr>"
  have "delete_thread t s = Some ?s"
    using x h1(1) h2(1) by (simp add: delete_thread_def disableThread_def upd_thread_def)
  moreover have "kmem ?s U f"
  proof (rule kmemI [OF _ _ ow(1)])
    show "heap_live (kheap ?s) (L(stack x := None, t := None)) g2" using h2(2) by simp
    show "f \<le> g2" using k(2) h1(3) h2(3) by simp
    show "U = (L(stack x := None, t := None)) |` (- kptrs (lists s) ((stacks s)(t := None)) (dom (sems s)))"
      unfolding ow(2) by (rule k(4))
    show "stacks ?s = (stacks s)(t := None)" by (auto simp: stacks_def)
  qed simp_all
  ultimately show ?thesis by (simp add: goes_def)
qed

subsection \<open>Construction of threads\<close>

lemma owned_new_thread:
  assumes o: "owned ls st se L" and p: "L p = None" "p \<noteq> 0" and k: "k = 0 \<or> (L |` (- kptrs ls st se)) k = Some 65"
    and z: "L 0 = None"
  shows "owned ls (st(p \<mapsto> k)) se (L(p \<mapsto> 2))" and
    "(L(p \<mapsto> 2)) |` (- kptrs ls (st(p \<mapsto> k)) se) = (L |` (- kptrs ls st se))(k := None)"
proof -
  have o: "\<And>j. distinct (cellptrs (ls j))" "\<And>i j. i \<noteq> j \<Longrightarrow> fst ` set (ls i) \<inter> fst ` set (ls j) = {}"
    "\<And>j d. d \<in> fst ` set (ls j) \<Longrightarrow> L d = Some 1 \<and> d \<notin> se"
    "\<And>t k. st t = Some k \<Longrightarrow> L t = Some 2" "\<And>t k. st t = Some k \<Longrightarrow> k \<noteq> 0 \<Longrightarrow> L k = Some 65"
    "\<And>t u k. st t = Some k \<Longrightarrow> st u = Some k \<Longrightarrow> k \<noteq> 0 \<Longrightarrow> t = u" "\<And>p. p \<in> se \<Longrightarrow> L p = Some 1"
    using o unfolding owned_def by blast+
  have kk: "L k = Some 65" "k \<notin> kptrs ls st se" if "k \<noteq> 0" using k that by (auto simp: restrict_map_def split: if_splits)
  have np: "st p = None" using o(4) [of p] p(1) by (cases "st p") auto
  show "owned ls (st(p \<mapsto> k)) se (L(p \<mapsto> 2))"
    unfolding owned_def
  proof (intro conjI allI ballI impI)
    fix j show "distinct (cellptrs (ls j))" by (rule o(1))
  next
    fix i j :: list_id assume "i \<noteq> j" then show "fst ` set (ls i) \<inter> fst ` set (ls j) = {}" by (rule o(2))
  next
    fix j d assume "d \<in> fst ` set (ls j)"
    then show "(L(p \<mapsto> 2)) d = Some 1" "d \<notin> se" using o(3) p by fastforce+
  next
    fix u j assume u: "(st(p \<mapsto> k)) u = Some j"
    then show "(L(p \<mapsto> 2)) u = Some 2" using o(4) by (auto split: if_splits)
    show "(L(p \<mapsto> 2)) j = Some 65" if "j \<noteq> 0"
    proof -
      have "L j = Some 65" using u that kk(1) o(5) by (auto split: if_splits)
      then show ?thesis using p(1) by auto
    qed
  next
    fix u v j assume u: "(st(p \<mapsto> k)) u = Some j" "(st(p \<mapsto> k)) v = Some j" and j: "j \<noteq> 0"
    have "st w \<noteq> Some k" if "k \<noteq> 0" for w using kk(2) [OF that] by (auto simp: kptrs_def ran_def)
    then show "u = v" using u j o(6) [of u j v] by (auto split: if_splits)
  next
    fix q assume "q \<in> se" then show "(L(p \<mapsto> 2)) q = Some 1" using o(7) p by fastforce
  qed
  have "ran (st(p \<mapsto> k)) = insert k (ran st)" using np by simp
  then have "kptrs ls (st(p \<mapsto> k)) se = insert p (insert k (kptrs ls st se))" by (auto simp: kptrs_def)
  then show "(L(p \<mapsto> 2)) |` (- kptrs ls (st(p \<mapsto> k)) se) = (L |` (- kptrs ls st se))(k := None)"
    using p(1) by (auto simp: restrict_map_def fun_eq_iff)
qed

text \<open>The first part of the constructor: the object is allocated, owns its stack, and is put into the queue if it has a body.\<close>

lemma createThread_queued:
  fixes bdy ar :: u64
  assumes m: "kmem s U (f + 3)" and p: "kmalloc 2 (kheap s) = Some (p, h)" "p \<noteq> 0"
    and k: "k = (if stk \<noteq> 0 then stk - STACK_SIZE * 8 else 0)" "k = 0 \<or> U k = Some 65"
  defines "s1 \<equiv> s\<lparr>kheap := h, threads := (threads s)(p \<mapsto> new_thread bdy ar stk s)\<rparr>"
  obtains s2 where "threads s p = None" "(if bdy \<noteq> 0 then put p s1 else Some s1) = Some s2" "kmem s2 (U(k := None)) f"
    "abs s2 = (if bdy \<noteq> 0 then a_put p (abs s1) else abs s1)"
proof -
  from m obtain L g where m: "heap_live (kheap s) L g" "f + 3 \<le> g" "owned (lists s) (stacks s) (dom (sems s)) L"
    "U = L |` (- kptrs (lists s) (stacks s) (dom (sems s)))" by (rule kmemE)
  have two: "unat (2 :: u64) = 2" by simp
  from kh.malloc_law [OF m(1), of 2] p have h: "L p = None" "heap_live h (L(p \<mapsto> 2)) (g - 2)"
    unfolding two by auto
  have z: "L 0 = None" using kh.null [OF m(1)] .
  note ow = owned_new_thread [OF m(3) h(1) p(2) k(2) [unfolded m(4)] z]
  have "stacks s p = None" using m(3) h(1) unfolding owned_def by (metis option.exhaust option.distinct(1))
  then have np: "threads s p = None" by (simp add: stacks_def)
  have km1: "kmem s1 (U(k := None)) (Suc f)"
  proof (rule kmemI [OF _ _ ow(1)])
    show "heap_live (kheap s1) (L(p \<mapsto> 2)) (g - 2)" using h(2) by (simp add: s1_def)
    show "Suc f \<le> g - 2" using m(2) by simp
    show "U(k := None) = (L(p \<mapsto> 2)) |` (- kptrs (lists s) ((stacks s)(p \<mapsto> k)) (dom (sems s)))"
      unfolding ow(2) using m(4) by simp
    show "stacks s1 = (stacks s)(p \<mapsto> k)" by (auto simp: s1_def stacks_def new_thread_def k(1))
  qed (simp_all add: s1_def)
  show ?thesis
  proof (cases "bdy = 0")
    case True
    with that [of s1] np kmem_mono [OF km1, of f] show ?thesis by simp
  next
    case False
    from put_ok [OF km1, of p] obtain s2 where "put p s1 = Some s2" "kmem s2 (U(k := None)) f" "abs s2 = a_put p (abs s1)" .
    with that [of s2] np False show ?thesis by simp
  qed
qed

text \<open>The rest of the constructor as one update of the state.\<close>

definition born :: "u64 \<Rightarrow> u64 \<Rightarrow> u64 \<Rightarrow> u64 \<Rightarrow> kernel \<Rightarrow> kernel \<Rightarrow> kernel" where
  "born p bdy ar stk s s2 =
     (let first = (running s = 0 \<and> bdy = 0);
          ts = (if running s \<noteq> 0
                then (threads s)(running s := map_option (\<lambda>t. t\<lparr>numOfChildren := numOfChildren t + 1\<rparr>) (threads s (running s)))
                else threads s);
          sys = (bdy = 0 \<or> (running s \<noteq> 0 \<and> body (the (threads s (running s))) = 0))
      in s2\<lparr>threads := ts(p \<mapsto> (new_thread bdy ar stk s)\<lparr>threadState := (if first then RUNNING else READY), myID := ID s + 1,
              myMagicNumber := THREAD_MAGIC_NUMBER\<rparr>),
            running := (if first then p else running s), ID := ID s + 1,
            numOfSystemThreads := (if sys then numOfSystemThreads s + 1 else numOfSystemThreads s)\<rparr>)"

lemma createThread_born:
  assumes p: "kmalloc 2 (kheap s) = Some (p, h)" "p \<noteq> 0" and r: "running s \<noteq> 0 \<Longrightarrow> threads s (running s) \<noteq> None" "running s \<noteq> p"
    and s2: "(if bdy \<noteq> 0 then put p s1 else Some s1) = Some s2" "s1 = s\<lparr>kheap := h, threads := (threads s)(p \<mapsto> x)\<rparr>"
      "x = new_thread bdy ar stk s"
    and th: "threads s2 = (threads s)(p \<mapsto> x)" "running s2 = running s" "ID s2 = ID s" "numOfSystemThreads s2 = numOfSystemThreads s"
  shows "createThread bdy ar stk s = Some (p, born p bdy ar stk s s2)"
proof -
  have e1: "s\<lparr>kheap := h, threads := (threads (s\<lparr>kheap := h\<rparr>))(p \<mapsto> new_thread bdy ar stk (s\<lparr>kheap := h\<rparr>))\<rparr> = s1"
    "running (s\<lparr>kheap := h\<rparr>) = running s"
    by (simp_all add: s2(2,3) new_thread_def)
  have bl: "kmalloc (new_blocks SIZEOF_thread) (kheap s) = Some (p, h)" using p(1) by simp
  define m3 where "m3 = (if running s \<noteq> 0
    then (threads s2)(running s := map_option (\<lambda>t. t\<lparr>numOfChildren := numOfChildren t + 1\<rparr>) (threads s2 (running s))) else threads s2)"
  define first where "first = (running s = 0 \<and> bdy = 0)"
  define s4 where "s4 = s2\<lparr>threads := m3(p \<mapsto> if first then x\<lparr>threadState := RUNNING\<rparr> else x), running := (if first then p else running s)\<rparr>"
  have m3: "m3(p \<mapsto> x) = m3" "m3 p = Some x" using r(2) th(1) by (auto simp: m3_def fun_eq_iff)
  have e3: "(if running s \<noteq> 0 then upd_thread (running s) (\<lambda>t. t\<lparr>numOfChildren := numOfChildren t + 1\<rparr>) s2 else Some s2) = Some (s2\<lparr>threads := m3\<rparr>)"
    using r th by (auto simp: upd_thread_def m3_def)
  have "s2\<lparr>threads := m3, running := running s\<rparr> = s2\<lparr>threads := m3\<rparr>" using th(2) by (cases s2) simp
  then have e4: "(if running (s2\<lparr>threads := m3\<rparr>) = 0 \<and> bdy = 0
      then upd_thread p (threadState_update (\<lambda>_. RUNNING)) (s2\<lparr>threads := m3\<rparr>) \<bind> (\<lambda>s. Some (s\<lparr>running := p\<rparr>))
      else Some (s2\<lparr>threads := m3\<rparr>)) = Some s4"
    using m3 th(2) by (auto simp: upd_thread_def s4_def first_def)
  let ?s5 = "s4\<lparr>ID := ID s + 1, threads := (threads s4)(p \<mapsto> (if first then x\<lparr>threadState := RUNNING\<rparr> else x)\<lparr>myID := ID s + 1,
    myMagicNumber := THREAD_MAGIC_NUMBER\<rparr>)\<rparr>"
  have e5: "upd_thread p (\<lambda>t. t\<lparr>myID := ID (s4\<lparr>ID := ID s4 + 1\<rparr>), myMagicNumber := THREAD_MAGIC_NUMBER\<rparr>) (s4\<lparr>ID := ID s4 + 1\<rparr>) = Some ?s5"
    using th(3) by (simp add: upd_thread_def s4_def)
  define sys where "sys = (bdy = 0 \<or> (running s \<noteq> 0 \<and> body (the (threads s (running s))) = 0))"
  have e6: "(if bdy = 0 then Some True else if running s = 0 then Some False else threads ?s5 (running s) \<bind> (\<lambda>p. Some (body p = 0))) = Some sys"
    using r th by (auto simp: sys_def s4_def m3_def)
  have "createThread bdy ar stk s = Some (p, if sys then ?s5\<lparr>numOfSystemThreads := numOfSystemThreads ?s5 + 1\<rparr> else ?s5)"
    unfolding createThread_def bl
    by (simp only: Option.bind.bind_lunit prod.case Let_def p(2) if_False e1 s2(1) e3 e4 e5 e6)
  moreover have "(if sys then ?s5\<lparr>numOfSystemThreads := numOfSystemThreads ?s5 + 1\<rparr> else ?s5) = born p bdy ar stk s s2"
    using r(2) th by (cases s2) (auto simp: born_def Let_def s4_def m3_def sys_def first_def s2(3) new_thread_def fun_eq_iff)
  ultimately show ?thesis by simp
qed

lemma createThread_ok:
  assumes m: "kmem s U (f + 3)" and p: "kmalloc 2 (kheap s) = Some (p, h)" "p \<noteq> 0"
    and k: "k = (if stk \<noteq> 0 then stk - STACK_SIZE * 8 else 0)" "k = 0 \<or> U k = Some 65"
    and r: "running s \<noteq> 0 \<Longrightarrow> threads s (running s) \<noteq> None"
  shows "returns (createThread bdy ar stk s) p (U(k := None)) f (a_create p bdy ar k (abs s))" and "threads s p = None"
proof -
  let ?x = "new_thread bdy ar stk s" and ?s1 = "s\<lparr>kheap := h, threads := (threads s)(p \<mapsto> new_thread bdy ar stk s)\<rparr>"
  obtain s2 where np: "threads s p = None" and s2: "(if bdy \<noteq> 0 then put p ?s1 else Some ?s1) = Some s2" "kmem s2 (U(k := None)) f"
    "abs s2 = (if bdy \<noteq> 0 then a_put p (abs ?s1) else abs ?s1)" by (rule createThread_queued [OF m p k])
  show "threads s p = None" by (rule np)
  have nr: "running s \<noteq> p" using r np p(2) by auto
  have th: "threads s2 = (threads s)(p \<mapsto> ?x)" "running s2 = running s" "ID s2 = ID s" "numOfSystemThreads s2 = numOfSystemThreads s"
    using arg_cong [OF s2(3), of athreads] arg_cong [OF s2(3), of arunning] arg_cong [OF s2(3), of aID]
      arg_cong [OF s2(3), of asystem] by (simp_all add: a_put_def split: if_splits)
  let ?s6 = "born p bdy ar stk s s2"
  have run: "createThread bdy ar stk s = Some (p, ?s6)" by (rule createThread_born [OF p r nr s2(1) refl refl th])
  show "returns (createThread bdy ar stk s) p (U(k := None)) f (a_create p bdy ar k (abs s))"
  proof (unfold run, rule returnsI)
    have st: "stacks ?s6 = stacks s2"
      using nr th(1) by (auto simp: stacks_def born_def Let_def fun_eq_iff option.map_comp comp_def)
    show "kmem ?s6 (U(k := None)) f" by (rule kmem_cong [OF s2(2) _ _ st]) (simp_all add: born_def Let_def)
    have "abs ?s6 = (abs s2)\<lparr>athreads := threads ?s6, arunning := running ?s6, aID := ID ?s6, asystem := numOfSystemThreads ?s6\<rparr>"
      by (simp add: born_def Let_def)
    then show "abs ?s6 = a_create p bdy ar k (abs s)"
      unfolding a_create_def Let_def s2(3)
      by (cases "running s = 0"; cases "bdy = 0") (simp_all add: a_put_def a_thread_def born_def Let_def new_thread_def k(1))
  qed (rule refl)
qed

subsection \<open>Construction and destruction of semaphores\<close>

lemma owned_new_sem:
  assumes o: "owned ls st se L" and p: "L p = None"
  shows "owned ls st (insert p se) (L(p \<mapsto> 1))" and
    "(L(p \<mapsto> 1)) |` (- kptrs ls st (insert p se)) = L |` (- kptrs ls st se)" and "p \<notin> se"
proof -
  have o: "\<And>j. distinct (cellptrs (ls j))" "\<And>i j. i \<noteq> j \<Longrightarrow> fst ` set (ls i) \<inter> fst ` set (ls j) = {}"
    "\<And>j d. d \<in> fst ` set (ls j) \<Longrightarrow> L d = Some 1 \<and> d \<notin> se"
    "\<And>t k. st t = Some k \<Longrightarrow> L t = Some 2" "\<And>t k. st t = Some k \<Longrightarrow> k \<noteq> 0 \<Longrightarrow> L k = Some 65"
    "\<And>t u k. st t = Some k \<Longrightarrow> st u = Some k \<Longrightarrow> k \<noteq> 0 \<Longrightarrow> t = u" "\<And>p. p \<in> se \<Longrightarrow> L p = Some 1"
    using o unfolding owned_def by blast+
  show "p \<notin> se" using o(7) p by fastforce
  show "owned ls st (insert p se) (L(p \<mapsto> 1))"
    unfolding owned_def
  proof (intro conjI allI ballI impI)
    fix j show "distinct (cellptrs (ls j))" by (rule o(1))
  next
    fix i j :: list_id assume "i \<noteq> j" then show "fst ` set (ls i) \<inter> fst ` set (ls j) = {}" by (rule o(2))
  next
    fix j d assume d: "d \<in> fst ` set (ls j)"
    then have "d \<noteq> p" using o(3) p by fastforce
    with d show "(L(p \<mapsto> 1)) d = Some 1" "d \<notin> insert p se" using o(3) by auto
  next
    fix u j assume u: "st u = Some j"
    show "(L(p \<mapsto> 1)) u = Some 2" using o(4) [OF u] p by auto
    show "(L(p \<mapsto> 1)) j = Some 65" if "j \<noteq> 0" using o(5) [OF u that] p by auto
  next
    fix u v j assume "st u = Some j" "st v = Some j" "j \<noteq> 0"
    then show "u = v" by (rule o(6))
  next
    fix q assume "q \<in> insert p se" then show "(L(p \<mapsto> 1)) q = Some 1" using o(7) by auto
  qed
  have "kptrs ls st (insert p se) = insert p (kptrs ls st se)" by (auto simp: kptrs_def)
  then show "(L(p \<mapsto> 1)) |` (- kptrs ls st (insert p se)) = L |` (- kptrs ls st se)"
    using p by (auto simp: restrict_map_def fun_eq_iff)
qed

lemma owned_delete_sem:
  assumes o: "owned ls st se L" and p: "p \<in> se"
  shows "owned ls st (se - {p}) (L(p := None))" and
    "(L(p := None)) |` (- kptrs ls st (se - {p})) = L |` (- kptrs ls st se)" and "L p = Some 1"
proof -
  have o: "\<And>j. distinct (cellptrs (ls j))" "\<And>i j. i \<noteq> j \<Longrightarrow> fst ` set (ls i) \<inter> fst ` set (ls j) = {}"
    "\<And>j d. d \<in> fst ` set (ls j) \<Longrightarrow> L d = Some 1 \<and> d \<notin> se"
    "\<And>t k. st t = Some k \<Longrightarrow> L t = Some 2" "\<And>t k. st t = Some k \<Longrightarrow> k \<noteq> 0 \<Longrightarrow> L k = Some 65"
    "\<And>t u k. st t = Some k \<Longrightarrow> st u = Some k \<Longrightarrow> k \<noteq> 0 \<Longrightarrow> t = u" "\<And>p. p \<in> se \<Longrightarrow> L p = Some 1"
    using o unfolding owned_def by blast+
  show p1: "L p = Some 1" by (rule o(7) [OF p])
  show "owned ls st (se - {p}) (L(p := None))"
    unfolding owned_def
  proof (intro conjI allI ballI impI)
    fix j show "distinct (cellptrs (ls j))" by (rule o(1))
  next
    fix i j :: list_id assume "i \<noteq> j" then show "fst ` set (ls i) \<inter> fst ` set (ls j) = {}" by (rule o(2))
  next
    fix j d assume d: "d \<in> fst ` set (ls j)"
    then have "d \<noteq> p" using o(3) p by auto
    with d show "(L(p := None)) d = Some 1" "d \<notin> se - {p}" using o(3) by auto
  next
    fix u j assume u: "st u = Some j"
    show "(L(p := None)) u = Some 2" using o(4) [OF u] p1 by auto
    show "(L(p := None)) j = Some 65" if "j \<noteq> 0" using o(5) [OF u that] p1 by auto
  next
    fix u v j assume "st u = Some j" "st v = Some j" "j \<noteq> 0"
    then show "u = v" by (rule o(6))
  next
    fix q assume "q \<in> se - {p}" then show "(L(p := None)) q = Some 1" using o(7) by auto
  qed
  have "kptrs ls st se = insert p (kptrs ls st (se - {p}))" using p by (auto simp: kptrs_def)
  then show "(L(p := None)) |` (- kptrs ls st (se - {p})) = L |` (- kptrs ls st se)"
    by (auto simp: restrict_map_def fun_eq_iff)
qed

lemma new_sem_ok:
  assumes m: "kmem s U (Suc (Suc f))"
  obtains p where "returns (new_sem v s) p U f (a_open p v (abs s))" "p \<noteq> 0" "sems s p = None"
proof -
  from m obtain L g where m: "heap_live (kheap s) L g" "Suc (Suc f) \<le> g" "owned (lists s) (stacks s) (dom (sems s)) L"
    "U = L |` (- kptrs (lists s) (stacks s) (dom (sems s)))" by (rule kmemE)
  have "0 < g" using m(2) by simp
  from kh.malloc_one_ok [OF m(1) this] obtain p h where p: "kmalloc 1 (kheap s) = Some (p, h)" "p \<noteq> 0" "L p = None"
    "heap_live h (L(p \<mapsto> 1)) (g - 1)" .
  note ow = owned_new_sem [OF m(3) p(3)]
  let ?x = "\<lparr>val = v, queueBlocked = [], numOfTimedWaiting = 0\<rparr>"
  let ?s = "s\<lparr>kheap := h, sems := (sems s)(p \<mapsto> ?x)\<rparr>"
  have np: "sems s p = None" using ow(3) by (auto simp: dom_def)
  have ls: "lists ?s = lists s" using np by (intro lists_eqI) auto
  have km: "kmem ?s U (Suc f)"
  proof (rule kmemI [OF _ _ ow(1)])
    show "heap_live (kheap ?s) (L(p \<mapsto> 1)) (g - 1)" using p(4) by simp
    show "Suc f \<le> g - 1" using m(2) by simp
    show "U = (L(p \<mapsto> 1)) |` (- kptrs (lists s) (stacks s) (insert p (dom (sems s))))" unfolding ow(2) by (rule m(4))
    show "stacks ?s = stacks s" "dom (sems ?s) = insert p (dom (sems s))" by simp_all
  qed (rule ls)
  have xs: "lists ?s AllSems = allSemaphores s @ []" by simp
  obtain c h' where c: "new_elem p (kheap ?s) = Some ((c, p), h')"
    "\<And>s'. kheap s' = h' \<Longrightarrow> lists s' = (lists ?s)(AllSems := allSemaphores s @ [(c, p)]) \<Longrightarrow> stacks s' = stacks ?s \<Longrightarrow>
       dom (sems s') = dom (sems ?s) \<Longrightarrow> kmem s' U f"
    by (rule kmem_add [OF km xs, of p]) auto
  let ?t = "?s\<lparr>allSemaphores := allSemaphores s @ [(c, p)], kheap := h', numOfAllSemaphores := numOfAllSemaphores s + 1\<rparr>"
  have "new_sem v s = Some (p, ?t)"
    using p(1,2) c(1) by (simp add: new_sem_def k_addLast_def)
  moreover have "kmem ?t U f" by (rule c(2)) simp_all
  moreover have "abs ?t = a_open p v (abs s)" by (simp add: a_open_def abs_sem_def)
  ultimately have "returns (new_sem v s) p U f (a_open p v (abs s))" by (simp add: returns_def)
  from that [OF this p(2) np] show ?thesis .
qed

text \<open>The end of the destructor, when no thread waits on the semaphore.\<close>

lemma remove_sem_ok:
  assumes m: "kmem s U f" and p: "asems (abs s) p \<noteq> None" "a_queue (abs s) p = []" "p \<in> set (aallsems (abs s))"
  shows "goes (do {
     (_, xs, h) \<leftarrow> k_removeSpec p (allSemaphores s) (kheap s);
     let s = s\<lparr>allSemaphores := xs, kheap := h, numOfAllSemaphores := numOfAllSemaphores s - 1\<rparr>;
     (_, h) \<leftarrow> kmfree p (kheap s);
     Some (s\<lparr>kheap := h, sems := (sems s)(p := None)\<rparr>)
   }) U (Suc (Suc f)) ((abs s)\<lparr>aallsems := remove1 p (aallsems (abs s)), anumsems := anumsems (abs s) - 1,
     asems := (asems (abs s))(p := None)\<rparr>)"
proof -
  obtain x where x: "sems s p = Some x" "queueBlocked x = []" using p(1,2) by (auto simp: a_queue_def)
  have pn: "p \<noteq> 0" using x(1) kmem_null(2) [OF m] by auto
  obtain ys h1 where r: "k_removeSpec p (allSemaphores s) (kheap s) = Some (p \<in> set (datas (allSemaphores s)), ys, h1)"
    "datas ys = remove1 p (datas (allSemaphores s))"
    "\<And>s'. kheap s' = h1 \<Longrightarrow> lists s' = (lists s)(AllSems := ys) \<Longrightarrow> stacks s' = stacks s \<Longrightarrow>
       dom (sems s') = dom (sems s) \<Longrightarrow> kmem s' U (if p \<in> set (datas (allSemaphores s)) then Suc f else f)"
    by (rule removeSpec_kmem [OF m pn, of AllSems "allSemaphores s"]) auto
  let ?s = "s\<lparr>allSemaphores := ys, kheap := h1, numOfAllSemaphores := numOfAllSemaphores s - 1\<rparr>"
  have "kmem ?s U (if p \<in> set (datas (allSemaphores s)) then Suc f else f)" by (rule r(3)) simp_all
  then have "kmem ?s U (Suc f)" using p(3) by simp
  then obtain L g where k: "heap_live (kheap ?s) L g" "Suc f \<le> g" "owned (lists ?s) (stacks ?s) (dom (sems ?s)) L"
    "U = L |` (- kptrs (lists ?s) (stacks ?s) (dom (sems ?s)))" by (rule kmemE)
  have pd: "p \<in> dom (sems ?s)" using x(1) by auto
  note ow = owned_delete_sem [OF k(3) pd]
  from kh.free_live [OF k(1) ow(3)] obtain h2 where h2: "kmfree p h1 = Some (0, h2)" "heap_live h2 (L(p := None)) (g + 1)"
    by auto
  let ?t = "?s\<lparr>kheap := h2, sems := (sems s)(p := None)\<rparr>"
  have ls: "lists ?t = lists ?s" using x by (intro lists_eqI) auto
  have "kmem ?t U (Suc (Suc f))"
  proof (rule kmemI [OF _ _ ow(1) _ ls])
    show "heap_live (kheap ?t) (L(p := None)) (g + 1)" using h2(2) by simp
    show "Suc (Suc f) \<le> g + 1" using k(2) by simp
    show "U = (L(p := None)) |` (- kptrs (lists ?s) (stacks ?s) (dom (sems ?s) - {p}))" unfolding ow(2) by (rule k(4))
    show "stacks ?t = stacks ?s" "dom (sems ?t) = dom (sems ?s) - {p}" by auto
  qed
  then show ?thesis using r(1,2) h2(1) by (simp add: goes_def Let_def)
qed

end
