(* ===== verification/RefineDispatch.thy ===== *)
theory RefineDispatch
  imports RefineObjects
begin

text \<open>
  \<open>_context::dispatch\<close> implements \<open>a_dispatch\<close> while a block of memory is free for the queue.
\<close>

lemma threadDEAD_alive:
  assumes "kmem s U f" "alive (abs s) t"
  shows "threadDEAD t s = Some (a_finished (abs s) t)"
proof -
  obtain x where "threads s t = Some x" "t \<noteq> 0" "isThreadValid t s = Some True"
    "isFinished t s = Some (threadState x = FINISHED)" by (rule aliveD [OF assms])
  then show ?thesis by (simp add: threadDEAD_def a_finished_def)
qed

lemma deleteThread_ok:
  assumes m: "kmem s U f" and q: "aready (abs s) = t # ts" and t: "alive (abs s) t" "a_finished (abs s) t"
  shows "goes (deleteThread_inDispatch t s) U (Suc f)
    ((abs s)\<lparr>aready := ts, athreads := (athreads (abs s))(t := None)\<rparr>)"
proof -
  obtain x where x: "t \<noteq> 0" "threads s t = Some x" using aliveD [OF m t(1)] by metis
  obtain ys h' where r: "k_removeSpec t (queueThreads s) (kheap s) = Some (t \<in> set (datas (queueThreads s)), ys, h')"
    "datas ys = remove1 t (datas (queueThreads s))"
    "\<And>s'. kheap s' = h' \<Longrightarrow> lists s' = (lists s)(Ready := ys) \<Longrightarrow> stacks s' = stacks s \<Longrightarrow>
       dom (sems s') = dom (sems s) \<Longrightarrow> kmem s' U (if t \<in> set (datas (queueThreads s)) then Suc f else f)"
    by (rule removeSpec_kmem [OF m x(1), of Ready "queueThreads s"]) auto
  let ?s = "s\<lparr>queueThreads := ys, kheap := h'\<rparr>"
  have t': "t \<in> set (datas (queueThreads s))" using q by simp
  have "kmem ?s U (if t \<in> set (datas (queueThreads s)) then Suc f else f)" by (rule r(3)) simp_all
  with t' have km: "kmem ?s U (Suc f)" by (simp only: if_True)
  have ab: "abs ?s = (abs s)\<lparr>aready := ts\<rparr>" using r(2) q by simp
  have al: "alive (abs ?s) t" using t(1) by (simp add: alive_def)
  have fi: "isThreadValid t ?s = Some True" "isFinished t ?s = Some True"
    using aliveD [OF km al] t(2) x(2) by (auto simp: a_finished_def)
  have "deleteThread_inDispatch t s = delete_thread t ?s"
    using x(1) r(1) t' fi by (simp add: deleteThread_inDispatch_def)
  then show ?thesis using delete_thread_ok [OF km al] unfolding ab by simp
qed

lemma a_purge_simps:
  "aready a = [] \<Longrightarrow> a_purge a = a"
  "aready a = t # ts \<Longrightarrow> \<not> a_finished a t \<Longrightarrow> a_purge a = a"
  by (cases a; simp add: a_purge_def restrict_map_def)+

lemma a_purge_Cons:
  assumes "aready a = t # ts" "a_finished a t" "t \<notin> set ts"
  shows "a_purge a = a_purge (a\<lparr>aready := ts, athreads := (athreads a)(t := None)\<rparr>)"
proof -
  have e: "a_finished (a\<lparr>aready := ts, athreads := (athreads a)(t := None)\<rparr>) x = a_finished a x" if "x \<in> set ts" for x
    using that assms(3) by (cases "x = t") (auto simp: a_finished_def)
  have "takeWhile (a_finished (a\<lparr>aready := ts, athreads := (athreads a)(t := None)\<rparr>)) ts = takeWhile (a_finished a) ts"
    "dropWhile (a_finished (a\<lparr>aready := ts, athreads := (athreads a)(t := None)\<rparr>)) ts = dropWhile (a_finished a) ts"
    using e by (auto intro!: takeWhile_cong dropWhile_cong)
  moreover have "(athreads a)(t := None) |` (- S) = athreads a |` (- insert t S)" for S
    by (auto simp: restrict_map_def fun_eq_iff)
  ultimately show ?thesis using assms(1,2) by (simp add: a_purge_def)
qed

lemma purge_ok:
  assumes "kmem s U f" "datas xs = aready (abs s)" "distinct (aready (abs s))" "\<forall>t\<in>set (aready (abs s)). alive (abs s) t"
  shows "goes (k_foreachWhile deleteThread_inDispatch threadDEAD xs s) U f (a_purge (abs s))"
  using assms
proof (induction xs arbitrary: s)
  case Nil
  then show ?case by (auto intro: goesI simp: a_purge_simps)
next
  case (Cons y xs)
  obtain c t where y: "y = (c, t)" by (cases y)
  have q: "aready (abs s) = t # datas xs" using Cons.prems(2) y by simp
  have al: "alive (abs s) t" using Cons.prems(4) unfolding q by simp
  have dead: "threadDEAD t s = Some (a_finished (abs s) t)" by (rule threadDEAD_alive [OF Cons.prems(1) al])
  show ?case
  proof (cases "a_finished (abs s) t")
    case False
    then show ?thesis using dead y Cons.prems(1) a_purge_simps(2) [OF q] by (auto intro: goesI)
  next
    case True
    let ?a = "(abs s)\<lparr>aready := datas xs, athreads := (athreads (abs s))(t := None)\<rparr>"
    have tn: "t \<notin> set (datas xs)" "distinct (datas xs)" using Cons.prems(3) unfolding q by simp_all
    have al': "\<forall>u\<in>set (datas xs). alive ?a u"
    proof
      fix u assume u: "u \<in> set (datas xs)"
      then have "u \<noteq> t" "alive (abs s) u" using tn Cons.prems(4) unfolding q by auto
      then show "alive ?a u" by (auto simp: alive_def)
    qed
    have "goes (deleteThread_inDispatch t s \<bind> k_foreachWhile deleteThread_inDispatch threadDEAD xs) U f (a_purge ?a)"
    proof (rule goes_bind [OF deleteThread_ok [OF Cons.prems(1) q al True]])
      fix s' assume s': "kmem s' U (Suc f)" "abs s' = ?a"
      show "goes (k_foreachWhile deleteThread_inDispatch threadDEAD xs s') U f (a_purge ?a)"
        using Cons.IH [OF kmem_mono [OF s'(1), of f]] s'(2) tn al' by simp
    qed
    then show ?thesis using dead y True a_purge_Cons [OF q True tn(1)] by simp
  qed
qed

lemma a_thread_sel [simp]:
  "asems (a_thread t f a) = asems a" "arunning (a_thread t f a) = arunning a" "aready (a_thread t f a) = aready a"
  "aasleep (a_thread t f a) = aasleep a" "aallsems (a_thread t f a) = aallsems a" "atime (a_thread t f a) = atime a"
  "acpu (a_thread t f a) = acpu a" "anumsems (a_thread t f a) = anumsems a"
  "athreads (a_thread t f a) u = (if u = t then map_option f (athreads a u) else athreads a u)"
  by (simp_all add: a_thread_def)

lemma dom_a_thread [simp]: "dom (athreads (a_thread t f a)) = dom (athreads a)"
  by (auto simp: a_thread_def dom_def)

text \<open>None of the steps of a dispatch moves the heap.\<close>

lemma disableThread_place:
  assumes "disableThread t s = Some s'"
  shows "same_place (kheap s) (kheap s')"
  using assms
  by (auto simp: disableThread_def upd_thread_def Option.bind_eq_Some_conv same_place_def split: if_splits option.splits
      dest!: kmfree_place)

lemma delete_thread_place:
  assumes "delete_thread t s = Some s'"
  shows "same_place (kheap s) (kheap s')"
proof -
  obtain s1 r h where "disableThread t s = Some s1" "kmfree t (kheap s1) = Some (r, h)" "kheap s' = h"
    using assms by (auto simp: delete_thread_def Option.bind_eq_Some_conv)
  then show ?thesis using disableThread_place kmfree_place same_place_trans by metis
qed

lemma removeFirst_place: "k_removeFirst xs h = Some (d, ys, h') \<Longrightarrow> same_place h h'"
  by (cases "(xs, h)" rule: k_removeFirst.cases) (auto simp: Option.bind_eq_Some_conv dest: kmfree_place)

lemma removeSpec_place: "k_removeSpec d xs h = Some (r, ys, h') \<Longrightarrow> same_place h h'"
  by (auto simp: k_removeSpec_def Option.bind_eq_Some_conv dest: kmfree_place split: if_splits list.splits)

lemma deleteThread_place:
  assumes "deleteThread_inDispatch t s = Some s'"
  shows "same_place (kheap s) (kheap s')"
proof (cases "t = 0")
  case True
  then show ?thesis using assms by (simp add: deleteThread_inDispatch_def same_place_def)
next
  case False
  then obtain r q h where r: "k_removeSpec t (queueThreads s) (kheap s) = Some (r, q, h)"
    using assms by (auto simp: deleteThread_inDispatch_def Option.bind_eq_Some_conv)
  have "same_place h (kheap s')"
    using assms False r by (auto simp: deleteThread_inDispatch_def Option.bind_eq_Some_conv Let_def same_place_def
        split: if_splits dest!: delete_thread_place)
  then show ?thesis using removeSpec_place [OF r] same_place_trans by blast
qed

lemma purge_place:
  "k_foreachWhile deleteThread_inDispatch threadDEAD xs s = Some s' \<Longrightarrow> same_place (kheap s) (kheap s')"
proof (induction xs arbitrary: s)
  case (Cons y xs)
  obtain c t where y: "y = (c, t)" by (cases y)
  from Cons.prems obtain b where b: "threadDEAD t s = Some b" unfolding y by (auto simp: Option.bind_eq_Some_conv)
  show ?case
  proof (cases b)
    case True
    then obtain s1 where "deleteThread_inDispatch t s = Some s1" "k_foreachWhile deleteThread_inDispatch threadDEAD xs s1 = Some s'"
      using Cons.prems b unfolding y by (auto simp: Option.bind_eq_Some_conv)
    then show ?thesis using deleteThread_place Cons.IH same_place_trans by blast
  next
    case False
    then show ?thesis using Cons.prems b unfolding y by (simp add: same_place_def)
  qed
qed simp

lemma get_place: "get s = Some (t, s') \<Longrightarrow> same_place (kheap s) (kheap s')"
  by (auto simp: get_def Option.bind_eq_Some_conv dest: removeFirst_place)

lemma put_place: "put t s = Some s' \<Longrightarrow> same_place (kheap s) (kheap s')"
  by (auto simp: put_def k_addLast_def new_elem_def Option.bind_eq_Some_conv dest: kmalloc_place split: if_splits)

lemma thread_block_ptr:
  assumes "kmem s U f" "threads s t = Some x"
  shows "block_ptr (kheap s) t"
proof -
  from assms(1) obtain L g where h: "heap_live (kheap s) L g" and o: "owned (lists s) (stacks s) (dom (sems s)) L" by (rule kmemE)
  have "stacks s t = Some (stack x)" using assms(2) by (simp add: stacks_def)
  then have "L t = Some 2" using o unfolding owned_def by blast
  then show ?thesis by (rule live_block_ptr [OF h])
qed

lemma write_late_context_sel [simp]:
  "abs (write_late_context t s) = abs s" "threads (write_late_context t s) = threads s" "running (write_late_context t s) = running s"
  by (simp_all add: write_late_context_def abs_def case_prod_unfold Let_def)

text \<open>The store of the context of a deleted thread does not disturb the allocator, whose lists are in the headers.\<close>

lemma write_late_context_ok:
  assumes "kmem s U f" "block_ptr (kheap s) t"
  shows "kmem (write_late_context t s) U f"
proof -
  obtain ra sp where r: "late_regs s 0 = (ra, sp)" by (cases "late_regs s 0")
  let ?h1 = "store (t + 24) ra (kheap s)" and ?h2 = "store (t + 32) sp (store (t + 24) ra (kheap s))"
  have e: "write_late_context t s = s\<lparr>kheap := ?h2, late_regs := (\<lambda>n. late_regs s (Suc n))\<rparr>" by (simp add: write_late_context_def r)
  have "heap_live ?h2 L g" if "heap_live (kheap s) L g" for L g
  proof -
    have "block_ptr ?h1 t" using assms(2) by (simp add: block_ptr_def store_def)
    with heap_live_payload [of ?h1 L g t 32 sp] heap_live_payload [OF that assms(2), of 24 ra] show ?thesis by simp
  qed
  moreover have l: "lists (write_late_context t s) = lists s" unfolding e by (rule lists_eqI) simp_all
  ultimately show ?thesis using assms(1) unfolding kmem_def l by (auto simp: e stacks_def)
qed

lemma contextSwitch_ok:
  assumes "kmem s U f" "block_ptr (kheap s) t"
  shows "kmem (contextSwitch t k s) U f" "abs (contextSwitch t k s) = a_thread t (saved_context_update (\<lambda>_. k)) (abs s)"
proof -
  show "abs (contextSwitch t k s) = a_thread t (saved_context_update (\<lambda>_. k)) (abs s)"
    by (cases "threads s t") (auto simp: contextSwitch_def a_thread_def fun_upd_idem)
  show "kmem (contextSwitch t k s) U f"
    using kmem_thread [OF assms(1)] write_late_context_ok [OF assms] by (auto simp: contextSwitch_def split: option.splits)
qed

definition dispatchable :: "akernel \<Rightarrow> bool" where
  "dispatchable a \<longleftrightarrow> alive a (arunning a) \<and> distinct (aready (a_leave a)) \<and>
     (\<forall>t\<in>set (aready (a_leave a)). alive (a_leave a) t) \<and> (\<exists>t\<in>set (aready (a_leave a)). \<not> a_finished (a_leave a) t)"

lemma enter_ok:
  assumes m: "kmem s U f" and d: "distinct (aready (abs s))" "\<forall>t\<in>set (aready (abs s)). alive (abs s) t"
    "\<exists>t\<in>set (aready (abs s)). \<not> a_finished (abs s) t" and old: "block_ptr (kheap s) old"
  shows "goes (do {
     s \<leftarrow> k_foreachWhile deleteThread_inDispatch threadDEAD (queueThreads s) s;
     (new, s) \<leftarrow> get s;
     let s = s\<lparr>running := new\<rparr>;
     s \<leftarrow> upd_thread new (threadState_update (\<lambda>_. RUNNING)) s;
     Some (contextSwitch old k s)
   }) U (Suc f) (a_thread old (saved_context_update (\<lambda>_. k)) (a_enter (a_purge (abs s))))"
proof -
  have "dropWhile (a_finished (abs s)) (aready (abs s)) \<noteq> []" using d(3) by (auto simp: dropWhile_eq_Nil_conv)
  then obtain t ts where ts: "dropWhile (a_finished (abs s)) (aready (abs s)) = t # ts" by (cases "dropWhile (a_finished (abs s)) (aready (abs s))") auto
  then have rd: "aready (a_purge (abs s)) = t # ts" by (simp add: a_purge_def)
  have sp: "aready (abs s) = takeWhile (a_finished (abs s)) (aready (abs s)) @ t # ts" "\<not> a_finished (abs s) t"
    by (rule takeWhile_dropWhile_Cons [OF ts])+
  then obtain x where x: "athreads (abs s) t = Some x" by (auto simp: a_finished_def split: option.splits)
  have "t \<notin> set (takeWhile (a_finished (abs s)) (aready (abs s)))" using sp(2) set_takeWhileD by metis
  then have xp: "athreads (a_purge (abs s)) t = Some x" using x by (simp add: a_purge_def)
  show ?thesis
  proof (rule goes_bind_eq [OF purge_ok [OF m _ d(1,2)]])
    fix s1 assume s1: "kmem s1 U f" "abs s1 = a_purge (abs s)"
      and p: "k_foreachWhile deleteThread_inDispatch threadDEAD (queueThreads s) s = Some s1"
    have "datas (queueThreads s1) = t # ts" using arg_cong [OF s1(2), of aready] rd by simp
    from get_ok [OF s1(1) this] obtain s2 where s2: "get s1 = Some (t, s2)" "kmem s2 U (Suc f)" "abs s2 = (abs s1)\<lparr>aready := ts\<rparr>" .
    let ?s = "s2\<lparr>running := t\<rparr>"
    have km: "kmem ?s U (Suc f)" by (rule kmem_cong [OF s2(2)]) simp_all
    have pl: "block_ptr (kheap ?s) old"
      using block_ptr_place [OF same_place_trans [OF purge_place [OF p] get_place [OF s2(1)]] old] by simp
    have ab: "abs ?s = (a_purge (abs s))\<lparr>aready := ts, arunning := t\<rparr>" using s2(3) s1(2) by simp
    have th: "athreads (abs ?s) t = Some x" unfolding ab using xp by simp
    have "goes (upd_thread t (threadState_update (\<lambda>_. RUNNING)) ?s \<bind> (\<lambda>s. Some (contextSwitch old k s))) U (Suc f)
        (a_thread old (saved_context_update (\<lambda>_. k)) (a_enter (a_purge (abs s))))"
    proof (rule goes_bind_eq [OF upd_thread_ok [OF km th]])
      fix s3 assume s3: "kmem s3 U (Suc f)" "abs s3 = a_thread t (threadState_update (\<lambda>_. RUNNING)) (abs ?s)"
        and u: "upd_thread t (threadState_update (\<lambda>_. RUNNING)) ?s = Some s3"
      have b3: "block_ptr (kheap s3) old" using u pl by (auto simp: upd_thread_def split: option.splits)
      have "abs s3 = a_enter (a_purge (abs s))" unfolding s3(2) ab using rd
        by (cases "a_purge (abs s)") (simp add: a_enter_def a_thread_def)
      then show "goes (Some (contextSwitch old k s3)) U (Suc f) (a_thread old (saved_context_update (\<lambda>_. k)) (a_enter (a_purge (abs s))))"
        using contextSwitch_ok [OF s3(1) b3, of k] by (simp add: goes_def)
    qed simp
    then show "goes (get s1 \<bind> (\<lambda>(new, s). let s = s\<lparr>running := new\<rparr> in
        upd_thread new (threadState_update (\<lambda>_. RUNNING)) s \<bind> (\<lambda>s. Some (contextSwitch old k s)))) U (Suc f)
        (a_thread old (saved_context_update (\<lambda>_. k)) (a_enter (a_purge (abs s))))"
      using s2(1) by (simp add: Let_def)
  qed simp
qed

lemma dispatch_ok:
  assumes m: "kmem s U (Suc f)" and d: "dispatchable (abs s)"
  shows "goes (dispatch k s) U (Suc f) (a_dispatch k (abs s))"
proof -
  let ?t = "running s" and ?s = "s\<lparr>runningThread_CPU_time := 0\<rparr>"
  have km: "kmem ?s U (Suc f)" by (rule kmem_cong [OF m]) simp_all
  have al: "alive (abs ?s) ?t" using d by (simp add: dispatchable_def alive_def)
  from aliveD [OF km al] obtain x where x: "threads s ?t = Some x" "isFinished ?t ?s = Some (threadState x = FINISHED)"
    and mg: "myMagicNumber x = THREAD_MAGIC_NUMBER" "?t \<noteq> 0" by auto
  let ?rest = "\<lambda>s. do {
     s \<leftarrow> k_foreachWhile deleteThread_inDispatch threadDEAD (queueThreads s) s;
     (new, s) \<leftarrow> get s;
     let s = s\<lparr>running := new\<rparr>;
     s \<leftarrow> upd_thread new (threadState_update (\<lambda>_. RUNNING)) s;
     Some (contextSwitch ?t k s)
   }"
  obtain s2 where s2: "dispatch k s = ?rest s2" "kmem s2 U f" "abs s2 = a_leave (abs s)" "same_place (kheap s) (kheap s2)"
  proof (cases "readyToRun x")
    case True
    let ?s1 = "?s\<lparr>threads := (threads s)(?t \<mapsto> x\<lparr>threadState := READY\<rparr>)\<rparr>"
    have "kmem ?s1 U (Suc f)" using kmem_thread [OF km, of ?t x] x(1) by simp
    from put_ok [OF this] obtain s2 where s2: "put ?t ?s1 = Some s2" "kmem s2 U f" "abs s2 = a_put ?t (abs ?s1)" .
    have th: "threads s2 ?t = Some (x\<lparr>threadState := READY\<rparr>)" using arg_cong [OF s2(3), of athreads] by (simp add: a_put_def)
    have "isFinished ?t s2 = Some False" using th mg by (simp add: isFinished_def isThreadValid_def)
    then have "dispatch k s = ?rest s2" using x(1) True s2(1) by (simp add: dispatch_def upd_thread_def Let_def)
    moreover have "abs s2 = a_leave (abs s)" unfolding s2(3) using x(1) True by (simp add: a_leave_def a_put_def a_thread_def Let_def)
    moreover have "same_place (kheap s) (kheap s2)" using put_place [OF s2(1)] by simp
    ultimately show ?thesis using that s2(2) by blast
  next
    case False
    show ?thesis
    proof (cases "threadState x = FINISHED")
      case True
      from delete_thread_ok [OF kmem_mono [OF km, of f] al] obtain s2 where s2: "delete_thread ?t ?s = Some s2" "kmem s2 U f"
        "abs s2 = (abs ?s)\<lparr>athreads := (athreads (abs ?s))(?t := None)\<rparr>" by (auto simp: goes_def)
      have "dispatch k s = ?rest s2" using x False True s2(1) by (simp add: dispatch_def Let_def)
      moreover have "abs s2 = a_leave (abs s)" unfolding s2(3) using x(1) True False by (simp add: a_leave_def)
      moreover have "same_place (kheap s) (kheap s2)" using delete_thread_place [OF s2(1)] by simp
      ultimately show ?thesis using that s2(2) by blast
    next
      case nf: False
      have 1: "dispatch k s = ?rest ?s" using x False nf by (simp add: dispatch_def Let_def)
      have 2: "kmem ?s U f" by (rule kmem_mono [OF km]) simp
      have 3: "abs ?s = a_leave (abs s)" using x(1) nf False by (simp add: a_leave_def)
      show ?thesis by (rule that [OF 1 2 3]) simp
    qed
  qed
  have "goes (?rest s2) U (Suc f) (a_thread ?t (saved_context_update (\<lambda>_. k)) (a_enter (a_purge (abs s2))))"
    by (rule enter_ok [OF s2(2)]) (use d s2(3) block_ptr_place [OF s2(4) thread_block_ptr [OF m x(1)]] in \<open>simp_all add: dispatchable_def\<close>)
  then show ?thesis unfolding s2(1) s2(3) a_dispatch_def by simp
qed

end
