(* ===== verification/RefineSem.thy ===== *)
theory RefineSem
  imports RefineDispatch
begin

text \<open>
  The semaphores, sleeping and the timer implement the abstract operations.
\<close>

lemma abs_val: "abs s = a \<Longrightarrow> sems s p = Some x \<Longrightarrow> sint (val x) = a_val a p" by (auto simp: a_val_def)

lemma a_sem_sel [simp]:
  "athreads (a_sem p f a) = athreads a" "arunning (a_sem p f a) = arunning a" "aready (a_sem p f a) = aready a"
  "aasleep (a_sem p f a) = aasleep a" "aallsems (a_sem p f a) = aallsems a" "atime (a_sem p f a) = atime a"
  "anumsems (a_sem p f a) = anumsems a" "acpu (a_sem p f a) = acpu a"
  "asems (a_sem p f a) q = (if q = p then map_option f (asems a q) else asems a q)"
  by (simp_all add: a_sem_def)

lemma alive_thread [simp]:
  "(\<And>x. myMagicNumber (f x) = myMagicNumber x) \<Longrightarrow> alive (a_thread u f a) t = alive a t"
  by (auto simp: alive_def a_thread_def)

lemma alive_sem [simp]: "alive (a_sem p f a) t = alive a t"
  by (simp add: alive_def)

lemma alive_status [simp]: "alive (a_status u st a) t = alive a t"
  by (simp add: a_status_def)

lemma a_finished_thread [simp]:
  "(\<And>x. threadState (f x) = threadState x) \<Longrightarrow> a_finished (a_thread u f a) t = a_finished a t"
  by (auto simp: a_finished_def a_thread_def split: option.splits)

lemma a_finished_sem [simp]: "a_finished (a_sem p f a) t = a_finished a t"
  by (simp add: a_finished_def)

lemma a_finished_status [simp]: "\<not> a_finished a t \<Longrightarrow> \<not> a_finished (a_status u st a) t"
  by (auto simp: a_finished_def a_status_def a_thread_def split: option.splits)

lemma a_status_sel [simp]:
  "asems (a_status u st a) = asems a" "arunning (a_status u st a) = arunning a" "aready (a_status u st a) = aready a"
  "aasleep (a_status u st a) = aasleep a" "aallsems (a_status u st a) = aallsems a" "atime (a_status u st a) = atime a"
  "dom (athreads (a_status u st a)) = dom (athreads a)"
  by (simp_all add: a_status_def)

lemma abs_running: "abs s = a \<Longrightarrow> running s = arunning a" by auto
lemma abs_time: "abs s = a \<Longrightarrow> SYS_TIME s = atime a" by auto
lemma abs_cpu: "abs s = a \<Longrightarrow> runningThread_CPU_time s = acpu a" by auto
lemma upd_sem_ok':
  assumes "kmem s U f" "asems (abs s) p \<noteq> None" "\<And>x. queueBlocked (g x) = queueBlocked x" "\<And>x. abs_sem (g x) = g' (abs_sem x)"
  shows "goes (upd_sem p g s) U f (a_sem p g' (abs s))"
  using upd_sem_ok [OF assms(1) _ assms(3,4)] assms(2) by auto

lemma put_goes: "kmem s U (Suc f) \<Longrightarrow> goes (put t s) U f (a_put t (abs s))"
  using put_ok [of s U f t] by (force simp: goes_def)

lemma a_queue_sem [simp]:
  "a_queue (a_sem p f a) q = (if q = p then (case asems a p of None \<Rightarrow> [] | Some x \<Rightarrow> awaiters (f x)) else a_queue a q)"
  by (auto simp: a_queue_def split: option.splits)

subsection \<open>Waiting\<close>

lemma block_ok:
  assumes m: "kmem s U (Suc (Suc f))" and p: "asems (abs s) p \<noteq> None"
    and t: "alive (abs s) (running s)" "\<not> a_finished (abs s) (running s)"
    and d: "dispatchable (a_block p (abs s))"
  shows "goes (block k p s) U (Suc f) (a_dispatch (k p) (a_block p (abs s)))"
  unfolding block_def Let_def
proof (rule goes_bind [OF sem_addLast_ok [OF m p]])
  fix s1 assume s1: "kmem s1 U (Suc f)" "abs s1 = a_sem p (\<lambda>x. x\<lparr>awaiters := awaiters x @ [running s]\<rparr>) (abs s)"
  have t1: "alive (abs s1) (running s)" "\<not> a_finished (abs s1) (running s)" using t by (simp_all add: s1(2))
  show "goes (set_threadsSemStatus (running s) WAITING s1 \<bind> (\<lambda>s'. set_mySem (running s) p s' \<bind> dispatch (k p))) U (Suc f)
      (a_dispatch (k p) (a_block p (abs s)))"
  proof (rule goes_bind [OF set_threadsSemStatus_ok [OF s1(1) t1]])
    fix s2 assume s2: "kmem s2 U (Suc f)" "abs s2 = a_status (running s) WAITING (abs s1)"
    have t2: "alive (abs s2) (running s)" using t1 by (simp add: s2(2))
    show "goes (set_mySem (running s) p s2 \<bind> dispatch (k p)) U (Suc f) (a_dispatch (k p) (a_block p (abs s)))"
    proof (rule goes_bind [OF set_mySem_ok [OF s2(1) t2]])
      fix s3 assume s3: "kmem s3 U (Suc f)" "abs s3 = a_thread (running s) (mySem_update (\<lambda>_. p)) (abs s2)"
      have "abs s3 = a_block p (abs s)" unfolding s3(2) s2(2) s1(2) by (simp add: a_block_def Let_def)
      with dispatch_ok [OF s3(1), of "k p"] d show "goes (dispatch (k p) s3) U (Suc f) (a_dispatch (k p) (a_block p (abs s)))"
        by simp
    qed
  qed
qed

lemma timedBlock_ok:
  assumes m: "kmem s U (Suc (Suc (Suc f)))" and p: "asems (abs s) p \<noteq> None"
    and t: "alive (abs s) (running s)" "\<not> a_finished (abs s) (running s)"
    and A: "set (aasleep (abs s)) \<subseteq> dom (athreads (abs s))"
    and d: "dispatchable (a_timedBlock p w (abs s))"
  shows "goes (timedBlock p w s) U (Suc f) (a_dispatch (In_timedWait p) (a_timedBlock p w (abs s)))"
  unfolding timedBlock_def Let_def
proof (rule goes_bind [OF set_threadsSemStatus_ok [OF m t]])
  let ?r = "running s"
  fix s1 assume s1: "kmem s1 U (Suc (Suc (Suc f)))" "abs s1 = a_status ?r TIMEDWAITING (abs s)"
  have t1: "alive (abs s1) ?r" using t by (simp add: s1(2))
  show "goes (set_timeForWakingUp ?r (w + SYS_TIME s) s1 \<bind> (\<lambda>(_, s). sem_addLast p ?r s \<bind>
      (\<lambda>s. insert_ordered_in_list_of_sleeping_threads ?r s \<bind> (\<lambda>(_, s). upd_sem p (\<lambda>x. x\<lparr>numOfTimedWaiting := numOfTimedWaiting x + 1\<rparr>) s \<bind>
      (\<lambda>s. set_mySem ?r p s \<bind> dispatch (In_timedWait p)))))) U (Suc f) (a_dispatch (In_timedWait p) (a_timedBlock p w (abs s)))"
  proof (rule goes_bind_returns [OF set_timeForWakingUp_ok [OF s1(1) t1]])
    fix s2 assume s2: "kmem s2 U (Suc (Suc (Suc f)))" "abs s2 = a_thread ?r (timeForWakingUp_update (\<lambda>_. w + SYS_TIME s)) (abs s1)"
    have p2: "asems (abs s2) p \<noteq> None" using p by (simp add: s2(2) s1(2) del: abs_sel)
    show "goes (sem_addLast p ?r s2 \<bind> (\<lambda>s. insert_ordered_in_list_of_sleeping_threads ?r s \<bind>
        (\<lambda>(_, s). upd_sem p (\<lambda>x. x\<lparr>numOfTimedWaiting := numOfTimedWaiting x + 1\<rparr>) s \<bind>
        (\<lambda>s. set_mySem ?r p s \<bind> dispatch (In_timedWait p))))) U (Suc f) (a_dispatch (In_timedWait p) (a_timedBlock p w (abs s)))"
    proof (rule goes_bind [OF sem_addLast_ok [OF s2(1) p2]])
      fix s3 assume s3: "kmem s3 U (Suc (Suc f))" "abs s3 = a_sem p (\<lambda>x. x\<lparr>awaiters := awaiters x @ [?r]\<rparr>) (abs s2)"
      have t3: "alive (abs s3) ?r" using t1 by (simp add: s3(2) s2(2))
      have A3: "set (aasleep (abs s3)) \<subseteq> dom (athreads (abs s3))" using A by (simp add: s3(2) s2(2) s1(2) del: abs_sel)
      have "isThreadValid ?r s3 = Some True" using aliveD [OF s3(1) t3] by metis
      then have ins: "insert_ordered_in_list_of_sleeping_threads ?r s3 = insert_asleep ?r s3 \<bind> (\<lambda>s. Some (True, s))"
        by (simp add: insert_ordered_in_list_of_sleeping_threads_def)
      have "returns (insert_ordered_in_list_of_sleeping_threads ?r s3) True U (Suc f) (a_insert_asleep ?r (abs s3))"
        unfolding ins by (rule returns_bind_goes [OF insert_asleep_ok [OF s3(1) t3 A3]]) (auto intro: returnsI)
      then show "goes (insert_ordered_in_list_of_sleeping_threads ?r s3 \<bind>
        (\<lambda>(_, s). upd_sem p (\<lambda>x. x\<lparr>numOfTimedWaiting := numOfTimedWaiting x + 1\<rparr>) s \<bind>
        (\<lambda>s. set_mySem ?r p s \<bind> dispatch (In_timedWait p)))) U (Suc f) (a_dispatch (In_timedWait p) (a_timedBlock p w (abs s)))"
      proof (rule goes_bind_returns)
        fix s4 assume s4: "kmem s4 U (Suc f)" "abs s4 = a_insert_asleep ?r (abs s3)"
        have p4: "asems (abs s4) p \<noteq> None" "alive (abs s4) ?r"
          using p2 t3 by (simp_all add: s4(2) s3(2) a_insert_asleep_def alive_def del: abs_sel)
        show "goes (upd_sem p (\<lambda>x. x\<lparr>numOfTimedWaiting := numOfTimedWaiting x + 1\<rparr>) s4 \<bind>
          (\<lambda>s. set_mySem ?r p s \<bind> dispatch (In_timedWait p))) U (Suc f) (a_dispatch (In_timedWait p) (a_timedBlock p w (abs s)))"
        proof (rule goes_bind [OF upd_sem_ok' [OF s4(1) p4(1)]])
          fix s5 assume s5: "kmem s5 U (Suc f)" "abs s5 = a_sem p (\<lambda>x. x\<lparr>atimed := atimed x + 1\<rparr>) (abs s4)"
          have t5: "alive (abs s5) ?r" using p4(2) by (simp add: s5(2))
          show "goes (set_mySem ?r p s5 \<bind> dispatch (In_timedWait p)) U (Suc f) (a_dispatch (In_timedWait p) (a_timedBlock p w (abs s)))"
          proof (rule goes_bind [OF set_mySem_ok [OF s5(1) t5]])
            fix s6 assume s6: "kmem s6 U (Suc f)" "abs s6 = a_thread ?r (mySem_update (\<lambda>_. p)) (abs s5)"
            have "abs s6 = a_timedBlock p w (abs s)"
              unfolding s6(2) s5(2) s4(2) s3(2) s2(2) s1(2) by (simp add: a_timedBlock_def Let_def)
            with dispatch_ok [OF s6(1)] d
            show "goes (dispatch (In_timedWait p) s6) U (Suc f) (a_dispatch (In_timedWait p) (a_timedBlock p w (abs s)))" by simp
          qed
        qed simp_all
      qed
    qed
  qed
qed

lemma dec_ok:
  assumes m: "kmem s U f" and p: "asems (abs s) p \<noteq> None"
  shows "goes (upd_sem p (\<lambda>x. x\<lparr>val := val x - 1\<rparr>) s) U f (a_dec p (abs s))"
    and "goes (upd_sem p (\<lambda>x. x\<lparr>val := val x + 1\<rparr>) s) U f (a_inc p (abs s))"
  unfolding a_dec_def a_inc_def by (rule upd_sem_ok' [OF m p]; simp)+

lemma wait_ok:
  assumes m: "kmem s U (Suc (Suc f))" and p: "asems (abs s) p \<noteq> None"
    and t: "alive (abs s) (running s)" "\<not> a_finished (abs s) (running s)"
    and d: "a_val (a_dec p (abs s)) p < 0 \<Longrightarrow> dispatchable (a_block p (a_dec p (abs s)))"
  shows "returns (wait k p s) (fst (a_wait k p (abs s))) U (Suc f) (snd (a_wait k p (abs s)))"
  unfolding wait_def
proof (rule returns_bind_goes [OF dec_ok(1) [OF m p]])
  fix s1 assume s1: "kmem s1 U (Suc (Suc f))" "abs s1 = a_dec p (abs s)"
  have p1: "asems (abs s1) p \<noteq> None" using p by (simp add: s1(2) a_dec_def del: abs_sel)
  then obtain x where x: "sems s1 p = Some x" by auto
  have v: "sint (val x) = a_val (a_dec p (abs s)) p" by (rule abs_val [OF s1(2) x])
  have r: "running s1 = running s" using abs_running [OF s1(2)] by (simp add: a_dec_def)
  show "returns (sems s1 p \<bind> (\<lambda>x. if 0 \<le> sint (val x) then Some (Some SEM_DIDNTWAIT, s1) else block k p s1 \<bind> (\<lambda>s. Some (None, s))))
     (fst (a_wait k p (abs s))) U (Suc f) (snd (a_wait k p (abs s)))"
  proof (cases "0 \<le> a_val (a_dec p (abs s)) p")
    case True
    then show ?thesis using x v s1 kmem_mono [OF s1(1), of "Suc f"] by (auto simp: a_wait_def Let_def intro: returnsI)
  next
    case False
    have t1: "alive (abs s1) (running s1)" "\<not> a_finished (abs s1) (running s1)" unfolding r using t by (simp_all add: s1(2) a_dec_def)
    have "returns (block k p s1 \<bind> (\<lambda>s. Some (None :: int option, s))) None U (Suc f) (a_dispatch (k p) (a_block p (abs s1)))"
      by (rule returns_bind_goes [OF block_ok [OF s1(1) p1 t1]]) (use d False s1(2) in \<open>auto intro: returnsI\<close>)
    then show ?thesis using x v False s1(2) by (simp add: a_wait_def Let_def)
  qed
qed

lemma timedWait_ok:
  assumes m: "kmem s U (Suc (Suc (Suc f)))" and p: "asems (abs s) p \<noteq> None"
    and t: "alive (abs s) (running s)" "\<not> a_finished (abs s) (running s)"
    and A: "set (aasleep (abs s)) \<subseteq> dom (athreads (abs s))"
    and d: "a_val (a_dec p (abs s)) p < 0 \<Longrightarrow> dispatchable (a_timedBlock p w (a_dec p (abs s)))"
  shows "returns (timedWait p w s) (fst (a_timedWait p w (abs s))) U (Suc f) (snd (a_timedWait p w (abs s)))"
  unfolding timedWait_def
proof (rule returns_bind_goes [OF dec_ok(1) [OF m p]])
  fix s1 assume s1: "kmem s1 U (Suc (Suc (Suc f)))" "abs s1 = a_dec p (abs s)"
  have p1: "asems (abs s1) p \<noteq> None" using p by (simp add: s1(2) a_dec_def del: abs_sel)
  then obtain x where x: "sems s1 p = Some x" by auto
  have v: "sint (val x) = a_val (a_dec p (abs s)) p" by (rule abs_val [OF s1(2) x])
  have r: "running s1 = running s" using abs_running [OF s1(2)] by (simp add: a_dec_def)
  show "returns (sems s1 p \<bind> (\<lambda>x. if 0 \<le> sint (val x) then Some (Some SEM_DIDNTWAIT, s1) else timedBlock p w s1 \<bind> (\<lambda>s. Some (None, s))))
     (fst (a_timedWait p w (abs s))) U (Suc f) (snd (a_timedWait p w (abs s)))"
  proof (cases "0 \<le> a_val (a_dec p (abs s)) p")
    case True
    then show ?thesis using x v s1 kmem_mono [OF s1(1), of "Suc f"] by (auto simp: a_timedWait_def Let_def intro: returnsI)
  next
    case False
    have t1: "alive (abs s1) (running s1)" "\<not> a_finished (abs s1) (running s1)" unfolding r using t by (simp_all add: s1(2) a_dec_def)
    have A1: "set (aasleep (abs s1)) \<subseteq> dom (athreads (abs s1))" using A by (simp add: s1(2) a_dec_def del: abs_sel)
    have "returns (timedBlock p w s1 \<bind> (\<lambda>s. Some (None :: int option, s))) None U (Suc f) (a_dispatch (In_timedWait p) (a_timedBlock p w (abs s1)))"
      by (rule returns_bind_goes [OF timedBlock_ok [OF s1(1) p1 t1 A1]]) (use d False s1(2) in \<open>auto intro: returnsI\<close>)
    then show ?thesis using x v False s1(2) by (simp add: a_timedWait_def Let_def)
  qed
qed

subsection \<open>After the switch\<close>

lemma generateWAITResponses_ok:
  assumes m: "kmem s U f" and t: "alive (abs s) (running s)" "\<not> a_finished (abs s) (running s)"
  shows "returns (generateWAITResponses s) (fst (a_answer (abs s))) U f (snd (a_answer (abs s)))"
proof -
  obtain x where x: "threads s (running s) = Some x" by (rule aliveD [OF m t(1)])
  have "returns (set_threadsSemStatus (running s) NON_WAITING s \<bind> (\<lambda>s. Some (wait_answer (semStatus x), s)))
      (wait_answer (semStatus x)) U f (a_status (running s) NON_WAITING (abs s))"
    by (rule returns_bind_goes [OF set_threadsSemStatus_ok [OF m t]]) (auto intro: returnsI)
  then show ?thesis using x by (simp add: generateWAITResponses_def a_answer_def Let_def)
qed

lemma wait_resume_ok:
  assumes m: "kmem s U f" and t: "alive (abs s) (running s)" "\<not> a_finished (abs s) (running s)"
  shows "returns (wait_resume s) (fst (a_wait_resume (abs s))) U f (snd (a_wait_resume (abs s)))"
  unfolding wait_resume_def
proof (rule returns_bind_goes [OF set_mySem_ok [OF m t(1)]])
  fix s1 assume s1: "kmem s1 U f" "abs s1 = a_thread (running s) (mySem_update (\<lambda>_. 0)) (abs s)"
  have r: "running s1 = running s" using abs_running [OF s1(2)] by simp
  have t1: "alive (abs s1) (running s1)" "\<not> a_finished (abs s1) (running s1)" unfolding r using t by (simp_all add: s1(2))
  show "returns (generateWAITResponses s1) (fst (a_wait_resume (abs s))) U f (snd (a_wait_resume (abs s)))"
    using generateWAITResponses_ok [OF s1(1) t1] by (simp add: s1(2) a_wait_resume_def)
qed

lemma timedWait_resume_ok:
  assumes m: "kmem s U f" and t: "alive (abs s) (running s)" "\<not> a_finished (abs s) (running s)"
    and p: "asems (abs s) p \<noteq> None"
  shows "returns (timedWait_resume p s) (fst (a_timedWait_resume p (abs s))) U f (snd (a_timedWait_resume p (abs s)))"
  unfolding timedWait_resume_def Let_def
proof (rule returns_bind_goes [OF set_mySem_ok [OF m t(1)]])
  let ?r = "running s"
  fix s1 assume s1: "kmem s1 U f" "abs s1 = a_thread ?r (mySem_update (\<lambda>_. 0)) (abs s)"
  have p1: "asems (abs s1) p \<noteq> None" using p by (simp add: s1(2) del: abs_sel)
  show "returns (upd_sem p (\<lambda>x. x\<lparr>numOfTimedWaiting := numOfTimedWaiting x - 1\<rparr>) s1 \<bind>
      (\<lambda>s. set_timeForWakingUp ?r 0 s \<bind> (\<lambda>(_, s). generateWAITResponses s)))
      (fst (a_timedWait_resume p (abs s))) U f (snd (a_timedWait_resume p (abs s)))"
  proof (rule returns_bind_goes [OF upd_sem_ok' [OF s1(1) p1, of _ "\<lambda>x. x\<lparr>atimed := atimed x - 1\<rparr>"]])
    fix s2 assume s2: "kmem s2 U f" "abs s2 = a_sem p (\<lambda>x. x\<lparr>atimed := atimed x - 1\<rparr>) (abs s1)"
    have t2: "alive (abs s2) ?r" using t by (simp add: s1(2) s2(2))
    show "returns (set_timeForWakingUp ?r 0 s2 \<bind> (\<lambda>(_, s). generateWAITResponses s))
        (fst (a_timedWait_resume p (abs s))) U f (snd (a_timedWait_resume p (abs s)))"
    proof (rule returns_bind [OF set_timeForWakingUp_ok [OF s2(1) t2]])
      fix s3 assume s3: "kmem s3 U f" "abs s3 = a_thread ?r (timeForWakingUp_update (\<lambda>_. 0)) (abs s2)"
      have r: "running s3 = ?r" using abs_running [OF s3(2)] by (simp add: s2(2) s1(2) del: abs_sel) simp
      have t3: "alive (abs s3) (running s3)" "\<not> a_finished (abs s3) (running s3)"
        unfolding r using t by (simp_all add: s3(2) s2(2) s1(2))
      show "returns (generateWAITResponses s3) (fst (a_timedWait_resume p (abs s))) U f (snd (a_timedWait_resume p (abs s)))"
        using generateWAITResponses_ok [OF s3(1) t3] by (simp add: s3(2) s2(2) s1(2) a_timedWait_resume_def Let_def)
    qed
  qed simp_all
qed

subsection \<open>Unblocking\<close>

lemma release_ok:
  assumes m: "kmem s U (Suc f)" and t: "alive (abs s) t" "\<not> a_finished (abs s) t"
  shows "goes (set_mySem t 0 s \<bind> (\<lambda>s. set_threadsSemStatus t cause s \<bind> put t)) U f (a_release cause t (abs s))"
proof (rule goes_bind [OF set_mySem_ok [OF m t(1)]])
  fix s1 assume s1: "kmem s1 U (Suc f)" "abs s1 = a_thread t (mySem_update (\<lambda>_. 0)) (abs s)"
  have t1: "alive (abs s1) t" "\<not> a_finished (abs s1) t" using t by (simp_all add: s1(2))
  show "goes (set_threadsSemStatus t cause s1 \<bind> put t) U f (a_release cause t (abs s))"
  proof (rule goes_bind [OF set_threadsSemStatus_ok [OF s1(1) t1]])
    fix s2 assume s2: "kmem s2 U (Suc f)" "abs s2 = a_status t cause (abs s1)"
    from put_goes [OF s2(1), of t] show "goes (put t s2) U f (a_release cause t (abs s))"
      by (simp add: a_release_def s2(2) s1(2))
  qed
qed

lemma unblock_sem_removeFirst:
  "unblock cause p s = sem_removeFirst p s \<bind> (\<lambda>(old, s). threads s old \<bind> (\<lambda>t.
     (if semStatus t = TIMEDWAITING then remove_thread_from_sleep old s \<bind> (\<lambda>(_, s). Some s) else Some s) \<bind>
     (\<lambda>s. set_mySem old 0 s \<bind> (\<lambda>s. set_threadsSemStatus old cause s \<bind> put old))))"
  by (simp add: unblock_def sem_removeFirst_def case_prod_unfold cong: if_cong)

lemma unblock_ok:
  assumes m: "kmem s U f" and p: "asems (abs s) p \<noteq> None" "a_queue (abs s) p = t # ts"
    and t: "alive (abs s) t" "\<not> a_finished (abs s) t"
  shows "goes (unblock cause p s) U f (a_unblock cause p (abs s))"
  unfolding unblock_sem_removeFirst
proof (rule goes_bind_returns [OF sem_removeFirst_ok [OF m p]])
  fix s1 assume s1: "kmem s1 U (Suc f)" "abs s1 = a_sem p (\<lambda>x. x\<lparr>awaiters := tl (awaiters x)\<rparr>) (abs s)"
  have t1: "alive (abs s1) t" "\<not> a_finished (abs s1) t" using t by (simp_all add: s1(2))
  obtain x where x: "threads s1 t = Some x" "t \<noteq> 0" by (rule aliveD [OF s1(1) t1(1)])
  have x0: "athreads (abs s) t = Some x" using x(1) arg_cong [OF s1(2), of athreads] by simp
  let ?a = "if semStatus x = TIMEDWAITING then (abs s1)\<lparr>aasleep := remove1 t (aasleep (abs s1))\<rparr> else abs s1"
  have r: "returns (remove_thread_from_sleep t s1) (t \<in> set (aasleep (abs s1))) U (Suc f) ((abs s1)\<lparr>aasleep := remove1 t (aasleep (abs s1))\<rparr>)"
    using remove_from_sleep_ok [OF s1(1) x(2)] kmem_mono [of _ U "Suc (Suc f)" "Suc f"] by (auto simp: returns_def split: if_splits)
  have "goes (remove_thread_from_sleep t s1 \<bind> (\<lambda>(_, s). Some s)) U (Suc f) ((abs s1)\<lparr>aasleep := remove1 t (aasleep (abs s1))\<rparr>)"
    by (rule goes_bind_returns [OF r]) (auto intro: goesI)
  then have g: "goes (if semStatus x = TIMEDWAITING then remove_thread_from_sleep t s1 \<bind> (\<lambda>(_, s). Some s) else Some s1) U (Suc f) ?a"
    using s1(1) by (auto intro: goesI)
  have "goes ((if semStatus x = TIMEDWAITING then remove_thread_from_sleep t s1 \<bind> (\<lambda>(_, s). Some s) else Some s1) \<bind>
     (\<lambda>s. set_mySem t 0 s \<bind> (\<lambda>s. set_threadsSemStatus t cause s \<bind> put t))) U f (a_unblock cause p (abs s))"
  proof (rule goes_bind [OF g])
    fix s2 assume s2: "kmem s2 U (Suc f)" "abs s2 = ?a"
    have t2: "alive (abs s2) t" "\<not> a_finished (abs s2) t" unfolding s2(2) using t1 by (simp_all add: alive_def a_finished_def)
    have "a_release cause t (abs s2) = a_unblock cause p (abs s)"
      unfolding s2(2) s1(2) a_unblock_def Let_def p(2) using x0 by simp
    with release_ok [OF s2(1) t2, of cause]
    show "goes (set_mySem t 0 s2 \<bind> (\<lambda>s. set_threadsSemStatus t cause s \<bind> put t)) U f (a_unblock cause p (abs s))" by simp
  qed
  then show "goes (threads s1 t \<bind> (\<lambda>x. (if semStatus x = TIMEDWAITING then remove_thread_from_sleep t s1 \<bind> (\<lambda>(_, s). Some s) else Some s1) \<bind>
     (\<lambda>s. set_mySem t 0 s \<bind> (\<lambda>s. set_threadsSemStatus t cause s \<bind> put t)))) U f (a_unblock cause p (abs s))"
    using x(1) by simp
qed

lemma signal_ok:
  assumes m: "kmem s U f" and p: "asems (abs s) p \<noteq> None"
    and q: "a_val (a_inc p (abs s)) p \<le> 0 \<Longrightarrow> a_queue (abs s) p \<noteq> []"
    and t: "\<forall>t\<in>set (a_queue (abs s) p). alive (abs s) t \<and> \<not> a_finished (abs s) t"
  shows "returns (signal p s) (fst (a_signal p (abs s))) U f (snd (a_signal p (abs s)))"
  unfolding signal_def
proof (rule returns_bind_goes [OF dec_ok(2) [OF m p]])
  fix s1 assume s1: "kmem s1 U f" "abs s1 = a_inc p (abs s)"
  have p1: "asems (abs s1) p \<noteq> None" using p by (simp add: s1(2) a_inc_def del: abs_sel)
  then obtain x where x: "sems s1 p = Some x" by auto
  have v: "sint (val x) = a_val (a_inc p (abs s)) p" by (rule abs_val [OF s1(2) x])
  have qq: "a_queue (abs s1) p = a_queue (abs s) p"
    by (simp add: s1(2) a_inc_def a_queue_def del: abs_sel split: option.splits)
  show "returns (sems s1 p \<bind> (\<lambda>x. if 0 < sint (val x) then Some (0, s1) else unblock REGULARLY_WAITED p s1 \<bind> (\<lambda>s. Some (1, s))))
     (fst (a_signal p (abs s))) U f (snd (a_signal p (abs s)))"
  proof (cases "0 < a_val (a_inc p (abs s)) p")
    case True
    then show ?thesis using x v s1 by (auto simp: a_signal_def Let_def intro: returnsI)
  next
    case False
    then obtain u us where u: "a_queue (abs s) p = u # us" using q by (cases "a_queue (abs s) p") auto
    have t1: "alive (abs s1) u" "\<not> a_finished (abs s1) u" using t u by (simp_all add: s1(2) a_inc_def)
    have "returns (unblock REGULARLY_WAITED p s1 \<bind> (\<lambda>s. Some (1 :: int, s))) 1 U f (a_unblock REGULARLY_WAITED p (abs s1))"
      by (rule returns_bind_goes [OF unblock_ok [OF s1(1) p1 _ t1]]) (use u qq in \<open>auto intro: returnsI\<close>)
    then show ?thesis using x v False s1(2) by (simp add: a_signal_def Let_def)
  qed
qed

subsection \<open>Timeouts\<close>

lemma unblockedByTime_sem_removeSpec:
  "unblockedByTime p t s = threads s t \<bind> (\<lambda>x. if semStatus x \<noteq> TIMEDWAITING then Some s
     else upd_sem p (\<lambda>x. x\<lparr>val := val x + 1\<rparr>) s \<bind> (\<lambda>s. remove_thread_from_sleep t s \<bind> (\<lambda>(_, s).
       sem_removeSpec p t s \<bind> (\<lambda>(_, s). set_mySem t 0 s \<bind> (\<lambda>s. set_threadsSemStatus t TIMEOUT s \<bind> put t)))))"
  by (simp add: unblockedByTime_def sem_removeSpec_def case_prod_unfold cong: if_cong)

lemma unblockedByTime_ok:
  assumes m: "kmem s U f" and p: "asems (abs s) p \<noteq> None" "t \<in> set (a_queue (abs s) p)"
    and t: "alive (abs s) t" "\<not> a_finished (abs s) t" "semStatus (the (athreads (abs s) t)) = TIMEDWAITING"
  shows "goes (unblockedByTime p t s) U f (a_timeout p t (abs s))"
proof -
  obtain x where x: "threads s t = Some x" "t \<noteq> 0" by (rule aliveD [OF m t(1)])
  have st: "semStatus x = TIMEDWAITING" using t(3) x by simp
  have "goes (upd_sem p (\<lambda>x. x\<lparr>val := val x + 1\<rparr>) s \<bind> (\<lambda>s. remove_thread_from_sleep t s \<bind> (\<lambda>(_, s).
       sem_removeSpec p t s \<bind> (\<lambda>(_, s). set_mySem t 0 s \<bind> (\<lambda>s. set_threadsSemStatus t TIMEOUT s \<bind> put t)))))
       U f (a_timeout p t (abs s))"
  proof (rule goes_bind [OF dec_ok(2) [OF m p(1)]])
    fix s1 assume s1: "kmem s1 U f" "abs s1 = a_inc p (abs s)"
    have r: "returns (remove_thread_from_sleep t s1) (t \<in> set (aasleep (abs s1))) U f ((abs s1)\<lparr>aasleep := remove1 t (aasleep (abs s1))\<rparr>)"
      using remove_from_sleep_ok [OF s1(1) x(2)] kmem_mono [of _ U "Suc f" f] by (auto simp: returns_def split: if_splits)
    show "goes (remove_thread_from_sleep t s1 \<bind> (\<lambda>(_, s). sem_removeSpec p t s \<bind> (\<lambda>(_, s). set_mySem t 0 s \<bind>
        (\<lambda>s. set_threadsSemStatus t TIMEOUT s \<bind> put t)))) U f (a_timeout p t (abs s))"
    proof (rule goes_bind_returns [OF r])
      fix s2 assume s2: "kmem s2 U f" "abs s2 = (abs s1)\<lparr>aasleep := remove1 t (aasleep (abs s1))\<rparr>"
      have p2: "asems (abs s2) p \<noteq> None" "t \<in> set (a_queue (abs s2) p)"
        using p by (simp_all add: s2(2) s1(2) a_inc_def a_queue_def del: abs_sel split: option.splits)
      show "goes (sem_removeSpec p t s2 \<bind> (\<lambda>(_, s). set_mySem t 0 s \<bind> (\<lambda>s. set_threadsSemStatus t TIMEOUT s \<bind> put t))) U f (a_timeout p t (abs s))"
      proof (rule goes_bind_returns [OF sem_removeSpec_ok [OF s2(1) p2(1) x(2) p2(2)]])
        fix s3 assume s3: "kmem s3 U (Suc f)" "abs s3 = a_sem p (\<lambda>x. x\<lparr>awaiters := remove1 t (awaiters x)\<rparr>) (abs s2)"
        have t3: "alive (abs s3) t" "\<not> a_finished (abs s3) t"
          using t by (simp_all add: s3(2) s2(2) s1(2) a_inc_def alive_def a_finished_def)
        have "a_release TIMEOUT t (abs s3) = a_timeout p t (abs s)"
          unfolding s3(2) s2(2) s1(2) by (simp add: a_timeout_def Let_def)
        with release_ok [OF s3(1) t3, of TIMEOUT]
        show "goes (set_mySem t 0 s3 \<bind> (\<lambda>s. set_threadsSemStatus t TIMEOUT s \<bind> put t)) U f (a_timeout p t (abs s))" by simp
      qed
    qed
  qed
  then show ?thesis unfolding unblockedByTime_sem_removeSpec using x st by simp
qed

definition wakeable :: "akernel \<Rightarrow> u64 \<Rightarrow> bool" where
  "wakeable a t \<longleftrightarrow> alive a t \<and> t \<in> set (aasleep a) \<and>
     (semStatus (the (athreads a t)) = TIMEDWAITING \<longrightarrow> \<not> a_finished a t \<and>
        mySem (the (athreads a t)) \<noteq> 0 \<and> asems a (mySem (the (athreads a t))) \<noteq> None \<and>
        t \<in> set (a_queue a (mySem (the (athreads a t)))))"

lemma wakeThreadUp_ok:
  assumes m: "kmem s U f" and t: "wakeable (abs s) t"
  shows "goes (wakeThreadUp t s) U f (a_wake t (abs s))"
proof -
  have al: "alive (abs s) t" using t by (simp add: wakeable_def)
  obtain x where x: "threads s t = Some x" "t \<noteq> 0" "isThreadValid t s = Some True" by (rule aliveD [OF m al])
  show ?thesis
  proof (cases "semStatus x = TIMEDWAITING")
    case True
    have "goes (unblockedByTime (mySem x) t s) U f (a_timeout (mySem x) t (abs s))"
      by (rule unblockedByTime_ok [OF m _ _ al]) (use t x True in \<open>simp_all add: wakeable_def\<close>)
    then show ?thesis using x True t by (simp add: wakeThreadUp_def a_wake_def wakeable_def)
  next
    case False
    have ta: "t \<in> set (aasleep (abs s))" using t by (simp add: wakeable_def)
    have "goes (remove_thread_from_sleep t s \<bind> (\<lambda>(r, s). if r then put t s else Some s)) U f
        (a_put t ((abs s)\<lparr>aasleep := remove1 t (aasleep (abs s))\<rparr>))"
    proof (rule goes_bind_returns [OF remove_from_sleep_ok [OF m x(2)]])
      fix s1 assume s1: "kmem s1 U (if t \<in> set (aasleep (abs s)) then Suc f else f)"
        "abs s1 = (abs s)\<lparr>aasleep := remove1 t (aasleep (abs s))\<rparr>"
      from s1(1) ta have "kmem s1 U (Suc f)" by (simp only: if_True)
      from put_goes [OF this, of t] show "goes (if t \<in> set (aasleep (abs s)) then put t s1 else Some s1) U f
          (a_put t ((abs s)\<lparr>aasleep := remove1 t (aasleep (abs s))\<rparr>))"
        using ta unfolding s1(2) by (simp only: if_True)
    qed
    then show ?thesis using x False by (simp add: wakeThreadUp_def a_wake_def)
  qed
qed

lemma a_wake_other:
  assumes "u \<noteq> t"
  shows "athreads (a_wake t a) u = athreads a u" "u \<in> set (aasleep (a_wake t a)) \<longleftrightarrow> u \<in> set (aasleep a)"
    "u \<in> set (a_queue (a_wake t a) p) \<longleftrightarrow> u \<in> set (a_queue a p)" "asems (a_wake t a) p = None \<longleftrightarrow> asems a p = None"
    "atime (a_wake t a) = atime a"
  using assms by (cases "asems a (mySem (the (athreads a t)))"; auto simp: a_wake_def a_timeout_def a_release_def a_put_def
      a_status_def a_inc_def a_queue_def Let_def in_set_remove1)+

lemma wakeable_other: "wakeable a u \<Longrightarrow> u \<noteq> t \<Longrightarrow> wakeable (a_wake t a) u"
  by (simp add: wakeable_def alive_def a_finished_def a_wake_other)

lemma wake_loop_ok:
  assumes "kmem s U f" "\<forall>t\<in>set (datas xs). wakeable (abs s) t" "distinct (datas xs)"
  shows "goes (k_foreachWhile wakeThreadUp shouldWakeUpThread xs s) U f (a_wake_list (datas xs) (abs s))"
  using assms
proof (induction xs arbitrary: s)
  case Nil
  then show ?case by (auto intro: goesI)
next
  case (Cons y xs)
  obtain c t where y: "y = (c, t)" by (cases y)
  have w: "wakeable (abs s) t" using Cons.prems(2) y by simp
  then obtain x where x: "threads s t = Some x" by (auto simp: wakeable_def alive_def)
  have sh: "shouldWakeUpThread t s = Some (a_wake_time (abs s) t \<le> atime (abs s))"
    using x by (simp add: shouldWakeUpThread_def a_wake_time_def)
  show ?case
  proof (cases "a_wake_time (abs s) t \<le> atime (abs s)")
    case False
    then show ?thesis using sh y Cons.prems(1) by (auto intro: goesI)
  next
    case True
    have "goes (wakeThreadUp t s \<bind> k_foreachWhile wakeThreadUp shouldWakeUpThread xs) U f (a_wake_list (datas xs) (a_wake t (abs s)))"
    proof (rule goes_bind [OF wakeThreadUp_ok [OF Cons.prems(1) w]])
      fix s1 assume s1: "kmem s1 U f" "abs s1 = a_wake t (abs s)"
      have "\<forall>u\<in>set (datas xs). wakeable (abs s1) u"
      proof
        fix u assume u: "u \<in> set (datas xs)"
        then have "u \<noteq> t" using Cons.prems(3) y by auto
        moreover have "wakeable (abs s) u" using Cons.prems(2) u by auto
        ultimately show "wakeable (abs s1) u" unfolding s1(2) by (intro wakeable_other)
      qed
      from Cons.IH [OF s1(1) this] Cons.prems(3) y
      show "goes (k_foreachWhile wakeThreadUp shouldWakeUpThread xs s1) U f (a_wake_list (datas xs) (a_wake t (abs s)))"
        by (simp add: s1(2))
    qed
    then show ?thesis using sh y True by simp
  qed
qed

lemma tick_ok:
  assumes m: "kmem s U (Suc f)" and w: "\<forall>t\<in>set (aasleep (abs s)). wakeable (abs s) t" "distinct (aasleep (abs s))"
  defines "a1 \<equiv> (abs s)\<lparr>asip := Bit_Operations.and (sip s) (Bit_Operations.not SIP_SSIP), atime := SYS_TIME s + 1,
     acpu := runningThread_CPU_time s + 1\<rparr>"
  defines "a2 \<equiv> a_wake_list (aasleep a1) a1"
  assumes d: "dispatchable a2"
  shows "returns (timer_interrupt_handler s) (fst (a_tick (abs s))) U (Suc f) (snd (a_tick (abs s)))"
proof -
  let ?s = "s\<lparr>sip := Bit_Operations.and (sip s) (Bit_Operations.not SIP_SSIP), SYS_TIME := SYS_TIME s + 1,
     runningThread_CPU_time := runningThread_CPU_time s + 1\<rparr>"
  have km: "kmem ?s U (Suc f)" by (rule kmem_cong [OF m]) simp_all
  have ab: "abs ?s = a1" by (simp add: a1_def)
  have w1: "\<forall>t\<in>set (datas (listAsleepThreads ?s)). wakeable (abs ?s) t" "distinct (datas (listAsleepThreads ?s))"
    using w unfolding ab by (simp_all add: a1_def wakeable_def alive_def a_finished_def a_queue_def)
  have tk: "a_tick (abs s) = (if timeSlice (the (athreads a2 (arunning a2))) \<le> acpu a2 then (True, a_dispatch In_timer a2) else (False, a2))"
    by (simp add: a_tick_def Let_def a2_def a1_def)
  have al: "aasleep a1 = datas (listAsleepThreads ?s)" by (simp add: a1_def)
  have "returns (wake_asleep_threads_up ?s \<bind> (\<lambda>s. threads s (running s) \<bind> (\<lambda>t. if timeSlice t \<le> runningThread_CPU_time s
      then dispatch In_timer s \<bind> (\<lambda>s. Some (True, s)) else Some (False, s)))) (fst (a_tick (abs s))) U (Suc f) (snd (a_tick (abs s)))"
    unfolding wake_asleep_threads_up_def
  proof (rule returns_bind_goes [OF wake_loop_ok [OF km w1]])
    fix s2 assume km2: "kmem s2 U (Suc f)" and "abs s2 = a_wake_list (datas (listAsleepThreads ?s)) (abs ?s)"
    then have "abs s2 = a2" unfolding a2_def al ab by simp
    with km2 have s2: "kmem s2 U (Suc f)" "abs s2 = a2" by simp_all
    have r2: "running s2 = arunning a2" by (rule abs_running [OF s2(2)])
    have "alive (abs s2) (running s2)" using d unfolding s2(2) r2 by (simp add: dispatchable_def)
    then obtain x where x: "threads s2 (running s2) = Some x" by (rule aliveD [OF s2(1)])
    have xa: "athreads a2 (arunning a2) = Some x" using x arg_cong [OF s2(2), of athreads] unfolding r2 by simp
    have c: "runningThread_CPU_time s2 = acpu a2" by (rule abs_cpu [OF s2(2)])
    have "returns (dispatch In_timer s2 \<bind> (\<lambda>s. Some (True, s))) True U (Suc f) (a_dispatch In_timer a2)"
      by (rule returns_bind_goes [OF dispatch_ok [OF s2(1)]]) (use d s2(2) in \<open>auto intro: returnsI\<close>)
    moreover have "returns (Some (False, s2)) False U (Suc f) a2" by (rule returnsI [OF s2 refl])
    moreover have "fst (a_tick (abs s)) = (timeSlice x \<le> acpu a2)"
      "snd (a_tick (abs s)) = (if timeSlice x \<le> acpu a2 then a_dispatch In_timer a2 else a2)"
      unfolding tk xa by simp_all
    ultimately show "returns (threads s2 (running s2) \<bind> (\<lambda>t. if timeSlice t \<le> runningThread_CPU_time s2
      then dispatch In_timer s2 \<bind> (\<lambda>s. Some (True, s)) else Some (False, s2))) (fst (a_tick (abs s))) U (Suc f) (snd (a_tick (abs s)))"
      unfolding x c Option.bind.bind_lunit by simp
  qed
  then show ?thesis unfolding timer_interrupt_handler_def mc_sip_def by (simp add: Let_def)
qed

end
