(* ===== verification/RefineLife.thy ===== *)
theory RefineLife
  imports RefineSem
begin

text \<open>
  Sleeping, \<open>tryWait\<close>, the exit of a thread and the destruction of a semaphore implement the abstract
  operations.
\<close>

lemma a_thread_comp: "a_thread t f (a_thread t g a) = a_thread t (f \<circ> g) a"
  by (simp add: a_thread_def option.map_comp)

lemma sint_inc_neg: "sint (w :: u64) < 0 \<Longrightarrow> sint (w + 1) = sint w + 1"
  using sint_greater_eq [of w] by (simp add: signed_take_bit_int_eq_self sint_word_ariths)

subsection \<open>Sleeping\<close>

lemma put_thread_to_sleep_ok:
  assumes m: "kmem s U (Suc (Suc f))" and t: "alive (abs s) (running s)"
    and A: "set (aasleep (abs s)) \<subseteq> dom (athreads (abs s))" and d: "dispatchable (a_sleep w (abs s))"
  shows "returns (put_runningThread_to_sleep w s) True U (Suc f) (a_dispatch In_sleep (a_sleep w (abs s)))"
proof -
  let ?r = "running s" and ?w = "SYS_TIME s + w"
  have v: "isThreadValid ?r s = Some True" by (rule aliveD [OF m t])
  have "returns (set_threadState ?r SUSPENDED s \<bind> (\<lambda>(_, s). set_timeForWakingUp ?r (SYS_TIME s + w) s \<bind> (\<lambda>(_, s).
      insert_asleep ?r (s\<lparr>numOfThreadsAsleep := numOfThreadsAsleep s + 1\<rparr>) \<bind> (\<lambda>s. dispatch In_sleep s \<bind> (\<lambda>s. Some (True, s))))))
     True U (Suc f) (a_dispatch In_sleep (a_sleep w (abs s)))"
  proof (rule returns_bind [OF set_threadState_ok [OF m t]])
    fix s1 assume s1: "kmem s1 U (Suc (Suc f))" "abs s1 = a_thread ?r (threadState_update (\<lambda>_. SUSPENDED)) (abs s)"
    have t1: "alive (abs s1) ?r" "SYS_TIME s1 = SYS_TIME s" using t abs_time [OF s1(2)] by (simp_all add: s1(2))
    show "returns (set_timeForWakingUp ?r (SYS_TIME s1 + w) s1 \<bind> (\<lambda>(_, s). insert_asleep ?r (s\<lparr>numOfThreadsAsleep := numOfThreadsAsleep s + 1\<rparr>) \<bind>
       (\<lambda>s. dispatch In_sleep s \<bind> (\<lambda>s. Some (True, s))))) True U (Suc f) (a_dispatch In_sleep (a_sleep w (abs s)))"
    proof (rule returns_bind [OF set_timeForWakingUp_ok [OF s1(1) t1(1)]])
      fix s2 assume s2: "kmem s2 U (Suc (Suc f))" "abs s2 = a_thread ?r (timeForWakingUp_update (\<lambda>_. SYS_TIME s1 + w)) (abs s1)"
      let ?s = "s2\<lparr>numOfThreadsAsleep := numOfThreadsAsleep s2 + 1\<rparr>"
      have km: "kmem ?s U (Suc (Suc f))" by (rule kmem_cong [OF s2(1)]) simp_all
      have na: "numOfThreadsAsleep s2 = numOfThreadsAsleep s" using arg_cong [OF s2(2), of anumasleep] by (simp add: s1(2) a_thread_def)
      have ab: "abs ?s = (abs s2)\<lparr>anumasleep := numOfThreadsAsleep s2 + 1\<rparr>" by simp
      have "alive (abs s2) ?r" using t1 by (simp add: s2(2))
      then have t2: "alive (abs ?s) ?r" by (simp add: alive_def)
      have A2: "set (aasleep (abs ?s)) \<subseteq> dom (athreads (abs ?s))" using A unfolding ab s2(2) s1(2) by (simp del: abs_sel)
      have "abs ?s = (a_thread ?r (\<lambda>x. x\<lparr>threadState := SUSPENDED, timeForWakingUp := atime (abs s) + w\<rparr>) (abs s))
          \<lparr>anumasleep := anumasleep (abs s) + 1\<rparr>"
        unfolding ab by (simp only: s2(2) s1(2) na t1(2) a_thread_comp comp_def abs_sel)
      then have e: "a_insert_asleep ?r (abs ?s) = a_sleep w (abs s)"
        by (simp only: a_sleep_def Let_def abs_sel) (simp add: a_thread_def)
      show "returns (insert_asleep ?r ?s \<bind> (\<lambda>s. dispatch In_sleep s \<bind> (\<lambda>s. Some (True, s)))) True U (Suc f)
          (a_dispatch In_sleep (a_sleep w (abs s)))"
      proof (rule returns_bind_goes [OF insert_asleep_ok [OF km t2 A2]], unfold e)
        fix s3 assume s3: "kmem s3 U (Suc f)" "abs s3 = a_sleep w (abs s)"
        have "dispatchable (abs s3)" using d s3(2) by simp
        from dispatch_ok [OF s3(1) this]
        show "returns (dispatch In_sleep s3 \<bind> (\<lambda>s. Some (True, s))) True U (Suc f) (a_dispatch In_sleep (a_sleep w (abs s)))"
          unfolding s3(2) by (rule returns_bind_goes) (auto intro: returnsI)
      qed
    qed
  qed
  then show ?thesis using v by (simp add: put_runningThread_to_sleep_def put_thread_to_sleep_def Let_def)
qed

lemma sleep_wakeup_ok:
  assumes m: "kmem s U f" and t: "alive (abs s) (running s)"
  shows "goes (sleep_wakeup (running s) s) U f (a_sleep_wakeup (abs s))"
  unfolding sleep_wakeup_def
proof (rule goes_bind_returns [OF set_threadState_ok [OF m t]])
  let ?r = "running s"
  fix s1 assume s1: "kmem s1 U f" "abs s1 = a_thread ?r (threadState_update (\<lambda>_. READY)) (abs s)"
  have t1: "alive (abs s1) ?r" using t by (simp add: s1(2))
  show "goes (set_timeForWakingUp ?r 0 s1 \<bind> (\<lambda>(_, s). Some (s\<lparr>numOfThreadsAsleep := numOfThreadsAsleep s - 1\<rparr>))) U f (a_sleep_wakeup (abs s))"
  proof (rule goes_bind_returns [OF set_timeForWakingUp_ok [OF s1(1) t1]])
    fix s2 assume s2: "kmem s2 U f" "abs s2 = a_thread ?r (timeForWakingUp_update (\<lambda>_. 0)) (abs s1)"
    have na: "numOfThreadsAsleep s2 = numOfThreadsAsleep s" using arg_cong [OF s2(2), of anumasleep] by (simp add: s1(2) a_thread_def)
    show "goes (Some (s2\<lparr>numOfThreadsAsleep := numOfThreadsAsleep s2 - 1\<rparr>)) U f (a_sleep_wakeup (abs s))"
    proof (rule goesI)
      show "kmem (s2\<lparr>numOfThreadsAsleep := numOfThreadsAsleep s2 - 1\<rparr>) U f" by (rule kmem_cong [OF s2(1)]) simp_all
      show "abs (s2\<lparr>numOfThreadsAsleep := numOfThreadsAsleep s2 - 1\<rparr>) = a_sleep_wakeup (abs s)"
        by (simp add: s2(2) s1(2) na a_sleep_wakeup_def Let_def a_thread_comp) (simp add: a_thread_def comp_def)
    qed
  qed
qed

subsection \<open>Exit\<close>

lemma context_exit_ok:
  assumes m: "kmem s U (Suc f)" and t: "alive (abs s) (running s)"
    and p: "parentThread (the (athreads (abs s) (running s))) \<noteq> 0 \<Longrightarrow>
      athreads (abs s) (parentThread (the (athreads (abs s) (running s)))) \<noteq> None"
    and d: "dispatchable (a_finish (abs s))"
  shows "goes (context_exit s) U (Suc f) (a_exit (abs s))"
proof -
  obtain x where x: "threads s (running s) = Some x" by (rule aliveD [OF m t])
  let ?p = "parentThread x" and ?g = "\<lambda>x. x\<lparr>numOfChildren := numOfChildren x - 1\<rparr>"
  let ?a = "if ?p \<noteq> 0 then a_thread ?p ?g (abs s) else abs s"
  have "goes (if ?p \<noteq> 0 then upd_thread ?p ?g s else Some s) U (Suc f) ?a"
    using p x upd_thread_ok [OF m, of ?p _ ?g] m by (auto intro: goesI)
  then have "goes ((if ?p \<noteq> 0 then upd_thread ?p ?g s else Some s) \<bind> (\<lambda>s. setFinished (running s) s \<bind> dispatch In_exit_wrapper))
      U (Suc f) (a_exit (abs s))"
  proof (rule goes_bind)
    fix s1 assume s1: "kmem s1 U (Suc f)" "abs s1 = ?a"
    have r: "running s1 = running s" using abs_running [OF s1(2)] by (simp split: if_splits)
    have t1: "alive (abs s1) (running s1)" using t unfolding r s1(2) by (simp split: if_splits)
    show "goes (setFinished (running s1) s1 \<bind> dispatch In_exit_wrapper) U (Suc f) (a_exit (abs s))"
    proof (rule goes_bind [OF setFinished_ok [OF s1(1) t1]])
      fix s2 assume s2: "kmem s2 U (Suc f)" "abs s2 = a_thread (running s1) (threadState_update (\<lambda>_. FINISHED)) (abs s1)"
      have e: "abs s2 = a_finish (abs s)" unfolding s2(2) s1(2) r using x by (simp add: a_finish_def Let_def)
      show "goes (dispatch In_exit_wrapper s2) U (Suc f) (a_exit (abs s))"
        unfolding a_exit_def e [symmetric] by (rule dispatch_ok [OF s2(1)]) (simp add: e d)
    qed
  qed
  then show ?thesis using x by (simp add: context_exit_def)
qed

subsection \<open>The destruction of a semaphore\<close>

lemma tryWait_ok:
  assumes m: "kmem s U f" and p: "asems (abs s) p \<noteq> None"
  shows "returns (tryWait p s) (if a_val (abs s) p < 0 then 0 else 1) U f (a_dec p (abs s))"
proof -
  obtain x where x: "sems s p = Some x" using p by auto
  have "returns (upd_sem p (\<lambda>x. x\<lparr>val := val x - 1\<rparr>) s \<bind> (\<lambda>s. Some (if sint (val x) < 0 then 0 else 1 :: int, s)))
      (if a_val (abs s) p < 0 then 0 else 1) U f (a_dec p (abs s))"
    by (rule returns_bind_goes [OF dec_ok(1) [OF m p]]) (use x in \<open>auto intro: returnsI simp: a_val_def\<close>)
  then show ?thesis using x by (simp add: tryWait_def)
qed

lemma a_unblock_other:
  assumes "u \<noteq> hd (a_queue a p)"
  shows "athreads (a_unblock cause p a) u = athreads a u"
  using assms by (auto simp: a_unblock_def a_release_def a_put_def a_status_def Let_def)

lemma a_unblock_sems:
  assumes "asems a p = Some x"
  shows "asems (a_unblock cause p a) = (asems a)(p \<mapsto> x\<lparr>awaiters := tl (awaiters x)\<rparr>)"
  using assms by (auto simp: a_unblock_def a_release_def a_put_def a_status_def Let_def)

lemma a_unblock_queue:
  "asems a p \<noteq> None \<Longrightarrow> a_queue (a_unblock cause p a) p = tl (a_queue a p)"
  "asems a p \<noteq> None \<Longrightarrow> asems (a_unblock cause p a) p \<noteq> None"
  "asems a p \<noteq> None \<Longrightarrow> a_val (a_unblock cause p a) p = a_val a p"
  by (auto simp: a_unblock_sems a_queue_def a_val_def)

lemma a_val_inc: "asems a p \<noteq> None \<Longrightarrow> a_val a p < 0 \<Longrightarrow> a_val (a_inc p a) p = a_val a p + 1"
  by (auto simp: a_val_def a_inc_def sint_inc_neg)

lemma unblockAll_ok:
  assumes "kmem s U f" "asems (abs s) p \<noteq> None" "int (length (a_queue (abs s) p)) = max 0 (- a_val (abs s) p)"
    "distinct (a_queue (abs s) p)" "\<forall>t\<in>set (a_queue (abs s) p). alive (abs s) t \<and> \<not> a_finished (abs s) t"
  shows "goes (unblockAll cause p s) U f (a_unblockAll cause p (nat (- a_val (abs s) p)) (abs s))"
  using assms
proof (induction "nat (- a_val (abs s) p)" arbitrary: s)
  case 0
  obtain x where x: "sems s p = Some x" using 0(3) by auto
  then have v: "a_val (abs s) p = sint (val x)" by (simp add: a_val_def)
  have "unblockAll cause p s = Some s" using 0(1) x v by (subst unblockAll.simps) simp
  moreover have "nat (- a_val (abs s) p) = 0" using 0(1) by simp
  ultimately show ?case using 0(2) by (simp only: a_unblockAll.simps) (simp add: goesI)
next
  case (Suc n)
  obtain x where x: "sems s p = Some x" using Suc(4) by auto
  then have v: "a_val (abs s) p = sint (val x)" by (simp add: a_val_def)
  have neg: "a_val (abs s) p < 0" using Suc(2) by simp
  then obtain t ts where q: "a_queue (abs s) p = t # ts" using Suc(5) by (cases "a_queue (abs s) p") auto
  have t: "alive (abs s) t" "\<not> a_finished (abs s) t" using Suc(7) q by auto
  let ?a = "a_inc p (a_unblock cause p (abs s))"
  have "goes (unblock cause p s \<bind> (\<lambda>s. upd_sem p (\<lambda>x. x\<lparr>val := val x + 1\<rparr>) s \<bind> unblockAll cause p)) U f
      (a_unblockAll cause p n ?a)"
  proof (rule goes_bind [OF unblock_ok [OF Suc(3,4) q t]])
    fix s1 assume s1: "kmem s1 U f" "abs s1 = a_unblock cause p (abs s)"
    have p1: "asems (abs s1) p \<noteq> None" unfolding s1(2) by (rule a_unblock_queue(2) [OF Suc(4)])
    show "goes (upd_sem p (\<lambda>x. x\<lparr>val := val x + 1\<rparr>) s1 \<bind> unblockAll cause p) U f (a_unblockAll cause p n ?a)"
    proof (rule goes_bind [OF dec_ok(2) [OF s1(1) p1]])
      fix s2 assume s2: "kmem s2 U f" "abs s2 = a_inc p (abs s1)"
      have ab: "abs s2 = ?a" unfolding s2(2) s1(2) by simp
      have v2: "a_val (abs s2) p = a_val (abs s) p + 1"
        unfolding s2(2) using a_val_inc [OF p1] a_unblock_queue(3) [OF Suc(4), of cause] neg by (simp add: s1(2))
      have q2: "a_queue (abs s2) p = ts"
        unfolding ab using a_unblock_queue(1) [OF Suc(4), of cause] a_unblock_queue(2) [OF Suc(4), of cause] q by (simp add: a_inc_def a_queue_def split: option.splits)
      have p2: "asems (abs s2) p \<noteq> None" unfolding s2(2) using p1 by (simp add: a_inc_def del: abs_sel)
      have "alive (abs s2) u \<and> \<not> a_finished (abs s2) u" if u: "u \<in> set ts" for u
      proof -
        have "u \<noteq> hd (a_queue (abs s) p)" using u Suc(6) q by auto
        from a_unblock_other [OF this, of cause] have "athreads (abs s2) u = athreads (abs s) u" unfolding ab by (simp add: a_inc_def)
        then show ?thesis using Suc(7) q u by (simp add: alive_def a_finished_def)
      qed
      moreover have "n = nat (- a_val (abs s2) p)" using Suc(2) v2 by simp
      ultimately have "goes (unblockAll cause p s2) U f (a_unblockAll cause p (nat (- a_val (abs s2) p)) (abs s2))"
        using Suc(1) [OF _ s2(1) p2] Suc(5,6) q v2 neg unfolding q2 by simp
      then show "goes (unblockAll cause p s2) U f (a_unblockAll cause p n ?a)"
        using \<open>n = nat (- a_val (abs s2) p)\<close> ab by simp
    qed
  qed
  moreover have "unblockAll cause p s = unblock cause p s \<bind> (\<lambda>s. upd_sem p (\<lambda>x. x\<lparr>val := val x + 1\<rparr>) s \<bind> unblockAll cause p)"
    using x v neg by (subst unblockAll.simps) simp
  ultimately show ?case using Suc(2) [symmetric] by (simp only: a_unblockAll.simps)
qed

lemma a_unblockAll_other:
  "a_queue a p = xs @ ys \<Longrightarrow> length xs = n \<Longrightarrow> asems a p \<noteq> None \<Longrightarrow>
   a_queue (a_unblockAll cause p n a) p = ys \<and> asems (a_unblockAll cause p n a) p \<noteq> None \<and>
   aallsems (a_unblockAll cause p n a) = aallsems a"
proof (induction n arbitrary: a xs)
  case 0
  then show ?case by simp
next
  case (Suc n)
  let ?a = "a_inc p (a_unblock cause p a)"
  have "a_queue ?a p = tl (a_queue a p)" "asems ?a p \<noteq> None"
    using a_unblock_queue(1,2) [OF Suc.prems(3), of cause] by (auto simp: a_inc_def a_queue_def split: option.splits)
  moreover have "aallsems ?a = aallsems a" by (simp add: a_inc_def a_unblock_def a_release_def a_put_def Let_def)
  ultimately show ?case using Suc.IH [of ?a "tl xs"] Suc.prems(1,2) by (cases xs) auto
qed

lemma delete_sem_ok:
  assumes m: "kmem s U f" and p: "asems (abs s) p \<noteq> None" "p \<in> set (aallsems (abs s))"
    and q: "int (length (a_queue (abs s) p)) = max 0 (- a_val (abs s) p)" "distinct (a_queue (abs s) p)"
    "\<forall>t\<in>set (a_queue (abs s) p). alive (abs s) t \<and> \<not> a_finished (abs s) t"
  shows "goes (delete_sem p s) U (Suc (Suc f)) (a_close p (abs s))"
  unfolding delete_sem_def
proof (rule goes_bind [OF unblockAll_ok [OF m p(1) q]])
  fix s1 assume s1: "kmem s1 U f" "abs s1 = a_unblockAll SEM_DELETED p (nat (- a_val (abs s) p)) (abs s)"
  have "a_queue (abs s) p = a_queue (abs s) p @ []" "length (a_queue (abs s) p) = nat (- a_val (abs s) p)"
    using q(1) by simp_all
  from a_unblockAll_other [OF this p(1), of SEM_DELETED] p(2)
  have "asems (abs s1) p \<noteq> None" "a_queue (abs s1) p = []" "p \<in> set (aallsems (abs s1))"
    unfolding s1(2) by (simp_all del: abs_sel)
  from remove_sem_ok [OF s1(1) this]
  show "goes (do {
     (_, xs, h) \<leftarrow> k_removeSpec p (allSemaphores s1) (kheap s1);
     let s = s1\<lparr>allSemaphores := xs, kheap := h, numOfAllSemaphores := numOfAllSemaphores s1 - 1\<rparr>;
     (_, h) \<leftarrow> kmfree p (kheap s);
     Some (s\<lparr>kheap := h, sems := (sems s)(p := None)\<rparr>)
   }) U (Suc (Suc f)) (a_close p (abs s))"
    unfolding s1(2) a_close_def by (simp add: Let_def del: abs_sel)
qed

end
