(* ===== verification/AbstractInvariant.thy ===== *)
theory AbstractInvariant
  imports RefineLife
begin

text \<open>
  The invariant of the abstract kernel. Every live thread but the running one is parked in exactly one
  place, with the status and the saved context that belong there; a semaphore's negative value counts
  its waiters; the list of sleeping threads is sorted by waking time; the thread \<open>m\<close> that never blocks
  (the first thread) runs or is ready, so that a switch always finds a thread.
\<close>

subsection \<open>Places\<close>

datatype place = Nowhere | In_ready | In_asleep | In_queue u64 | In_both u64

definition stands :: "akernel \<Rightarrow> u64 \<Rightarrow> place \<Rightarrow> bool" where
  "stands a t pl \<longleftrightarrow> (t \<in> set (aready a)) = (pl = In_ready) \<and>
     (t \<in> set (aasleep a)) = (pl = In_asleep \<or> (\<exists>p. pl = In_both p)) \<and>
     (\<forall>p. (t \<in> set (a_queue a p)) = (pl = In_queue p \<or> pl = In_both p))"

fun woken :: "resume_point \<Rightarrow> threadsSemStatus set" where
  "woken (In_wait p) = {REGULARLY_WAITED, SEM_DELETED}"
| "woken (In_getChar p) = {REGULARLY_WAITED, SEM_DELETED}"
| "woken (In_timedWait p) = {REGULARLY_WAITED, SEM_DELETED, TIMEOUT}"
| "woken _ = {NON_WAITING}"

fun resting :: "thread \<Rightarrow> place \<Rightarrow> bool" where
  "resting x Nowhere = False"
| "resting x In_ready = (semStatus x \<in> woken (saved_context x))"
| "resting x In_asleep = (saved_context x = In_sleep \<and> semStatus x = NON_WAITING)"
| "resting x (In_queue p) = (semStatus x = WAITING \<and> mySem x = p \<and> saved_context x \<in> {In_wait p, In_getChar p})"
| "resting x (In_both p) = (semStatus x = TIMEDWAITING \<and> mySem x = p \<and> saved_context x = In_timedWait p)"

definition returnable :: "akernel \<Rightarrow> resume_point \<Rightarrow> bool" where
  "returnable a k \<longleftrightarrow> (\<forall>p. k = In_timedWait p \<longrightarrow> asems a p \<noteq> None)"

definition parked :: "akernel \<Rightarrow> u64 \<Rightarrow> place \<Rightarrow> bool" where
  "parked a t pl \<longleftrightarrow> (\<exists>x. athreads a t = Some x \<and> myMagicNumber x = THREAD_MAGIC_NUMBER \<and> threadState x \<noteq> FINISHED \<and>
     stands a t pl \<and> resting x pl \<and> returnable a (saved_context x))"

subsection \<open>The invariant\<close>

definition lists_ok :: "akernel \<Rightarrow> bool" where
  "lists_ok a \<longleftrightarrow> distinct (aready a) \<and> distinct (aasleep a) \<and> (\<forall>p. distinct (a_queue a p)) \<and>
     set (aready a) \<union> set (aasleep a) \<union> (\<Union>p. set (a_queue a p)) \<subseteq> dom (athreads a) \<and> athreads a 0 = None"

definition sems_ok :: "akernel \<Rightarrow> bool" where
  "sems_ok a \<longleftrightarrow> asems a 0 = None \<and>
     (\<forall>p x. asems a p = Some x \<longrightarrow> int (length (awaiters x)) = max 0 (- sint (aval x)) \<and> p \<in> set (aallsems a))"

definition time_ok :: "akernel \<Rightarrow> bool" where
  "time_ok a \<longleftrightarrow> sorted (map (a_wake_time a) (aasleep a))"

definition con_ok :: "akernel \<Rightarrow> bool" where
  "con_ok a \<longleftrightarrow> (con_initialized (acon a) \<longrightarrow> asems a (characterReadyToGet (acon a)) \<noteq> None)"

definition others_parked :: "akernel \<Rightarrow> bool" where
  "others_parked a \<longleftrightarrow> (\<forall>u\<in>dom (athreads a) - {arunning a}. \<exists>pl. parked a u pl)"

definition shape :: "akernel \<Rightarrow> bool" where
  "shape a \<longleftrightarrow> lists_ok a \<and> sems_ok a \<and> time_ok a \<and> con_ok a \<and> others_parked a"

definition ainv :: "u64 \<Rightarrow> akernel \<Rightarrow> bool" where
  "ainv m a \<longleftrightarrow> shape a \<and> (m = arunning a \<or> m \<in> set (aready a)) \<and> stands a (arunning a) Nowhere \<and>
     (\<exists>x. athreads a (arunning a) = Some x \<and> myMagicNumber x = THREAD_MAGIC_NUMBER \<and> readyToRun x \<and> semStatus x = NON_WAITING)"

text \<open>After a switch, before the rest of the new thread's system call has run.\<close>

definition switched :: "u64 \<Rightarrow> akernel \<Rightarrow> bool" where
  "switched m a \<longleftrightarrow> shape a \<and> (m = arunning a \<or> m \<in> set (aready a)) \<and> stands a (arunning a) Nowhere \<and>
     (\<exists>x. athreads a (arunning a) = Some x \<and> myMagicNumber x = THREAD_MAGIC_NUMBER \<and> threadState x = RUNNING \<and>
        resting x In_ready \<and> returnable a (saved_context x))"

text \<open>Before a switch at the point \<open>k\<close>.\<close>

definition leaving :: "u64 \<Rightarrow> resume_point \<Rightarrow> akernel \<Rightarrow> bool" where
  "leaving m k a \<longleftrightarrow> shape a \<and> returnable a k \<and>
     (\<exists>x. athreads a (arunning a) = Some x \<and> myMagicNumber x = THREAD_MAGIC_NUMBER \<and>
       (if readyToRun x then stands a (arunning a) Nowhere \<and> semStatus x \<in> woken k \<and> (m = arunning a \<or> m \<in> set (aready a))
        else if threadState x = FINISHED then stands a (arunning a) Nowhere \<and> m \<in> set (aready a)
        else (\<exists>pl. stands a (arunning a) pl \<and> pl \<noteq> In_ready \<and> resting (x\<lparr>saved_context := k\<rparr>) pl) \<and> m \<in> set (aready a)))"

definition all_parked :: "u64 \<Rightarrow> akernel \<Rightarrow> bool" where
  "all_parked m a \<longleftrightarrow> lists_ok a \<and> sems_ok a \<and> time_ok a \<and> con_ok a \<and> (\<forall>u\<in>dom (athreads a). \<exists>pl. parked a u pl) \<and> m \<in> set (aready a)"

subsection \<open>Frames\<close>

lemma parked_frame:
  assumes "parked a u pl" "athreads b u = athreads a u" "(u \<in> set (aready b)) = (u \<in> set (aready a))"
    "(u \<in> set (aasleep b)) = (u \<in> set (aasleep a))" "\<And>p. (u \<in> set (a_queue b p)) = (u \<in> set (a_queue a p))"
    "\<And>p. asems a p \<noteq> None \<Longrightarrow> asems b p \<noteq> None"
  shows "parked b u pl"
proof -
  have "stands b u pl = stands a u pl" unfolding stands_def using assms(3,4,5) by simp
  then show ?thesis using assms(1,2,6) unfolding parked_def returnable_def by auto
qed

lemma others_parked_frame:
  assumes "others_parked a" "dom (athreads b) \<subseteq> dom (athreads a)" "arunning b = arunning a"
    "\<And>u. u \<noteq> arunning a \<Longrightarrow> athreads b u = athreads a u \<and> (u \<in> set (aready b)) = (u \<in> set (aready a)) \<and>
       (u \<in> set (aasleep b)) = (u \<in> set (aasleep a)) \<and> (\<forall>p. (u \<in> set (a_queue b p)) = (u \<in> set (a_queue a p)))"
    "\<And>p. asems a p \<noteq> None \<Longrightarrow> asems b p \<noteq> None"
  shows "others_parked b"
  unfolding others_parked_def
proof
  fix u assume u: "u \<in> dom (athreads b) - {arunning b}"
  then have "u \<in> dom (athreads a) - {arunning a}" using assms(2,3) by auto
  then obtain pl where "parked a u pl" using assms(1) unfolding others_parked_def by blast
  then have "parked b u pl" by (rule parked_frame) (use u assms(3,4,5) in auto)
  then show "\<exists>pl. parked b u pl" ..
qed

lemma time_ok_cong:
  assumes "aasleep b = aasleep a" "\<And>u. u \<in> set (aasleep a) \<Longrightarrow> a_wake_time b u = a_wake_time a u"
  shows "time_ok b = time_ok a"
  unfolding time_ok_def assms(1) using assms(2) by (metis (mono_tags, lifting) list.map_cong0)

lemma parked_ready: "parked a t pl \<Longrightarrow> t \<in> set (aready a) \<Longrightarrow> pl = In_ready"
  by (auto simp: parked_def stands_def)

lemma parked_alive: "parked a t pl \<Longrightarrow> alive a t \<and> \<not> a_finished a t"
  by (auto simp: parked_def alive_def a_finished_def)

lemma a_queue_thread [simp]: "a_queue (a_thread t f a) p = a_queue a p"
  by (simp add: a_queue_def)

lemma acon_upd [simp]: "acon (a_thread t f a) = acon a" "acon (a_sem p g a) = acon a"
  by (simp_all add: a_thread_def a_sem_def)

lemma stands_thread [simp]: "stands (a_thread t f a) u pl = stands a u pl"
  by (simp add: stands_def)

lemma lists_ok_thread [simp]: "lists_ok (a_thread t f a) = lists_ok a"
  by (simp add: lists_ok_def)

lemma sems_ok_thread [simp]: "sems_ok (a_thread t f a) = sems_ok a"
  by (simp add: sems_ok_def)

lemma con_ok_thread [simp]: "con_ok (a_thread t f a) = con_ok a"
  by (simp add: con_ok_def)

lemma returnable_thread [simp]: "returnable (a_thread t f a) k = returnable a k"
  by (simp add: returnable_def)

lemma a_wake_time_thread: "(\<And>x. timeForWakingUp (f x) = timeForWakingUp x) \<Longrightarrow> a_wake_time (a_thread t f a) u = a_wake_time a u"
  by (auto simp: a_wake_time_def split: option.splits)

lemma a_wake_time_other: "u \<noteq> t \<Longrightarrow> a_wake_time (a_thread t f a) u = a_wake_time a u"
  by (auto simp: a_wake_time_def split: option.splits)

lemma time_ok_thread [simp]: "(\<And>x. timeForWakingUp (f x) = timeForWakingUp x) \<Longrightarrow> time_ok (a_thread t f a) = time_ok a"
  by (rule time_ok_cong) (simp_all add: a_wake_time_thread)

lemma others_parked_thread:
  "others_parked a \<Longrightarrow> t = arunning a \<Longrightarrow> others_parked (a_thread t f a)"
  by (rule others_parked_frame) auto

lemma shape_thread:
  "shape a \<Longrightarrow> t = arunning a \<Longrightarrow> (\<And>x. timeForWakingUp (f x) = timeForWakingUp x) \<Longrightarrow> shape (a_thread t f a)"
  by (simp add: shape_def others_parked_thread)

subsection \<open>The switch\<close>

lemma all_parked_purge:
  assumes "all_parked m a"
  shows "a_purge a = a" "aready a \<noteq> []" "\<forall>t\<in>set (aready a). alive a t \<and> \<not> a_finished a t" "distinct (aready a)"
proof -
  have l: "set (aready a) \<subseteq> dom (athreads a)" "\<And>u. u \<in> dom (athreads a) \<Longrightarrow> \<exists>pl. parked a u pl" "distinct (aready a)" "m \<in> set (aready a)"
    using assms by (simp_all add: all_parked_def lists_ok_def)
  show r: "\<forall>t\<in>set (aready a). alive a t \<and> \<not> a_finished a t"
  proof
    fix t assume "t \<in> set (aready a)"
    then obtain pl where "parked a t pl" using l(1,2) by blast
    then show "alive a t \<and> \<not> a_finished a t" by (rule parked_alive)
  qed
  show n: "aready a \<noteq> []" and "distinct (aready a)" using l by auto
  then obtain t ts where q: "aready a = t # ts" by (cases "aready a") auto
  then show "a_purge a = a" using r by (intro a_purge_simps(2)) auto
qed

lemma a_enter_switched:
  assumes "all_parked m a"
  shows "switched m (a_enter a)"
proof -
  obtain t ts where q: "aready a = t # ts" using all_parked_purge(2) [OF assms] by (cases "aready a") auto
  have l: "lists_ok a" "sems_ok a" "time_ok a" "con_ok a" "m \<in> set (aready a)" and
    pk: "\<And>u. u \<in> dom (athreads a) \<Longrightarrow> \<exists>pl. parked a u pl" using assms by (auto simp: all_parked_def)
  have td: "t \<in> dom (athreads a)" "t \<notin> set ts" using l(1) q by (auto simp: lists_ok_def)
  let ?b = "a\<lparr>arunning := t, aready := ts\<rparr>"
  have e: "a_enter a = a_thread t (threadState_update (\<lambda>_. RUNNING)) ?b" using q by (simp add: a_enter_def)
  obtain pl where "parked a t pl" using pk [OF td(1)] by auto
  then have "parked a t In_ready" using parked_ready q by fastforce
  then obtain x where x: "athreads a t = Some x" "myMagicNumber x = THREAD_MAGIC_NUMBER" "stands a t In_ready"
    "resting x In_ready" "returnable a (saved_context x)" by (auto simp: parked_def)
  have qb: "a_queue ?b p = a_queue a p" for p by (simp add: a_queue_def)
  have "others_parked ?b" unfolding others_parked_def
  proof
    fix u assume u: "u \<in> dom (athreads ?b) - {arunning ?b}"
    then obtain pl where "parked a u pl" using pk [of u] by auto
    then have "parked ?b u pl" by (rule parked_frame) (use u q qb in auto)
    then show "\<exists>pl. parked ?b u pl" ..
  qed
  moreover have "lists_ok ?b" using l(1) q by (auto simp: lists_ok_def qb)
  moreover have "sems_ok ?b" "con_ok ?b" using l(2,4) by (auto simp: sems_ok_def con_ok_def)
  moreover have "time_ok ?b" using l(3) by (simp add: time_ok_def a_wake_time_def cong: map_cong)
  ultimately have "shape ?b" by (simp add: shape_def)
  then have "shape (a_enter a)" unfolding e by (rule shape_thread) simp_all
  moreover have "stands ?b t Nowhere" using x(3) q td(2) by (auto simp: stands_def qb)
  moreover have "m = t \<or> m \<in> set ts" using l(5) q by auto
  ultimately show ?thesis unfolding switched_def e using x by (simp add: returnable_def)
qed

lemma all_parkedI:
  assumes a: "shape a" "athreads a (arunning a) = Some x"
    and b: "athreads b = (athreads a)(arunning a := y)" "aasleep b = aasleep a" "asems b = asems a" "acon b = acon a"
      "aallsems b = aallsems a" "aready b = aready a \<or> (aready b = aready a @ [arunning a] \<and> arunning a \<notin> set (aready a))"
    and y: "y = None \<longrightarrow> stands b (arunning a) Nowhere" "\<And>z. y = Some z \<Longrightarrow> timeForWakingUp z = timeForWakingUp x \<and> (\<exists>pl. parked b (arunning a) pl)"
    and m: "m \<in> set (aready b)"
  shows "all_parked m b"
proof -
  let ?r = "arunning a"
  have qb: "a_queue b p = a_queue a p" for p using b(3) by (simp add: a_queue_def)
  have l: "lists_ok a" "sems_ok a" "time_ok a" "con_ok a" "others_parked a" using a(1) by (simp_all add: shape_def)
  have la: "distinct (aready a)" "distinct (aasleep a)" "\<And>p. distinct (a_queue a p)" "set (aready a) \<subseteq> dom (athreads a)"
    "set (aasleep a) \<subseteq> dom (athreads a)" "\<And>p. set (a_queue a p) \<subseteq> dom (athreads a)" "athreads a 0 = None"
    using l(1) unfolding lists_ok_def Un_subset_iff UN_subset_iff by simp_all
  have dist: "distinct (aready b)" using b(6) la(1) by (elim disjE) simp_all
  have nor: "?r \<notin> set (aready b)" "?r \<notin> set (aasleep a)" "?r \<notin> set (a_queue a p)" if "y = None" for p
    using y(1) that b(2) unfolding stands_def qb by simp_all
  have rb: "set (aready b) \<subseteq> insert ?r (dom (athreads a))" using b(6) la(4) by (elim disjE) auto
  have r0: "?r \<noteq> 0" using la(7) a(2) by auto
  have d: "X \<subseteq> dom (athreads b)" if "X \<subseteq> insert ?r (dom (athreads a))" "y = None \<Longrightarrow> ?r \<notin> X" for X
    using that a(2) unfolding b(1) by (cases y) auto
  have "set (aready b) \<subseteq> dom (athreads b)" "set (aasleep a) \<subseteq> dom (athreads b)" by (rule d; use rb nor la(5) in auto)+
  moreover have "set (a_queue a p) \<subseteq> dom (athreads b)" for p
    by (rule d [OF order_trans [OF la(6) subset_insertI] nor(3)])
  moreover have "athreads b 0 = None" using la(7) r0 b(1) by simp
  ultimately have "lists_ok b" unfolding lists_ok_def qb b(2) Un_subset_iff UN_subset_iff using dist la(2,3) by simp
  moreover have "sems_ok b" "con_ok b" using l(2,4) b(3,4,5) by (simp_all add: sems_ok_def con_ok_def)
  moreover have "a_wake_time b u = a_wake_time a u" if u: "u \<in> set (aasleep a)" for u
  proof (cases "u = ?r")
    case True
    then obtain z where z: "y = Some z" using nor(2) u by (cases y) auto
    then have "timeForWakingUp z = timeForWakingUp x" using y(2) by blast
    then show ?thesis unfolding a_wake_time_def b(1) using z True a(2) by simp
  qed (simp add: a_wake_time_def b(1))
  then have "time_ok b" using time_ok_cong [OF b(2)] l(3) by simp
  moreover have "\<exists>pl. parked b u pl" if u: "u \<in> dom (athreads b)" for u
  proof (cases "u = ?r")
    case True
    then obtain z where "y = Some z" using domD [OF u] b(1) by auto
    then show ?thesis using y(2) True by blast
  next
    case False
    then have "u \<in> dom (athreads a) - {?r}" using u b(1) by (auto split: if_splits)
    then obtain pl where "parked a u pl" using l(5) unfolding others_parked_def by blast
    moreover have "athreads b u = athreads a u" "(u \<in> set (aready b)) = (u \<in> set (aready a))" using False b(1,6) by auto
    ultimately have "parked b u pl" by (rule parked_frame) (simp_all add: b(2,3) qb)
    then show ?thesis ..
  qed
  ultimately show ?thesis using m by (simp add: all_parked_def)
qed

lemma a_leave_all_parked:
  assumes "leaving m k a"
  shows "all_parked m (a_thread (arunning a) (saved_context_update (\<lambda>_. k)) (a_leave a))"
proof -
  let ?r = "arunning a"
  obtain x where sh: "shape a" "returnable a k" and x: "athreads a ?r = Some x" "myMagicNumber x = THREAD_MAGIC_NUMBER" and
    c: "if readyToRun x then stands a ?r Nowhere \<and> semStatus x \<in> woken k \<and> (m = ?r \<or> m \<in> set (aready a))
        else if threadState x = FINISHED then stands a ?r Nowhere \<and> m \<in> set (aready a)
        else (\<exists>pl. stands a ?r pl \<and> pl \<noteq> In_ready \<and> resting (x\<lparr>saved_context := k\<rparr>) pl) \<and> m \<in> set (aready a)"
    using assms unfolding leaving_def by blast
  let ?b = "a_thread ?r (saved_context_update (\<lambda>_. k)) (a_leave a)"
  consider "readyToRun x" | "\<not> readyToRun x" "threadState x = FINISHED" | "\<not> readyToRun x" "threadState x \<noteq> FINISHED" by blast
  then show ?thesis
  proof cases
    case 1
    have nr: "stands a ?r Nowhere" "semStatus x \<in> woken k" "m = ?r \<or> m \<in> set (aready a)" using c 1 by auto
    let ?y = "x\<lparr>threadState := READY, saved_context := k\<rparr>"
    have b: "athreads ?b = (athreads a)(?r \<mapsto> ?y)" "aready ?b = aready a @ [?r]" "aasleep ?b = aasleep a" "asems ?b = asems a"
      "acon ?b = acon a" "aallsems ?b = aallsems a" "\<And>p. a_queue ?b p = a_queue a p"
      using 1 x by (auto simp: a_leave_def Let_def a_put_def a_thread_def a_queue_def)
    have "stands ?b ?r In_ready" using nr(1) unfolding stands_def b by simp
    then have pk: "parked ?b ?r In_ready" using x(2) nr(2) sh(2) unfolding parked_def returnable_def b by simp
    show ?thesis by (rule all_parkedI [OF sh(1) x(1) b(1) b(3-6)]) (use b(2) nr pk in \<open>auto simp: stands_def\<close>)
  next
    case 2
    have nr: "stands a ?r Nowhere" "m \<in> set (aready a)" using c 2 by auto
    have b: "athreads ?b = (athreads a)(?r := None)" "aready ?b = aready a" "aasleep ?b = aasleep a" "asems ?b = asems a"
      "acon ?b = acon a" "aallsems ?b = aallsems a" "\<And>p. a_queue ?b p = a_queue a p"
      using 2 x by (auto simp: a_leave_def Let_def a_put_def a_thread_def a_queue_def)
    have st: "stands ?b ?r Nowhere" using nr(1) unfolding stands_def b .
    show ?thesis by (rule all_parkedI [OF sh(1) x(1) b(1) b(3-6)]) (use b(2) nr st in auto)
  next
    case 3
    then obtain pl where pl: "stands a ?r pl" "pl \<noteq> In_ready" "resting (x\<lparr>saved_context := k\<rparr>) pl" and nm: "m \<in> set (aready a)" using c by auto
    have b: "athreads ?b = (athreads a)(?r \<mapsto> x\<lparr>saved_context := k\<rparr>)" "aready ?b = aready a" "aasleep ?b = aasleep a" "asems ?b = asems a"
      "acon ?b = acon a" "aallsems ?b = aallsems a" "\<And>p. a_queue ?b p = a_queue a p"
      using 3 x by (auto simp: a_leave_def Let_def a_put_def a_thread_def a_queue_def)
    have "stands ?b ?r pl" using pl(1) unfolding stands_def b .
    then have pk: "parked ?b ?r pl" using x(2) pl(3) 3(2) sh(2) unfolding parked_def returnable_def b by simp
    show ?thesis by (rule all_parkedI [OF sh(1) x(1) b(1) b(3-6)]) (use b(2) nm pk in auto)
  qed
qed

lemma leaving_dispatchable:
  assumes "leaving m k a"
  shows "dispatchable a"
proof -
  let ?f = "saved_context_update (\<lambda>_. k)"
  note p = all_parked_purge [OF a_leave_all_parked [OF assms]]
  have "alive a (arunning a)" using assms by (auto simp: leaving_def alive_def)
  moreover have "distinct (aready (a_leave a))" using p(4) by simp
  moreover have "\<forall>t\<in>set (aready (a_leave a)). alive (a_leave a) t \<and> \<not> a_finished (a_leave a) t" using p(3) by simp
  moreover have "aready (a_leave a) \<noteq> []" using p(2) by simp
  ultimately show ?thesis unfolding dispatchable_def by (meson hd_in_set)
qed

lemma thread_upd_commute: "(x :: thread)\<lparr>saved_context := k, threadState := st\<rparr> = x\<lparr>threadState := st, saved_context := k\<rparr>"
  by (cases x) simp

lemma a_dispatch_switched:
  assumes "leaving m k a"
  shows "switched m (a_dispatch k a)"
proof -
  let ?f = "saved_context_update (\<lambda>_. k)" and ?r = "arunning a"
  note ap = a_leave_all_parked [OF assms]
  note p = all_parked_purge [OF ap]
  have "a_purge (a_leave a) = a_leave a" using p(2,3) a_purge_simps(2) by (cases "aready (a_leave a)") auto
  moreover have "a_thread ?r ?f (a_enter b) = a_enter (a_thread ?r ?f b)" for b
    by (simp add: a_enter_def a_thread_def option.map_comp comp_def thread_upd_commute) (auto simp: fun_eq_iff)
  ultimately have "a_dispatch k a = a_enter (a_thread ?r ?f (a_leave a))" by (simp add: a_dispatch_def)
  then show ?thesis using a_enter_switched [OF ap] by simp
qed

end
