(* ===== verification/InvariantOps.thy ===== *)
theory InvariantOps
  imports AbstractInvariant
begin

text \<open>
  The operations of the abstract kernel keep the invariant: each operation that ends in a switch leads
  from \<open>ainv\<close> to \<open>leaving\<close>, each other one from \<open>ainv\<close> to \<open>ainv\<close>.
\<close>

subsection \<open>Frames\<close>

lemma shapeI:
  assumes a: "shape a" "arunning b = arunning a" "t \<in> dom (athreads a)" "athreads b = (athreads a)(t \<mapsto> y)"
    and d: "distinct (aready b)" "distinct (aasleep b)" "\<And>p. distinct (a_queue b p)"
    and u: "\<And>u. u \<noteq> t \<Longrightarrow> (u \<in> set (aready b)) = (u \<in> set (aready a))"
      "\<And>u. u \<noteq> t \<Longrightarrow> (u \<in> set (aasleep b)) = (u \<in> set (aasleep a))"
      "\<And>u p. u \<noteq> t \<Longrightarrow> (u \<in> set (a_queue b p)) = (u \<in> set (a_queue a p))"
    and s: "sems_ok b" "time_ok b" "acon b = acon a" "\<And>p. asems a p \<noteq> None \<Longrightarrow> asems b p \<noteq> None"
    and p: "t \<noteq> arunning a \<Longrightarrow> \<exists>pl. parked b t pl"
  shows "shape b"
proof -
  have sh: "lists_ok a" "con_ok a" "others_parked a" using a(1) by (simp_all add: shape_def)
  have la: "set (aready a) \<subseteq> dom (athreads a)" "set (aasleep a) \<subseteq> dom (athreads a)" "\<And>p. set (a_queue a p) \<subseteq> dom (athreads a)"
    "athreads a 0 = None" using sh(1) unfolding lists_ok_def Un_subset_iff UN_subset_iff by simp_all
  have t0: "t \<noteq> 0" using a(3) la(4) by auto
  have dm: "dom (athreads b) = dom (athreads a)" using a(3,4) by auto
  have sub: "X \<subseteq> dom (athreads b)" if "\<And>u. u \<noteq> t \<Longrightarrow> (u \<in> X) = (u \<in> Y)" "Y \<subseteq> dom (athreads a)" for X Y
    unfolding dm
  proof
    fix v assume v: "v \<in> X"
    show "v \<in> dom (athreads a)"
    proof (cases "v = t")
      case True
      then show ?thesis using a(3) by simp
    next
      case False
      then show ?thesis using v that by blast
    qed
  qed
  have "set (aready b) \<subseteq> dom (athreads b)" "set (aasleep b) \<subseteq> dom (athreads b)" by (rule sub; use u la in simp)+
  moreover have "set (a_queue b p) \<subseteq> dom (athreads b)" for p by (rule sub [OF u(3) la(3)])
  moreover have "athreads b 0 = None" using a(4) la(4) t0 by simp
  ultimately have "lists_ok b" unfolding lists_ok_def Un_subset_iff UN_subset_iff using d by simp
  moreover have "con_ok b" using sh(2) s(3,4) by (simp add: con_ok_def)
  moreover have "others_parked b" unfolding others_parked_def
  proof
    fix v assume v: "v \<in> dom (athreads b) - {arunning b}"
    show "\<exists>pl. parked b v pl"
    proof (cases "v = t")
      case True
      then show ?thesis using p v a(2) by auto
    next
      case False
      have "v \<in> dom (athreads a) - {arunning a}" using v dm a(2) by auto
      then obtain pl where "parked a v pl" using sh(3) unfolding others_parked_def by blast
      then have "parked b v pl" by (rule parked_frame) (use False u s(4) a(4) in auto)
      then show ?thesis ..
    qed
  qed
  ultimately show ?thesis using s(1,2) by (simp add: shape_def)
qed

lemma sems_ok_upd:
  "sems_ok a \<Longrightarrow> asems a p \<noteq> None \<Longrightarrow> asems b = (asems a)(p \<mapsto> z) \<Longrightarrow> aallsems b = aallsems a \<Longrightarrow>
   int (length (awaiters z)) = max 0 (- sint (aval z)) \<Longrightarrow> sems_ok b"
  by (auto simp: sems_ok_def)

lemma sint_dec: "- (2 ^ 63) < sint (w :: u64) \<Longrightarrow> sint (w - 1) = sint w - 1"
  using sint_less [of w] by (simp add: signed_take_bit_int_eq_self sint_word_ariths)

lemma sint_inc: "sint (w :: u64) < 2 ^ 63 - 1 \<Longrightarrow> sint (w + 1) = sint w + 1"
  using sint_greater_eq [of w] by (simp add: signed_take_bit_int_eq_self sint_word_ariths)

lemma sems_okD:
  assumes "sems_ok a" "asems a p = Some x"
  shows "int (length (awaiters x)) = max 0 (- sint (aval x))" "a_val a p = sint (aval x)" "a_queue a p = awaiters x"
  using assms by (auto simp: sems_ok_def a_val_def a_queue_def)

lemma sorted_place_insort:
  "takeWhile (\<lambda>x. f x < f t) xs @ t # dropWhile (\<lambda>x. f x < f t) xs = insort_key (f :: u64 \<Rightarrow> u64) t xs"
  by (induction xs) auto

lemma a_insert_asleep_sel [simp]:
  "athreads (a_insert_asleep t a) = athreads a" "asems (a_insert_asleep t a) = asems a" "arunning (a_insert_asleep t a) = arunning a"
  "aready (a_insert_asleep t a) = aready a" "aallsems (a_insert_asleep t a) = aallsems a" "acon (a_insert_asleep t a) = acon a"
  "aasleep (a_insert_asleep t a) = insort_key (a_wake_time a) t (aasleep a)"
  "a_wake_time (a_insert_asleep t a) = a_wake_time a" "a_queue (a_insert_asleep t a) p = a_queue a p"
  "atime (a_insert_asleep t a) = atime a"
  by (simp_all add: a_insert_asleep_def sorted_place_insort) (simp_all add: a_wake_time_def a_queue_def fun_eq_iff)

lemma a_wake_time_sem [simp]: "a_wake_time (a_sem p f a) = a_wake_time a"
  by (simp add: a_wake_time_def fun_eq_iff)

lemma ainvE:
  assumes "ainv m a"
  obtains x where "shape a" "m = arunning a \<or> m \<in> set (aready a)" "stands a (arunning a) Nowhere"
    "athreads a (arunning a) = Some x" "myMagicNumber x = THREAD_MAGIC_NUMBER" "readyToRun x" "semStatus x = NON_WAITING"
  using assms by (auto simp: ainv_def)

subsection \<open>Switches\<close>

lemma leaving_dispatch:
  assumes "ainv m a" "woken k = {NON_WAITING}"
  shows "leaving m k a"
proof -
  have "returnable a k" using assms(2) by (cases k) (auto simp: returnable_def)
  then show ?thesis using assms unfolding ainv_def leaving_def by auto
qed

lemma leaving_block:
  assumes i: "ainv m a" and m: "m \<noteq> arunning a" and k: "k p \<in> {In_wait p, In_getChar p}"
    and p: "asems a p \<noteq> None" and v: "a_val a p \<le> 0" "- (2 ^ 63) < a_val a p"
  shows "leaving m (k p) (a_block p (a_dec p a))"
proof -
  let ?r = "arunning a" and ?b = "a_block p (a_dec p a)"
  obtain x where sh: "shape a" and mr: "m = ?r \<or> m \<in> set (aready a)" and st: "stands a ?r Nowhere" and
    x: "athreads a ?r = Some x" "myMagicNumber x = THREAD_MAGIC_NUMBER" "readyToRun x" "semStatus x = NON_WAITING"
    by (rule ainvE [OF i])
  obtain z where z: "asems a p = Some z" using p by auto
  have ok: "lists_ok a" "sems_ok a" "time_ok a" using sh by (simp_all add: shape_def)
  note zz = sems_okD [OF ok(2) z]
  let ?y = "x\<lparr>semStatus := WAITING, threadState := SUSPENDED, mySem := p\<rparr>"
  have b: "arunning ?b = ?r" "athreads ?b = (athreads a)(?r \<mapsto> ?y)" "aready ?b = aready a" "aasleep ?b = aasleep a"
    "aallsems ?b = aallsems a" "acon ?b = acon a"
    "asems ?b = (asems a)(p \<mapsto> z\<lparr>aval := aval z - 1, awaiters := awaiters z @ [?r]\<rparr>)"
    using x(1) z by (auto simp: a_block_def a_dec_def a_status_def a_thread_def a_sem_def Let_def)
  have q: "a_queue ?b q = (if q = p then a_queue a p @ [?r] else a_queue a q)" for q
    using z by (simp add: a_queue_def b(7))
  have nr: "?r \<notin> set (aasleep a)" "\<And>q. ?r \<notin> set (a_queue a q)" "?r \<notin> set (aready a)" using st by (simp_all add: stands_def)
  have "shape ?b"
  proof (rule shapeI [OF sh b(1) _ b(2)])
    show "sems_ok ?b" by (rule sems_ok_upd [OF ok(2) p b(7,5)]) (use zz v sint_dec [of "aval z"] in simp)
    have "a_wake_time ?b u = a_wake_time a u" for u unfolding a_wake_time_def b(2) using x(1) by simp
    then show "time_ok ?b" using ok(3) b(4) time_ok_cong by blast
  qed (use x(1) ok(1) nr in \<open>auto simp: b q lists_ok_def\<close>)
  moreover have "stands ?b ?r (In_queue p)" using nr by (simp add: stands_def b q)
  moreover have "resting (?y\<lparr>saved_context := k p\<rparr>) (In_queue p)" using k by auto
  moreover have "returnable ?b (k p)" using k by (auto simp: returnable_def)
  moreover have "m \<in> set (aready ?b)" using m mr b by simp
  ultimately show ?thesis unfolding leaving_def b(1) using b(2) x(2) by (auto simp: readyToRun_def)
qed

lemma time_ok_insert:
  assumes "time_ok a" "t \<notin> set (aasleep a)" "aasleep b = insort_key (a_wake_time b) t (aasleep a)"
    "\<And>u. u \<noteq> t \<Longrightarrow> a_wake_time b u = a_wake_time a u"
  shows "time_ok b"
proof -
  have e: "map (a_wake_time b) (aasleep a) = map (a_wake_time a) (aasleep a)"
    by (rule map_cong [OF refl assms(4)]) (use assms(2) in auto)
  have "sorted (map (a_wake_time b) (aasleep a))" unfolding e using assms(1) by (simp add: time_ok_def)
  then show ?thesis unfolding time_ok_def assms(3) by (simp add: sorted_insort_key)
qed

lemma leaving_timedBlock:
  assumes i: "ainv m a" and m: "m \<noteq> arunning a" and p: "asems a p \<noteq> None" and v: "a_val a p \<le> 0" "- (2 ^ 63) < a_val a p"
  shows "leaving m (In_timedWait p) (a_timedBlock p d (a_dec p a))"
proof -
  let ?r = "arunning a" and ?b = "a_timedBlock p d (a_dec p a)"
  obtain x where sh: "shape a" and mr: "m = ?r \<or> m \<in> set (aready a)" and st: "stands a ?r Nowhere" and
    x: "athreads a ?r = Some x" "myMagicNumber x = THREAD_MAGIC_NUMBER" "readyToRun x" "semStatus x = NON_WAITING"
    by (rule ainvE [OF i])
  obtain z where z: "asems a p = Some z" using p by auto
  have ok: "lists_ok a" "sems_ok a" "time_ok a" using sh by (simp_all add: shape_def)
  note zz = sems_okD [OF ok(2) z]
  let ?y = "x\<lparr>semStatus := TIMEDWAITING, threadState := SUSPENDED, timeForWakingUp := d + atime a, mySem := p\<rparr>"
  have b: "arunning ?b = ?r" "athreads ?b = (athreads a)(?r \<mapsto> ?y)" "aready ?b = aready a" "aallsems ?b = aallsems a" "acon ?b = acon a"
    "asems ?b = (asems a)(p \<mapsto> z\<lparr>aval := aval z - 1, awaiters := awaiters z @ [?r], atimed := atimed z + 1\<rparr>)"
    using x(1) z by (auto simp: a_timedBlock_def a_dec_def a_status_def Let_def fun_eq_iff)
  have wt: "a_wake_time ?b u = a_wake_time a u" if "u \<noteq> ?r" for u unfolding a_wake_time_def b(2) using that by simp
  let ?c = "a_sem p (\<lambda>x. x\<lparr>awaiters := awaiters x @ [?r]\<rparr>) (a_thread ?r (timeForWakingUp_update (\<lambda>_. d + atime a)) (a_status ?r TIMEDWAITING (a_dec p a)))"
  have "a_wake_time ?c = a_wake_time ?b"
    unfolding a_wake_time_def b(2) using x(1) by (auto simp: fun_eq_iff a_status_def a_dec_def)
  moreover have "aasleep ?b = insort_key (a_wake_time ?c) ?r (aasleep a)"
    by (simp add: a_timedBlock_def a_dec_def Let_def)
  ultimately have as: "aasleep ?b = insort_key (a_wake_time ?b) ?r (aasleep a)" by simp
  have q: "a_queue ?b q = (if q = p then a_queue a p @ [?r] else a_queue a q)" for q
    using z by (simp add: a_queue_def b(6))
  have nr: "?r \<notin> set (aasleep a)" "\<And>q. ?r \<notin> set (a_queue a q)" "?r \<notin> set (aready a)" using st by (simp_all add: stands_def)
  have "shape ?b"
  proof (rule shapeI [OF sh b(1) _ b(2)])
    show "sems_ok ?b" by (rule sems_ok_upd [OF ok(2) p b(6,4)]) (use zz v sint_dec [of "aval z"] in simp)
    show "time_ok ?b" by (rule time_ok_insert [OF ok(3) nr(1) as wt])
  qed (use x(1) ok(1) nr in \<open>auto simp: b q as lists_ok_def set_insort_key distinct_insort\<close>)
  moreover have "stands ?b ?r (In_both p)" using nr by (simp add: stands_def b q as set_insort_key)
  moreover have "returnable ?b (In_timedWait p)" by (simp add: returnable_def b)
  moreover have "m \<in> set (aready ?b)" using m mr b by simp
  ultimately show ?thesis unfolding leaving_def b(1) using b(2) x(2) by (auto simp: readyToRun_def)
qed

lemma leaving_sleep:
  assumes i: "ainv m a" and m: "m \<noteq> arunning a"
  shows "leaving m In_sleep (a_sleep d a)"
proof -
  let ?r = "arunning a" and ?b = "a_sleep d a"
  obtain x where sh: "shape a" and mr: "m = ?r \<or> m \<in> set (aready a)" and st: "stands a ?r Nowhere" and
    x: "athreads a ?r = Some x" "myMagicNumber x = THREAD_MAGIC_NUMBER" "readyToRun x" "semStatus x = NON_WAITING"
    by (rule ainvE [OF i])
  have ok: "lists_ok a" "sems_ok a" "time_ok a" using sh by (simp_all add: shape_def)
  let ?y = "x\<lparr>threadState := SUSPENDED, timeForWakingUp := atime a + d\<rparr>"
  have b: "arunning ?b = ?r" "athreads ?b = (athreads a)(?r \<mapsto> ?y)" "aready ?b = aready a" "aallsems ?b = aallsems a" "acon ?b = acon a"
    "asems ?b = asems a"
    using x(1) by (auto simp: a_sleep_def Let_def fun_eq_iff)
  have wt: "a_wake_time ?b u = a_wake_time a u" if "u \<noteq> ?r" for u unfolding a_wake_time_def b(2) using that by simp
  let ?c = "(a_thread ?r (\<lambda>x. x\<lparr>threadState := SUSPENDED, timeForWakingUp := atime a + d\<rparr>) a)\<lparr>anumasleep := anumasleep a + 1\<rparr>"
  have "a_wake_time ?c = a_wake_time ?b"
    unfolding a_wake_time_def b(2) using x(1) by (auto simp: fun_eq_iff)
  moreover have "aasleep ?b = insort_key (a_wake_time ?c) ?r (aasleep a)" by (simp add: a_sleep_def Let_def a_thread_def)
  ultimately have as: "aasleep ?b = insort_key (a_wake_time ?b) ?r (aasleep a)" by simp
  have q: "a_queue ?b q = a_queue a q" for q by (simp add: a_queue_def b(6))
  have nr: "?r \<notin> set (aasleep a)" "\<And>q. ?r \<notin> set (a_queue a q)" "?r \<notin> set (aready a)" using st by (simp_all add: stands_def)
  have "shape ?b"
  proof (rule shapeI [OF sh b(1) _ b(2)])
    show "sems_ok ?b" using ok(2) by (simp add: sems_ok_def b)
    show "time_ok ?b" by (rule time_ok_insert [OF ok(3) nr(1) as wt])
  qed (use x(1) ok(1) nr in \<open>auto simp: b q as lists_ok_def set_insort_key distinct_insort\<close>)
  moreover have "stands ?b ?r In_asleep" using nr by (simp add: stands_def b q as set_insort_key)
  moreover have "returnable ?b In_sleep" by (simp add: returnable_def)
  moreover have "m \<in> set (aready ?b)" using m mr b by simp
  ultimately show ?thesis unfolding leaving_def b(1) using b(2) x(2,4) by (auto simp: readyToRun_def)
qed

lemma ainv_harmless:
  assumes i: "ainv m a" and f: "\<And>x. myMagicNumber (f x) = myMagicNumber x" "\<And>x. threadState (f x) = threadState x"
    "\<And>x. semStatus (f x) = semStatus x" "\<And>x. saved_context (f x) = saved_context x" "\<And>x. mySem (f x) = mySem x"
    "\<And>x. timeForWakingUp (f x) = timeForWakingUp x"
  shows "ainv m (a_thread t f a)"
proof -
  let ?b = "a_thread t f a"
  have r: "resting (f x) pl = resting x pl" for x pl using f by (cases pl) simp_all
  have "parked ?b u pl = parked a u pl" for u pl
    using f r by (cases "athreads a u") (auto simp: parked_def)
  then have "others_parked ?b = others_parked a" by (simp only: others_parked_def dom_a_thread a_thread_sel)
  moreover have "time_ok ?b = time_ok a" using f by simp
  ultimately have "shape ?b = shape a" by (simp add: shape_def)
  moreover have "readyToRun (f x) = readyToRun x" for x using f by (simp add: readyToRun_def)
  ultimately show ?thesis using i f unfolding ainv_def by auto
qed

lemma leaving_exit:
  assumes i: "ainv m a" and m: "m \<noteq> arunning a" and k: "returnable a k"
  shows "leaving m k (a_finish a)"
proof -
  let ?p = "parentThread (the (athreads a (arunning a)))" and ?r = "arunning a"
  define c where "c = (if ?p \<noteq> 0 then a_thread ?p (\<lambda>x. x\<lparr>numOfChildren := numOfChildren x - 1\<rparr>) a else a)"
  have r: "arunning c = ?r" "aready c = aready a" by (simp_all add: c_def)
  have ic: "ainv m c" unfolding c_def using i ainv_harmless [OF i] by auto
  have rk: "returnable c k" using k by (simp add: c_def)
  obtain x where sh: "shape c" and mr: "m = arunning c \<or> m \<in> set (aready c)" and st: "stands c (arunning c) Nowhere" and
    x: "athreads c (arunning c) = Some x" "myMagicNumber x = THREAD_MAGIC_NUMBER" "readyToRun x" "semStatus x = NON_WAITING"
    by (rule ainvE [OF ic])
  have e: "a_finish a = a_thread (arunning c) (threadState_update (\<lambda>_. FINISHED)) c"
    unfolding r by (simp add: a_finish_def Let_def c_def)
  have "shape (a_finish a)" unfolding e by (rule shape_thread [OF sh]) simp_all
  then show ?thesis unfolding leaving_def e using x st mr m rk by (auto simp: readyToRun_def r)
qed

subsection \<open>Operations without a switch\<close>

lemma parked_upd [simp]:
  "parked (a\<lparr>atime := n\<rparr>) u pl = parked a u pl" "parked (a\<lparr>acpu := n\<rparr>) u pl = parked a u pl"
  "parked (a\<lparr>asip := n\<rparr>) u pl = parked a u pl" "parked (a\<lparr>aumem := w\<rparr>) u pl = parked a u pl"
  "parked (a\<lparr>acon := c\<rparr>) u pl = parked a u pl" "parked (a\<lparr>anumasleep := n\<rparr>) u pl = parked a u pl"
  by (simp_all add: parked_def stands_def returnable_def a_queue_def)

lemma ainv_upd [simp]:
  "ainv m (a\<lparr>atime := n\<rparr>) = ainv m a" "ainv m (a\<lparr>acpu := n\<rparr>) = ainv m a" "ainv m (a\<lparr>asip := n\<rparr>) = ainv m a"
  "ainv m (a\<lparr>aumem := w\<rparr>) = ainv m a" "ainv m (a\<lparr>anumasleep := n\<rparr>) = ainv m a"
  by (simp_all add: ainv_def shape_def lists_ok_def sems_ok_def time_ok_def con_ok_def others_parked_def stands_def a_queue_def a_wake_time_def [abs_def])

lemma ainv_con: "ainv m a \<Longrightarrow> con_ok (a\<lparr>acon := c\<rparr>) \<Longrightarrow> ainv m (a\<lparr>acon := c\<rparr>)"
  by (simp add: ainv_def shape_def lists_ok_def sems_ok_def time_ok_def con_ok_def others_parked_def stands_def a_queue_def a_wake_time_def [abs_def])

lemma shape_sem:
  assumes sh: "shape a" and x: "athreads a (arunning a) = Some x" and z: "asems a p = Some z" and f: "awaiters (f z) = awaiters z"
    "max 0 (- sint (aval (f z))) = max 0 (- sint (aval z))"
  shows "shape (a_sem p f a)"
proof -
  let ?b = "a_sem p f a"
  have ok: "lists_ok a" "sems_ok a" "time_ok a" using sh by (simp_all add: shape_def)
  have b: "athreads ?b = (athreads a)(arunning a \<mapsto> x)" "asems ?b = (asems a)(p \<mapsto> f z)" using x z by auto
  have q: "a_queue ?b q = a_queue a q" for q using z f(1) by (simp add: a_queue_def b(2) del: a_sem_sel)
  show ?thesis
  proof (rule shapeI [OF sh _ _ b(1)])
    show "sems_ok ?b" by (rule sems_ok_upd [OF ok(2) _ b(2)]) (use z f sems_okD(1) [OF ok(2) z] in simp_all)
    show "time_ok ?b" using ok(3) by (simp add: time_ok_def)
    show "arunning ?b = arunning a" "arunning a \<in> dom (athreads a)" using x by auto
    show "\<And>q. distinct (a_queue ?b q)" "\<And>u q. (u \<in> set (a_queue ?b q)) = (u \<in> set (a_queue a q))"
      unfolding q using ok(1) by (simp_all add: lists_ok_def)
  qed (use ok(1) in \<open>auto simp: lists_ok_def\<close>)
qed

lemma a_queue_sem_same: "(\<And>x. awaiters (f x) = awaiters x) \<Longrightarrow> a_queue (a_sem p f a) q = a_queue a q"
  by (simp add: a_queue_def split: option.splits)

lemma stands_sem [simp]: "(\<And>x. awaiters (f x) = awaiters x) \<Longrightarrow> stands (a_sem p f a) u pl = stands a u pl"
  unfolding stands_def by (simp only: a_queue_sem_same) simp

lemma ainv_sem:
  assumes i: "ainv m a" and z: "asems a p = Some z" and f: "\<And>z. awaiters (f z) = awaiters z"
    "max 0 (- sint (aval (f z))) = max 0 (- sint (aval z))"
  shows "ainv m (a_sem p f a)"
proof -
  from i obtain x where sh: "shape a" and x: "athreads a (arunning a) = Some x" by (rule ainvE)
  show ?thesis using shape_sem [OF sh x z, of f] i f unfolding ainv_def by simp
qed

lemma ainv_dec:
  assumes i: "ainv m a" and p: "asems a p \<noteq> None" and v: "0 < a_val a p"
  shows "ainv m (a_dec p a)"
proof -
  obtain z where z: "asems a p = Some z" using p by auto
  show ?thesis unfolding a_dec_def
    by (rule ainv_sem [OF i z]) (use v z sint_dec [of "aval z"] in \<open>simp_all add: a_val_def\<close>)
qed

lemma ainv_inc:
  assumes i: "ainv m a" and p: "asems a p \<noteq> None" and v: "0 \<le> a_val a p" "a_val a p < 2 ^ 63 - 1"
  shows "ainv m (a_inc p a)"
proof -
  obtain z where z: "asems a p = Some z" using p by auto
  show ?thesis unfolding a_inc_def
    by (rule ainv_sem [OF i z]) (use v z sint_inc [of "aval z"] in \<open>simp_all add: a_val_def\<close>)
qed

text \<open>A parked thread that leaves its lists for the queue of ready threads.\<close>

lemma ainv_readied:
  assumes i: "ainv m a" and pk: "parked a t pl" "pl \<noteq> In_ready" and x: "athreads a t = Some x"
    and b: "arunning b = arunning a" "athreads b = (athreads a)(t \<mapsto> y)" "aready b = aready a @ [t]"
      "aasleep b = remove1 t (aasleep a)" "\<And>q. a_queue b q = remove1 t (a_queue a q)" "acon b = acon a"
      "\<And>q. asems a q \<noteq> None \<Longrightarrow> asems b q \<noteq> None"
    and y: "myMagicNumber y = myMagicNumber x" "threadState y \<noteq> FINISHED" "saved_context y = saved_context x"
      "semStatus y \<in> woken (saved_context x)"
    and s: "sems_ok b"
  shows "ainv m b"
proof -
  let ?r = "arunning a"
  obtain z where sh: "shape a" and mr: "m = ?r \<or> m \<in> set (aready a)" and st: "stands a ?r Nowhere" and
    z: "athreads a ?r = Some z" "myMagicNumber z = THREAD_MAGIC_NUMBER" "readyToRun z" "semStatus z = NON_WAITING"
    by (rule ainvE [OF i])
  have ok: "lists_ok a" "time_ok a" using sh by (simp_all add: shape_def)
  have px: "myMagicNumber x = THREAD_MAGIC_NUMBER" "stands a t pl" "returnable a (saved_context x)" "resting x pl"
    using pk(1) x by (auto simp: parked_def)
  have tr: "t \<noteq> ?r" using px(2,4) st pk(2) by (cases pl) (auto simp: stands_def)
  have nr: "t \<notin> set (aready a)" using px(2) pk(2) by (simp add: stands_def)
  have dist: "distinct (aready a)" "distinct (aasleep a)" "\<And>q. distinct (a_queue a q)" using ok(1) by (simp_all add: lists_ok_def)
  have "stands b t In_ready" using dist by (simp add: stands_def b)
  moreover have "returnable b (saved_context y)" using px(3) b(7) y(3) by (simp add: returnable_def)
  ultimately have pkb: "parked b t In_ready" using px(1) y b(2) by (simp add: parked_def)
  have wt: "a_wake_time b u = a_wake_time a u" if "u \<noteq> t" for u unfolding a_wake_time_def b(2) using that by simp
  have e: "map (a_wake_time b) (remove1 t (aasleep a)) = map (a_wake_time a) (remove1 t (aasleep a))"
    by (rule map_cong [OF refl wt]) (use dist in auto)
  have to: "time_ok b" unfolding time_ok_def b(4) e using ok(2) by (simp add: time_ok_def sorted_map_remove1)
  have "shape b"
  proof (rule shapeI [OF sh b(1) domI b(2)])
    show "athreads a t = Some x" by (rule x)
  qed (use dist nr pkb s to b(6,7) in \<open>auto simp: b(3-5) in_set_remove1\<close>)
  moreover have "stands b ?r Nowhere" using st tr by (simp add: stands_def b(3-5) in_set_remove1)
  ultimately show ?thesis unfolding ainv_def b(1) using z tr mr b(2,3) by auto
qed

lemma parked_queued:
  assumes i: "ainv m a" and t: "t \<in> set (a_queue a p)"
  obtains x pl where "parked a t pl" "pl = In_queue p \<or> pl = In_both p" "athreads a t = Some x" "t \<noteq> arunning a"
    "semStatus x = (if pl = In_both p then TIMEDWAITING else WAITING)" "mySem x = p" "threadState x \<noteq> FINISHED"
    "{REGULARLY_WAITED, SEM_DELETED} \<subseteq> woken (saved_context x)"
proof -
  have l: "set (a_queue a p) \<subseteq> dom (athreads a)" "others_parked a" "stands a (arunning a) Nowhere"
    using i unfolding ainv_def shape_def lists_ok_def Un_subset_iff UN_subset_iff by simp_all
  have n: "t \<noteq> arunning a" using l(3) t by (auto simp: stands_def)
  then have "t \<in> dom (athreads a) - {arunning a}" using l(1) t by blast
  then obtain pl where pk: "parked a t pl" using l(2) unfolding others_parked_def by blast
  then have pl: "pl = In_queue p \<or> pl = In_both p" using t by (auto simp: parked_def stands_def)
  from pk obtain x where "athreads a t = Some x" "resting x pl" "threadState x \<noteq> FINISHED" by (auto simp: parked_def)
  with that [OF pk pl] pl n show ?thesis by auto
qed

lemma ainv_unblock:
  assumes i: "ainv m a" and p: "asems a p \<noteq> None" and v: "a_val a p < 0" and c: "cause = REGULARLY_WAITED \<or> cause = SEM_DELETED"
  shows "ainv m (a_unblock cause p (a_inc p a))"
proof -
  let ?b = "a_unblock cause p (a_inc p a)"
  obtain z where z: "asems a p = Some z" using p by auto
  have so: "sems_ok a" using i by (simp add: ainv_def shape_def)
  note zz = sems_okD [OF so z]
  obtain t ts where q: "awaiters z = t # ts" using zz v by (cases "awaiters z") auto
  have "t \<in> set (a_queue a p)" using zz(3) q by simp
  from parked_queued [OF i this] obtain x pl where pl: "parked a t pl" "pl = In_queue p \<or> pl = In_both p"
    and x: "athreads a t = Some x" "t \<noteq> arunning a" "semStatus x = (if pl = In_both p then TIMEDWAITING else WAITING)"
      "{REGULARLY_WAITED, SEM_DELETED} \<subseteq> woken (saved_context x)" by metis
  have st: "stands a t pl" using pl(1) by (auto simp: parked_def)
  let ?y = "x\<lparr>mySem := 0, semStatus := cause, threadState := READY\<rparr>"
  have hd: "hd (a_queue (a_inc p a) p) = t" using z q by (simp add: a_inc_def)
  have b: "arunning ?b = arunning a" "athreads ?b = (athreads a)(t \<mapsto> ?y)" "aready ?b = aready a @ [t]" "acon ?b = acon a"
    "aallsems ?b = aallsems a"
    "aasleep ?b = (if semStatus x = TIMEDWAITING then remove1 t (aasleep a) else aasleep a)"
    "asems ?b = (asems a)(p \<mapsto> z\<lparr>aval := aval z + 1, awaiters := ts\<rparr>)"
    using x(1,2) z c q unfolding a_unblock_def hd Let_def a_release_def a_put_def a_status_def a_inc_def
    by (auto simp: fun_eq_iff)
  have as: "aasleep ?b = remove1 t (aasleep a)"
  proof (cases "pl = In_both p")
    case False
    then have "pl = In_queue p" using pl(2) by simp
    then have "t \<notin> set (aasleep a)" using st by (simp add: stands_def)
    then show ?thesis unfolding b by (simp add: remove1_idem)
  qed (simp add: b x(3))
  have qq: "a_queue ?b r = remove1 t (a_queue a r)" for r
  proof (cases "r = p")
    case False
    then have "t \<notin> set (a_queue a r)" using st pl(2) by (auto simp: stands_def)
    then show ?thesis using False by (simp add: a_queue_def b(7) remove1_idem)
  qed (use q z in \<open>simp add: a_queue_def b(7)\<close>)
  show ?thesis
  proof (rule ainv_readied [OF i pl(1) _ x(1) b(1-3) as qq b(4)])
    show "sems_ok ?b" by (rule sems_ok_upd [OF so p b(7,5)]) (use zz v q sint_inc [of "aval z"] in simp)
  qed (use pl(2) b(7) c x(4) in auto)
qed

lemma ainv_timeout:
  assumes i: "ainv m a" and t: "parked a t (In_both p)"
  shows "ainv m (a_timeout p t a)"
proof -
  let ?b = "a_timeout p t a"
  from t obtain x where x: "athreads a t = Some x" "stands a t (In_both p)" "resting x (In_both p)" "returnable a (saved_context x)"
    unfolding parked_def by blast
  have "saved_context x = In_timedWait p" using x(3) by simp
  then have "asems a p \<noteq> None" using x(4) by (simp add: returnable_def)
  then obtain z where z: "asems a p = Some z" by blast
  have so: "sems_ok a" using i by (simp add: ainv_def shape_def)
  note zz = sems_okD [OF so z]
  have "t \<in> set (a_queue a p)" using x(2) unfolding stands_def by blast
  then have tq: "t \<in> set (awaiters z)" unfolding zz(3) .
  have "stands a (arunning a) Nowhere" using i by (simp add: ainv_def)
  then have "arunning a \<notin> set (a_queue a p)" unfolding stands_def by blast
  then have n: "t \<noteq> arunning a" using tq unfolding zz(3) by blast
  have "0 < length (awaiters z)" using tq by (cases "awaiters z") auto
  then have v: "sint (aval z) < 0" using zz(1) by linarith
  let ?y = "x\<lparr>mySem := 0, semStatus := TIMEOUT, threadState := READY\<rparr>"
  have b: "arunning ?b = arunning a" "athreads ?b = (athreads a)(t \<mapsto> ?y)" "aready ?b = aready a @ [t]" "aasleep ?b = remove1 t (aasleep a)"
    "acon ?b = acon a" "aallsems ?b = aallsems a"
    "asems ?b = (asems a)(p \<mapsto> z\<lparr>aval := aval z + 1, awaiters := remove1 t (awaiters z)\<rparr>)"
    using x(1) n z unfolding a_timeout_def Let_def a_release_def a_put_def a_status_def a_inc_def by (auto simp: fun_eq_iff)
  have qq: "a_queue ?b r = remove1 t (a_queue a r)" for r
  proof (cases "r = p")
    case False
    then have "t \<notin> set (a_queue a r)" using x(2) by (auto simp: stands_def)
    then show ?thesis using False by (simp add: a_queue_def b(7) remove1_idem)
  qed (use z in \<open>simp add: a_queue_def b(7)\<close>)
  show ?thesis
  proof (rule ainv_readied [OF i t _ x(1) b(1-4) qq b(5)])
    have "int (length (remove1 t (awaiters z))) = int (length (awaiters z)) - 1" 
      unfolding length_remove1 if_P [OF tq] using \<open>0 < length (awaiters z)\<close> by linarith
    then have "int (length (remove1 t (awaiters z))) = max 0 (- sint (aval z + 1))" using zz(1) v sint_inc [of "aval z"] by simp
    then show "sems_ok ?b" by (intro sems_ok_upd [OF so _ b(7,6)]) (use z in simp_all)
  qed (use b(7) x(3) in auto)
qed

lemma ainv_wake:
  assumes i: "ainv m a" and t: "t \<in> set (aasleep a)"
  shows "ainv m (a_wake t a)" "wakeable a t" "aasleep (a_wake t a) = remove1 t (aasleep a)" "aready (a_wake t a) = aready a @ [t]"
proof -
  have l: "set (aasleep a) \<subseteq> dom (athreads a)" "others_parked a" "stands a (arunning a) Nowhere" "sems_ok a"
    using i unfolding ainv_def shape_def lists_ok_def Un_subset_iff UN_subset_iff by simp_all
  have n: "t \<noteq> arunning a" using l(3) t by (auto simp: stands_def)
  then have "t \<in> dom (athreads a) - {arunning a}" using l(1) t by blast
  then obtain pl where pk: "parked a t pl" using l(2) unfolding others_parked_def by blast
  then have pl: "pl = In_asleep \<or> (\<exists>p. pl = In_both p)" using t by (auto simp: parked_def stands_def)
  from pk obtain x where x: "athreads a t = Some x" "resting x pl" "threadState x \<noteq> FINISHED" "stands a t pl" "returnable a (saved_context x)"
    "myMagicNumber x = THREAD_MAGIC_NUMBER" by (auto simp: parked_def)
  show "ainv m (a_wake t a)"
  proof (cases "pl = In_asleep")
    case True
    then have sx: "semStatus x = NON_WAITING" "saved_context x = In_sleep" using x(2) by simp_all
    have e: "a_wake t a = a_put t (a\<lparr>aasleep := remove1 t (aasleep a)\<rparr>)" using sx x(1) by (simp add: a_wake_def)
    have nq: "t \<notin> set (a_queue a q)" for q using x(4) True by (simp add: stands_def)
    show ?thesis
      by (rule ainv_readied [OF i pk _ x(1), of _ x])
        (use True x(1,3) sx l(4) nq in \<open>auto simp: e a_put_def a_queue_def remove1_idem sems_ok_def\<close>)
  next
    case False
    then obtain p where p: "pl = In_both p" using pl by auto
    then have "a_wake t a = a_timeout p t a" using x(1,2) by (simp add: a_wake_def)
    then show ?thesis using ainv_timeout [OF i] pk p by simp
  qed
  show "wakeable a t"
  proof (cases "pl = In_asleep")
    case True
    then show ?thesis using x t by (auto simp: wakeable_def alive_def)
  next
    case False
    then obtain p where p: "pl = In_both p" using pl by auto
    then have "asems a p \<noteq> None" using x(2,5) by (simp add: returnable_def)
    moreover have "p \<noteq> 0" using calculation l(4) by (auto simp: sems_ok_def)
    moreover have "t \<in> set (a_queue a p)" using x(4) p unfolding stands_def by blast
    ultimately show ?thesis using x p t by (auto simp: wakeable_def alive_def a_finished_def)
  qed
  show "aasleep (a_wake t a) = remove1 t (aasleep a)" "aready (a_wake t a) = aready a @ [t]"
    by (simp_all add: a_wake_def a_timeout_def a_release_def a_put_def a_inc_def Let_def)
qed

lemma wake_list_ok:
  assumes "ainv m a" "aasleep a = xs"
  shows "ainv m (a_wake_list xs a) \<and> aasleep (a_wake_list xs a) = dropWhile (\<lambda>t. a_wake_time a t \<le> atime a) xs \<and>
    aready (a_wake_list xs a) = aready a @ takeWhile (\<lambda>t. a_wake_time a t \<le> atime a) xs"
  using assms
proof (induction xs arbitrary: a)
  case Nil
  then show ?case by simp
next
  case (Cons t xs)
  let ?b = "a_wake t a"
  have "t \<in> set (aasleep a)" using Cons.prems(2) by simp
  note w = ainv_wake [OF Cons.prems(1) this]
  have t: "t \<notin> set xs" using Cons.prems by (simp add: ainv_def shape_def lists_ok_def)
  have as: "aasleep ?b = xs" using w(3) Cons.prems(2) by simp
  have "a_wake_time ?b u = a_wake_time a u" if "u \<in> set xs" for u
  proof -
    have "u \<noteq> t" using that t by auto
    then show ?thesis by (simp add: a_wake_time_def a_wake_other(1))
  qed
  then have e: "takeWhile (\<lambda>t. a_wake_time ?b t \<le> atime ?b) xs = takeWhile (\<lambda>t. a_wake_time a t \<le> atime a) xs"
    "dropWhile (\<lambda>t. a_wake_time ?b t \<le> atime ?b) xs = dropWhile (\<lambda>t. a_wake_time a t \<le> atime a) xs"
    using a_wake_other(5) [of "t + 1" t a] by (auto intro!: takeWhile_cong dropWhile_cong)
  show ?case using Cons.IH [OF w(1) as] w(4) Cons.prems by (simp add: e)
qed

end
