(* ===== verification/Console.thy ===== *)
theory Console
  imports TimerInterrupt
begin

text \<open>
  The console of \<open>h/_console.hpp\<close> and \<open>src/_console.cpp\<close>: two rings of 1024 bytes, one filled by
  \<open>putc\<close> and emptied by the putter thread, one filled by the getter thread and emptied by \<open>getc\<close>.
  The device is a parameter: \<open>device\<close> holds the bytes its status and receive registers will
  give to the next reads, the bytes written to the transmit register and the interrupts completed
  at the PLIC. A read of an exhausted sequence is \<open>None\<close>: the code is still polling. \<open>char\<close> is
  unsigned on RISC-V.
\<close>

definition NUM_OF_CHARS :: u64 where "NUM_OF_CHARS = 1024"
definition CONSOLE_STATUS_RECEIVE :: u8 where "CONSOLE_STATUS_RECEIVE = push_bit 0 1"
definition CONSOLE_STATUS_TRANSFER :: u8 where "CONSOLE_STATUS_TRANSFER = push_bit 5 1"

record device =
  statuses :: "u8 list"
  received :: "u8 list"
  transmitted :: "u8 list"
  completed :: "u64 list"

subsection \<open>Initialisation\<close>

definition upd_con :: "(console \<Rightarrow> console) \<Rightarrow> kernel \<Rightarrow> kernel" where
  "upd_con f s = s\<lparr>con := f (con s)\<rparr>"

definition console_init :: "kernel \<Rightarrow> kernel option" where
  "console_init s =
     (if con_initialized (con s) then Some s
      else do {
        let s = upd_con (\<lambda>c. c\<lparr>headPrint := 0, tailPrint := 0, headGet := 0, tailGet := 0\<rparr>) s;
        (p, s) \<leftarrow> new_sem 0 s;
        Some (upd_con (\<lambda>c. c\<lparr>characterReadyToGet := p, con_initialized := True\<rparr>) s)
      })"

subsection \<open>The rings\<close>

definition isThereAnythingToPrint :: "console \<Rightarrow> bool" where
  "isThereAnythingToPrint c \<longleftrightarrow> headPrint c - tailPrint c \<noteq> 0"

definition put_print :: "u8 \<Rightarrow> console \<Rightarrow> int \<times> console" where
  "put_print ch c =
     (if (headPrint c + 1) mod NUM_OF_CHARS = tailPrint c then (-1, c)
      else (0, c\<lparr>bufferPrint := (bufferPrint c)(headPrint c := ch),
                 headPrint := (headPrint c + 1) mod NUM_OF_CHARS\<rparr>))"

definition take_print :: "console \<Rightarrow> u8 \<times> console" where
  "take_print c = (bufferPrint c (tailPrint c), c\<lparr>tailPrint := (tailPrint c + 1) mod NUM_OF_CHARS\<rparr>)"

definition put_get :: "u8 \<Rightarrow> console \<Rightarrow> console" where
  "put_get ch c = c\<lparr>bufferGet := (bufferGet c)(headGet c := ch), headGet := (headGet c + 1) mod NUM_OF_CHARS\<rparr>"

definition take_get :: "console \<Rightarrow> u8 \<times> console" where
  "take_get c =
     (if headGet c = tailGet c then (-1, c)
      else (bufferGet c (tailGet c), c\<lparr>tailGet := (tailGet c + 1) mod NUM_OF_CHARS\<rparr>))"

definition putCharInBuffer :: "u8 \<Rightarrow> kernel \<Rightarrow> (int \<times> kernel) option" where
  "putCharInBuffer ch s = do {
     s \<leftarrow> console_init s;
     let (r, c) = put_print ch (con s);
     Some (r, s\<lparr>con := c\<rparr>)
   }"

definition read_get :: "kernel \<Rightarrow> u8 \<times> kernel" where
  "read_get s = (let (ch, c) = take_get (con s) in (ch, s\<lparr>con := c\<rparr>))"

text \<open>\<open>getCharFromBuffer\<close>: \<open>None\<close> after the context switch in \<open>wait\<close>; \<open>getChar_resume\<close> is the rest.\<close>

definition getCharFromBuffer :: "kernel \<Rightarrow> (u8 option \<times> kernel) option" where
  "getCharFromBuffer s = do {
     s \<leftarrow> console_init s;
     (r, s) \<leftarrow> wait In_getChar (characterReadyToGet (con s)) s;
     if r = None then Some (None, s)
     else let (ch, s) = read_get s in Some (Some ch, s)
   }"

definition getChar_resume :: "kernel \<Rightarrow> (u8 \<times> kernel) option" where
  "getChar_resume s = do { (_, s) \<leftarrow> wait_resume s; Some (read_get s) }"

subsection \<open>The device\<close>

definition read_status :: "device \<Rightarrow> (u8 \<times> device) option" where
  "read_status d = (case statuses d of [] \<Rightarrow> None | x # xs \<Rightarrow> Some (x, d\<lparr>statuses := xs\<rparr>))"

definition receiveReady :: "device \<Rightarrow> (bool \<times> device) option" where
  "receiveReady d = do { (x, d) \<leftarrow> read_status d; Some (Bit_Operations.and x CONSOLE_STATUS_RECEIVE \<noteq> 0, d) }"

definition transferReady :: "device \<Rightarrow> (bool \<times> device) option" where
  "transferReady d = do { (x, d) \<leftarrow> read_status d; Some (Bit_Operations.and x CONSOLE_STATUS_TRANSFER \<noteq> 0, d) }"

definition putCharInTerminal :: "u8 \<Rightarrow> device \<Rightarrow> device" where
  "putCharInTerminal ch d = d\<lparr>transmitted := transmitted d @ [ch]\<rparr>"

definition plic_complete :: "u64 \<Rightarrow> device \<Rightarrow> device" where
  "plic_complete irq d = d\<lparr>completed := completed d @ [irq]\<rparr>"

partial_function (option) wait_transfer :: "device \<Rightarrow> device option" where
  "wait_transfer d = do { (r, d) \<leftarrow> transferReady d; if r then Some d else wait_transfer d }"

declare wait_transfer.simps [code]

definition getCharFromTerminal :: "device \<Rightarrow> (u8 \<times> device) option" where
  "getCharFromTerminal d = (case received d of [] \<Rightarrow> None
     | ch # rest \<Rightarrow> do {
         let d = d\<lparr>received := rest\<rparr>;
         if 33 \<le> ch \<and> ch \<le> 126
         then do { d \<leftarrow> wait_transfer d; Some (ch, putCharInTerminal ch d) }
         else Some (ch, d)
       })"

definition console_interrupt_handler :: "u64 \<Rightarrow> device \<Rightarrow> kernel \<Rightarrow> (device \<times> kernel) option" where
  "console_interrupt_handler intNumber d s = do {
     s \<leftarrow> console_init s;
     if intNumber = 0xa then Some (d, upd_con (consoleInterrupt_update (\<lambda>_. True)) s)
     else Some (plic_complete intNumber d, s)
   }"

subsection \<open>The console threads\<close>

text \<open>One turn of a console thread between two calls of \<open>thread_dispatch\<close>. The getter calls
  \<open>sem_signal\<close> for every character; its turn is given up to that system call
  (\<open>getter_char\<close>, \<open>True\<close> if a character was stored) and after the last one (\<open>console_done\<close>).\<close>

definition console_done :: "device \<Rightarrow> console \<Rightarrow> (device \<times> console) option" where
  "console_done d c = do {
     (r, d) \<leftarrow> receiveReady d;
     if r then Some (d, c)
     else do {
       (t, d) \<leftarrow> transferReady d;
       if \<not> t \<and> consoleInterrupt c
       then Some (plic_complete 0xa d, c\<lparr>consoleInterrupt := False\<rparr>)
       else Some (d, c)
     }
   }"

partial_function (option) putter_loop :: "device \<Rightarrow> console \<Rightarrow> (device \<times> console) option" where
  "putter_loop d c = do {
     (t, d) \<leftarrow> transferReady d;
     if t \<and> headPrint c \<noteq> tailPrint c
     then let (ch, c) = take_print c in putter_loop (putCharInTerminal ch d) c
     else Some (d, c)
   }"

declare putter_loop.simps [code]

definition putter_turn :: "device \<Rightarrow> console \<Rightarrow> (device \<times> console) option" where
  "putter_turn d c = do { (d, c) \<leftarrow> putter_loop d c; console_done d c }"

definition getter_char :: "device \<Rightarrow> console \<Rightarrow> (bool \<times> device \<times> console) option" where
  "getter_char d c = do {
     (r, d) \<leftarrow> receiveReady d;
     if r \<and> consoleInterrupt c \<and> headGet c + 1 \<noteq> tailGet c
     then do { (ch, d) \<leftarrow> getCharFromTerminal d; Some (True, d, put_get ch c) }
     else Some (False, d, c)
   }"

partial_function (option) print_all_loop :: "device \<Rightarrow> console \<Rightarrow> (device \<times> console) option" where
  "print_all_loop d c =
     (if headPrint c \<noteq> tailPrint c
      then do {
        (t, d) \<leftarrow> transferReady d;
        if t then let (ch, c) = take_print c in print_all_loop (putCharInTerminal ch d) c
        else print_all_loop d c
      }
      else Some (d, c))"

declare print_all_loop.simps [code]

definition empty_console_print_all :: "device \<Rightarrow> console \<Rightarrow> (device \<times> console) option" where
  "empty_console_print_all d c = do { (d, c) \<leftarrow> print_all_loop d c; Some (plic_complete 0xa d, c) }"

end
