(* ===== verification/SysCalls.thy ===== *)
theory SysCalls
  imports Console
begin

text \<open>
  \<open>h/_sysCalls.hpp\<close>, \<open>src/_sysCalls.cpp\<close> and \<open>src/_riscv.cpp\<close>: the system calls and the trap
  handler. A handler returns \<open>Some a0\<close> when it comes back to the thread that called it, and
  \<open>None\<close> when it has switched to another thread; \<open>resume_running\<close> is then the rest of the trap
  of the thread that is now running, up to the return to user mode.
\<close>

definition of_answer :: "int option \<Rightarrow> u64 option" where
  "of_answer = map_option of_int"

definition of_char :: "u8 \<Rightarrow> u64" where "of_char ch = ucast ch"

definition mem_alloc_wrapper :: "u64 \<Rightarrow> kernel \<Rightarrow> (u64 option \<times> kernel) option" where
  "mem_alloc_wrapper numOfBlocks s = do {
     (p, h) \<leftarrow> kmalloc numOfBlocks (kheap s);
     Some (Some p, s\<lparr>kheap := h\<rparr>)
   }"

definition mem_free_wrapper :: "u64 \<Rightarrow> kernel \<Rightarrow> (u64 option \<times> kernel) option" where
  "mem_free_wrapper p s = do {
     (r, h) \<leftarrow> kmfree p (kheap s);
     Some (Some (of_int r), s\<lparr>kheap := h\<rparr>)
   }"

definition thread_create_wrapper :: "u64 \<Rightarrow> u64 \<Rightarrow> u64 \<Rightarrow> u64 \<Rightarrow> kernel \<Rightarrow> (u64 option \<times> kernel) option" where
  "thread_create_wrapper handle bdy ar stack_space s = do {
     (p, s) \<leftarrow> createThread bdy ar stack_space s;
     s \<leftarrow> user_store handle p s;
     Some (Some (if p \<noteq> 0 then 0 else -1), s)
   }"

definition thread_exit_wrapper :: "kernel \<Rightarrow> (u64 option \<times> kernel) option" where
  "thread_exit_wrapper s = do { s \<leftarrow> context_exit s; Some (None, s) }"

definition thread_dispatch_wrapper :: "kernel \<Rightarrow> (u64 option \<times> kernel) option" where
  "thread_dispatch_wrapper s = do { s \<leftarrow> dispatch In_dispatch_wrapper s; Some (None, s) }"

definition sem_open_wrapper :: "u64 \<Rightarrow> u64 \<Rightarrow> kernel \<Rightarrow> (u64 option \<times> kernel) option" where
  "sem_open_wrapper handle v s = do {
     (p, s) \<leftarrow> new_sem v s;
     s \<leftarrow> user_store handle p s;
     Some (Some (if p = 0 then -1 else 0), s)
   }"

definition sem_close_wrapper :: "u64 \<Rightarrow> kernel \<Rightarrow> (u64 option \<times> kernel) option" where
  "sem_close_wrapper p s = (if p = 0 then Some (Some (-1), s)
     else do { s \<leftarrow> delete_sem p s; Some (Some 0, s) })"

definition sem_wait_wrapper :: "u64 \<Rightarrow> kernel \<Rightarrow> (u64 option \<times> kernel) option" where
  "sem_wait_wrapper p s = (if p = 0 then Some (Some (-1), s)
     else do { (r, s) \<leftarrow> wait In_wait p s; Some (of_answer r, s) })"

definition sem_signal_wrapper :: "u64 \<Rightarrow> kernel \<Rightarrow> (u64 option \<times> kernel) option" where
  "sem_signal_wrapper p s = (if p = 0 then Some (Some (-1), s)
     else do { (r, s) \<leftarrow> signal p s; Some (Some (of_int r), s) })"

definition sem_timedwait_wrapper :: "u64 \<Rightarrow> u64 \<Rightarrow> kernel \<Rightarrow> (u64 option \<times> kernel) option" where
  "sem_timedwait_wrapper p maxTime s = (if p = 0 then Some (Some (-1), s)
     else do { (r, s) \<leftarrow> timedWait p maxTime s; Some (of_answer r, s) })"

definition sem_trywait_wrapper :: "u64 \<Rightarrow> kernel \<Rightarrow> (u64 option \<times> kernel) option" where
  "sem_trywait_wrapper p s = (if p = 0 then Some (Some (-1), s)
     else do { (r, s) \<leftarrow> tryWait p s; Some (Some (of_int r), s) })"

definition clamp_sleep :: "u64 \<Rightarrow> u64" where
  "clamp_sleep t = (if t > push_bit 63 1 then drop_bit 1 t else t)"

definition time_sleep_wrapper :: "u64 \<Rightarrow> kernel \<Rightarrow> (u64 option \<times> kernel) option" where
  "time_sleep_wrapper timeForSleeping s = do {
     (switched, s) \<leftarrow> put_runningThread_to_sleep (clamp_sleep timeForSleeping) s;
     Some (if switched then None else Some 0, s)
   }"

definition getc_wrapper :: "kernel \<Rightarrow> (u64 option \<times> kernel) option" where
  "getc_wrapper s = do { (r, s) \<leftarrow> getCharFromBuffer s; Some (map_option of_char r, s) }"

definition putc_wrapper :: "u8 \<Rightarrow> kernel \<Rightarrow> (u64 option \<times> kernel) option" where
  "putc_wrapper c s = do { (r, s) \<leftarrow> putCharInBuffer c s; Some (Some (of_int r), s) }"

datatype trapEcallCause = MALLOC | MFREE | THREAD_CREATE | THREAD_EXIT | THREAD_DISPATCH | SEM_OPEN | SEM_CLOSE | SEM_WAIT
  | SEM_SIGNAL | SEM_TIMEDWAIT | SEM_TRYWAIT | TIME_SLEEP | GETC | PUTC | GET_THREAD_ID

primrec ecall_code :: "trapEcallCause \<Rightarrow> u64" where
  "ecall_code MALLOC = 0x01"
| "ecall_code MFREE = 0x02"
| "ecall_code THREAD_CREATE = 0x11"
| "ecall_code THREAD_EXIT = 0x12"
| "ecall_code THREAD_DISPATCH = 0x13"
| "ecall_code SEM_OPEN = 0x21"
| "ecall_code SEM_CLOSE = 0x22"
| "ecall_code SEM_WAIT = 0x23"
| "ecall_code SEM_SIGNAL = 0x24"
| "ecall_code SEM_TIMEDWAIT = 0x25"
| "ecall_code SEM_TRYWAIT = 0x26"
| "ecall_code TIME_SLEEP = 0x31"
| "ecall_code GETC = 0x41"
| "ecall_code PUTC = 0x42"
| "ecall_code GET_THREAD_ID = 0x51"

text \<open>The codes are written out as numbers here; \<open>ecall_handler_cases\<close> has the names. An unknown code prints a message
  and returns -55.\<close>

definition ecall_handler :: "u64 \<Rightarrow> u64 \<Rightarrow> u64 \<Rightarrow> u64 \<Rightarrow> u64 \<Rightarrow> kernel \<Rightarrow> (u64 option \<times> kernel) option" where
  "ecall_handler ecallCode a1 a2 a3 a4 s =
     (if ecallCode = 0x01 then mem_alloc_wrapper a1 s
      else if ecallCode = 0x02 then mem_free_wrapper a1 s
      else if ecallCode = 0x11 then thread_create_wrapper a1 a2 a3 a4 s
      else if ecallCode = 0x12 then thread_exit_wrapper s
      else if ecallCode = 0x13 then thread_dispatch_wrapper s
      else if ecallCode = 0x21 then sem_open_wrapper a1 a2 s
      else if ecallCode = 0x22 then sem_close_wrapper a1 s
      else if ecallCode = 0x23 then sem_wait_wrapper a1 s
      else if ecallCode = 0x24 then sem_signal_wrapper a1 s
      else if ecallCode = 0x25 then sem_timedwait_wrapper a1 a2 s
      else if ecallCode = 0x26 then sem_trywait_wrapper a1 s
      else if ecallCode = 0x31 then time_sleep_wrapper a1 s
      else if ecallCode = 0x41 then getc_wrapper s
      else if ecallCode = 0x42 then putc_wrapper (ucast a1) s
      else Some (Some (-55), s))"

lemma ecall_handler_cases:
  "ecall_handler (ecall_code c) a1 a2 a3 a4 s = (case c of
     MALLOC \<Rightarrow> mem_alloc_wrapper a1 s
   | MFREE \<Rightarrow> mem_free_wrapper a1 s
   | THREAD_CREATE \<Rightarrow> thread_create_wrapper a1 a2 a3 a4 s
   | THREAD_EXIT \<Rightarrow> thread_exit_wrapper s
   | THREAD_DISPATCH \<Rightarrow> thread_dispatch_wrapper s
   | SEM_OPEN \<Rightarrow> sem_open_wrapper a1 a2 s
   | SEM_CLOSE \<Rightarrow> sem_close_wrapper a1 s
   | SEM_WAIT \<Rightarrow> sem_wait_wrapper a1 s
   | SEM_SIGNAL \<Rightarrow> sem_signal_wrapper a1 s
   | SEM_TIMEDWAIT \<Rightarrow> sem_timedwait_wrapper a1 a2 s
   | SEM_TRYWAIT \<Rightarrow> sem_trywait_wrapper a1 s
   | TIME_SLEEP \<Rightarrow> time_sleep_wrapper a1 s
   | GETC \<Rightarrow> getc_wrapper s
   | PUTC \<Rightarrow> putc_wrapper (ucast a1) s
   | GET_THREAD_ID \<Rightarrow> Some (Some (-55), s))"
  by (cases c) (simp_all add: ecall_handler_def)

text \<open>The rest of the system call or interrupt in which the running thread was switched out: the
  value of \<open>a0\<close> it returns with, \<open>None\<close> where \<open>a0\<close> is left alone.\<close>

definition resume_running :: "kernel \<Rightarrow> (u64 option \<times> kernel) option" where
  "resume_running s = do {
     t \<leftarrow> threads s (running s);
     case saved_context t of
       In_threadWrapper \<Rightarrow> Some (None, s)
     | In_dispatch_wrapper \<Rightarrow> Some (Some 0, s)
     | In_exit_wrapper \<Rightarrow> Some (Some (-1), s)
     | In_wait p \<Rightarrow> do { (r, s) \<leftarrow> wait_resume s; Some (Some (of_int r), s) }
     | In_timedWait p \<Rightarrow> do { (r, s) \<leftarrow> timedWait_resume p s; Some (Some (of_int r), s) }
     | In_getChar p \<Rightarrow> do { (ch, s) \<leftarrow> getChar_resume s; Some (Some (of_char ch), s) }
     | In_sleep \<Rightarrow> do { s \<leftarrow> sleep_wakeup (running s) s; Some (Some 0, s) }
     | In_timer \<Rightarrow> Some (None, s)
   }"

definition syscall :: "u64 \<Rightarrow> u64 \<Rightarrow> u64 \<Rightarrow> u64 \<Rightarrow> u64 \<Rightarrow> kernel \<Rightarrow> (u64 option \<times> kernel) option" where
  "syscall ecallCode a1 a2 a3 a4 s = do {
     (r, s) \<leftarrow> ecall_handler ecallCode a1 a2 a3 a4 s;
     if r = None then resume_running s else Some (r, s)
   }"

definition timer_trap :: "kernel \<Rightarrow> (u64 option \<times> kernel) option" where
  "timer_trap s = do {
     (switched, s) \<leftarrow> timer_interrupt_handler s;
     if switched then resume_running s else Some (None, s)
   }"

end
