(* ===== verification/InvariantCalls.thy ===== *)
theory InvariantCalls
  imports InvariantOps SysCalls
begin

text \<open>
  The system calls of the abstract kernel and the rest of a system call after a switch keep the
  invariant.
\<close>

subsection \<open>Semaphores\<close>

lemma ainv_signal:
  assumes i: "ainv m a" and p: "asems a p \<noteq> None" and v: "a_val a p < 2 ^ 63 - 1"
  shows "ainv m (snd (a_signal p a))"
proof (cases "a_val a p < 0")
  case True
  then have "a_val (a_inc p a) p \<le> 0" using a_val_inc [OF p] by simp
  then show ?thesis using ainv_unblock [OF i p True, of REGULARLY_WAITED] by (simp add: a_signal_def Let_def)
next
  case False
  obtain z where z: "asems a p = Some z" using p by auto
  then have "a_val (a_inc p a) p = a_val a p + 1" using v sint_inc [of "aval z"] by (simp add: a_val_def a_inc_def)
  then show ?thesis using ainv_inc [OF i p] v False by (simp add: a_signal_def Let_def)
qed

definition contexts :: "akernel \<Rightarrow> u64 \<Rightarrow> resume_point option" where
  "contexts a t = map_option saved_context (athreads a t)"

lemma contexts_upd [simp]:
  "(\<And>x. saved_context (f x) = saved_context x) \<Longrightarrow> contexts (a_thread t f a) = contexts a"
  "contexts (a_sem p g a) = contexts a" "contexts (a_put t a) = contexts a" "contexts (a_status t st a) = contexts a"
  "contexts (a\<lparr>aasleep := xs\<rparr>) = contexts a"
  by (auto simp: contexts_def fun_eq_iff a_thread_def a_status_def a_sem_def a_put_def option.map_comp comp_def)

lemma contexts_unblock [simp]: "contexts (a_unblock cause p a) = contexts a" "contexts (a_inc p a) = contexts a"
  by (simp_all add: a_unblock_def a_release_def a_inc_def Let_def)

lemma a_unblock_sel [simp]:
  "arunning (a_unblock cause p a) = arunning a" "acon (a_unblock cause p a) = acon a" "aallsems (a_unblock cause p a) = aallsems a"
  "arunning (a_inc p a) = arunning a" "acon (a_inc p a) = acon a" "aallsems (a_inc p a) = aallsems a"
  by (simp_all add: a_unblock_def a_release_def a_inc_def a_put_def a_status_def Let_def)

lemma a_unblock_inc: "a_inc p (a_unblock cause p a) = a_unblock cause p (a_inc p a)"
proof -
  have q: "a_queue (a_inc p a) p = a_queue a p" by (simp add: a_inc_def a_queue_def split: option.splits)
  have c: "map_option (\<lambda>x. x\<lparr>aval := aval x + 1\<rparr>) (map_option (\<lambda>x. x\<lparr>awaiters := tl (awaiters x)\<rparr>) o') =
      map_option (\<lambda>x. x\<lparr>awaiters := tl (awaiters x)\<rparr>) (map_option (\<lambda>x. x\<lparr>aval := aval x + 1\<rparr>) o')" for o'
  proof (cases o')
    case (Some z)
    then show ?thesis by (cases z) simp
  qed simp
  show ?thesis unfolding a_unblock_def q Let_def
    by (cases a) (auto simp: a_release_def a_put_def a_status_def a_thread_def a_sem_def a_inc_def c)
qed

lemma ainv_unblockAll:
  assumes "ainv m a" "asems a p \<noteq> None" "n = nat (- a_val a p)"
  shows "ainv m (a_unblockAll SEM_DELETED p n a) \<and> a_queue (a_unblockAll SEM_DELETED p n a) p = [] \<and>
    contexts (a_unblockAll SEM_DELETED p n a) = contexts a \<and> arunning (a_unblockAll SEM_DELETED p n a) = arunning a \<and>
    acon (a_unblockAll SEM_DELETED p n a) = acon a"
  using assms
proof (induction n arbitrary: a)
  case 0
  have "sems_ok a" using 0(1) by (simp add: ainv_def shape_def)
  moreover obtain z where "asems a p = Some z" using 0(2) by auto
  ultimately have "a_queue a p = []" using sems_okD [of a p z] 0(3) by simp
  then show ?case using 0 by simp
next
  case (Suc n)
  let ?b = "a_unblock SEM_DELETED p (a_inc p a)"
  have neg: "a_val a p < 0" using Suc.prems(3) by simp
  have b: "ainv m ?b" using ainv_unblock [OF Suc.prems(1,2) neg] by simp
  have p1: "asems (a_inc p a) p \<noteq> None" using Suc.prems(2) by (simp add: a_inc_def)
  have "n = nat (- a_val ?b p)"
    using Suc.prems(3) a_unblock_queue(3) [OF p1] a_val_inc [OF Suc.prems(2) neg] by simp
  from Suc.IH [OF b a_unblock_queue(2) [OF p1] this] show ?case by (simp add: a_unblock_inc)
qed

definition not_in_timedWait :: "akernel \<Rightarrow> u64 \<Rightarrow> bool" where
  "not_in_timedWait a p \<longleftrightarrow> (\<forall>t. t \<noteq> arunning a \<longrightarrow> contexts a t \<noteq> Some (In_timedWait p))"

lemma ainv_close:
  assumes i: "ainv m a" and p: "asems a p \<noteq> None" and n: "not_in_timedWait a p"
    and c: "con_initialized (acon a) \<longrightarrow> characterReadyToGet (acon a) \<noteq> p"
  shows "ainv m (a_close p a)"
proof -
  define b where "b = a_unblockAll SEM_DELETED p (nat (- a_val a p)) a"
  have b: "ainv m b" "a_queue b p = []" "contexts b = contexts a" "arunning b = arunning a" "acon b = acon a"
    using ainv_unblockAll [OF i p refl] unfolding b_def by auto
  let ?c = "b\<lparr>aallsems := remove1 p (aallsems b), anumsems := anumsems b - 1, asems := (asems b)(p := None)\<rparr>"
  have e: "a_close p a = ?c" by (simp add: a_close_def Let_def b_def)
  have q: "a_queue ?c r = a_queue b r" for r using b(2) by (auto simp: a_queue_def)
  from b(1) obtain x where sh: "shape b" and mr: "m = arunning b \<or> m \<in> set (aready b)" and st: "stands b (arunning b) Nowhere" and
    x: "athreads b (arunning b) = Some x" "myMagicNumber x = THREAD_MAGIC_NUMBER" "readyToRun x" "semStatus x = NON_WAITING"
    by (rule ainvE)
  have ok: "lists_ok b" "sems_ok b" "time_ok b" "con_ok b" "others_parked b" using sh by (simp_all add: shape_def)
  have std: "stands ?c u pl = stands b u pl" for u pl unfolding stands_def q by simp
  have "others_parked ?c" unfolding others_parked_def
  proof
    fix u assume u: "u \<in> dom (athreads ?c) - {arunning ?c}"
    then have u': "u \<in> dom (athreads b) - {arunning b}" "u \<noteq> arunning a" using b(4) by auto
    then obtain pl where "parked b u pl" using ok(5) unfolding others_parked_def by blast
    then obtain y where y: "athreads b u = Some y" "myMagicNumber y = THREAD_MAGIC_NUMBER" "threadState y \<noteq> FINISHED"
      "stands b u pl" "resting y pl" "returnable b (saved_context y)" unfolding parked_def by blast
    have "contexts a u = Some (saved_context y)" using y(1) by (simp add: b(3) [symmetric] contexts_def)
    then have "saved_context y \<noteq> In_timedWait p" using n u'(2) unfolding not_in_timedWait_def by auto
    then have "returnable ?c (saved_context y)" using y(6) by (auto simp: returnable_def)
    then have "parked ?c u pl" unfolding parked_def std using y by simp
    then show "\<exists>pl. parked ?c u pl" ..
  qed
  moreover have "lists_ok ?c" using ok(1) unfolding lists_ok_def q by simp
  moreover have "sems_ok ?c" using ok(2) by (auto simp: sems_ok_def)
  moreover have "time_ok ?c" using ok(3) by (simp add: time_ok_def a_wake_time_def [abs_def])
  moreover have "con_ok ?c" using ok(4) c b(5) by (auto simp: con_ok_def)
  ultimately show ?thesis unfolding e ainv_def shape_def std using mr st x by simp
qed

lemma ainv_open:
  assumes i: "ainv m a" and p: "asems a p = None" "p \<noteq> 0" and v: "0 \<le> sint v"
  shows "ainv m (a_open p v a)"
proof -
  let ?c = "a_open p v a"
  from i obtain x where sh: "shape a" and mr: "m = arunning a \<or> m \<in> set (aready a)" and st: "stands a (arunning a) Nowhere" and
    x: "athreads a (arunning a) = Some x" "myMagicNumber x = THREAD_MAGIC_NUMBER" "readyToRun x" "semStatus x = NON_WAITING"
    by (rule ainvE)
  have ok: "lists_ok a" "sems_ok a" "time_ok a" "con_ok a" "others_parked a" using sh by (simp_all add: shape_def)
  have b: "athreads ?c = athreads a" "arunning ?c = arunning a" "aready ?c = aready a" "aasleep ?c = aasleep a" "acon ?c = acon a"
    "aallsems ?c = aallsems a @ [p]" "asems ?c = (asems a)(p \<mapsto> \<lparr>aval = v, awaiters = [], atimed = 0\<rparr>)" by (simp_all add: a_open_def)
  have q: "a_queue ?c r = a_queue a r" for r using p(1) by (simp add: a_queue_def b)
  have std: "stands ?c u pl = stands a u pl" for u pl unfolding stands_def q b by simp
  have "others_parked ?c" by (rule others_parked_frame [OF ok(5)]) (simp_all add: b q)
  moreover have "lists_ok ?c" using ok(1) unfolding lists_ok_def q b by simp
  moreover have "sems_ok ?c" using ok(2) p v by (auto simp: sems_ok_def b)
  moreover have "time_ok ?c" using ok(3) by (simp add: time_ok_def a_wake_time_def [abs_def] b)
  moreover have "con_ok ?c" using ok(4) by (auto simp: con_ok_def b)
  ultimately show ?thesis unfolding ainv_def shape_def std b using mr st x by simp
qed

subsection \<open>Threads\<close>

lemma ainv_upd_counters [simp]:
  "ainv m (a\<lparr>aID := n\<rparr>) = ainv m a" "ainv m (a\<lparr>asystem := n\<rparr>) = ainv m a"
  by (simp_all add: ainv_def shape_def lists_ok_def sems_ok_def time_ok_def con_ok_def others_parked_def parked_def returnable_def
      stands_def a_queue_def a_wake_time_def [abs_def])

lemma ainv_new_thread:
  assumes i: "ainv m a" and p: "athreads a p = None" "p \<noteq> 0" and y: "myMagicNumber y = THREAD_MAGIC_NUMBER" "threadState y \<noteq> FINISHED"
    "saved_context y = In_threadWrapper" "semStatus y = NON_WAITING"
  shows "ainv m (a\<lparr>athreads := (athreads a)(p \<mapsto> y), aready := aready a @ [p]\<rparr>)"
proof -
  let ?c = "a\<lparr>athreads := (athreads a)(p \<mapsto> y), aready := aready a @ [p]\<rparr>"
  from i obtain x where sh: "shape a" and mr: "m = arunning a \<or> m \<in> set (aready a)" and st: "stands a (arunning a) Nowhere" and
    x: "athreads a (arunning a) = Some x" "myMagicNumber x = THREAD_MAGIC_NUMBER" "readyToRun x" "semStatus x = NON_WAITING"
    by (rule ainvE)
  have ok: "lists_ok a" "sems_ok a" "time_ok a" "con_ok a" "others_parked a" using sh by (simp_all add: shape_def)
  have np: "p \<notin> set (aready a)" "p \<notin> set (aasleep a)" "\<And>q. p \<notin> set (a_queue a q)"
    using ok(1) p(1) unfolding lists_ok_def Un_subset_iff UN_subset_iff by (auto dest: subsetD)
  have q: "a_queue ?c r = a_queue a r" for r by (simp add: a_queue_def)
  have pr: "p \<noteq> arunning a" using x(1) p(1) by auto
  have "others_parked ?c" unfolding others_parked_def
  proof
    fix u assume u: "u \<in> dom (athreads ?c) - {arunning ?c}"
    show "\<exists>pl. parked ?c u pl"
    proof (cases "u = p")
      case True
      have "parked ?c p In_ready" using y np unfolding parked_def stands_def q by (simp add: returnable_def)
      then show ?thesis using True by auto
    next
      case False
      then have "u \<in> dom (athreads a) - {arunning a}" using u by auto
      then obtain pl where "parked a u pl" using ok(5) unfolding others_parked_def by blast
      then have "parked ?c u pl" by (rule parked_frame) (use False in \<open>simp_all add: q\<close>)
      then show ?thesis ..
    qed
  qed
  moreover have "lists_ok ?c"
  proof -
    have "set (aready a) \<subseteq> dom (athreads a)" "set (aasleep a) \<subseteq> dom (athreads a)" "\<And>p. set (a_queue a p) \<subseteq> dom (athreads a)"
      using ok(1) unfolding lists_ok_def Un_subset_iff UN_subset_iff by simp_all
    then show ?thesis using ok(1) np(1) p(2) unfolding lists_ok_def q Un_subset_iff UN_subset_iff
      by (simp add: subset_insertI2)
  qed
  moreover have "sems_ok ?c" "con_ok ?c" using ok(2,4) by (simp_all add: sems_ok_def con_ok_def)
  moreover have "time_ok ?c"
  proof -
    have "a_wake_time ?c u = a_wake_time a u" if "u \<in> set (aasleep a)" for u
    proof -
      have "u \<noteq> p" using that np(2) by auto
      then show ?thesis by (simp add: a_wake_time_def)
    qed
    then show ?thesis using ok(3) time_ok_cong [of ?c a] by simp
  qed
  moreover have "stands ?c (arunning a) Nowhere" using st pr unfolding stands_def q by simp
  ultimately show ?thesis unfolding ainv_def shape_def using mr x pr by auto
qed

lemma ainv_create:
  assumes i: "ainv m a" and p: "athreads a p = None" "p \<noteq> 0" and bdy: "bdy \<noteq> 0"
  shows "ainv m (a_create p bdy ar stk a)"
proof -
  define x where "x = \<lparr>body = bdy, arg = ar, stack = stk, saved_context = In_threadWrapper, timeSlice = TIME_SLICE,
     threadState = READY, myID = aID a + 1, myMagicNumber = THREAD_MAGIC_NUMBER,
     parentThread = arunning a, numOfChildren = 0, semStatus = NON_WAITING, mySem = 0, timeForWakingUp = 0\<rparr>"
  define c where "c = (if arunning a \<noteq> 0 then a_thread (arunning a) (\<lambda>t. t\<lparr>numOfChildren := numOfChildren t + 1\<rparr>) a else a)"
  have ic: "ainv m c" unfolding c_def using i ainv_harmless [OF i] by auto
  have pc: "athreads c p = None" using p(1) by (auto simp: c_def)
  let ?d = "c\<lparr>athreads := (athreads c)(p \<mapsto> x), aready := aready c @ [p]\<rparr>"
  have d: "ainv m ?d" by (rule ainv_new_thread [OF ic pc p(2)]) (simp_all add: x_def)
  have "a_create p bdy ar stk a = ?d\<lparr>aID := aID a + 1\<rparr> \<or>
      a_create p bdy ar stk a = ?d\<lparr>aID := aID a + 1, asystem := asystem a + 1\<rparr>"
    using bdy by (cases a) (simp add: a_create_def Let_def c_def x_def a_put_def a_thread_def)
  then show ?thesis using d by (elim disjE) simp_all
qed

subsection \<open>After the switch\<close>

definition a_read_get :: "akernel \<Rightarrow> u8 \<times> akernel" where
  "a_read_get a = (let (ch, c) = take_get (acon a) in (ch, a\<lparr>acon := c\<rparr>))"

definition a_resume :: "akernel \<Rightarrow> u64 option \<times> akernel" where
  "a_resume a = (case saved_context (the (athreads a (arunning a))) of
       In_threadWrapper \<Rightarrow> (None, a)
     | In_dispatch_wrapper \<Rightarrow> (Some 0, a)
     | In_exit_wrapper \<Rightarrow> (Some (-1), a)
     | In_wait p \<Rightarrow> let (r, a) = a_wait_resume a in (Some (of_int r), a)
     | In_timedWait p \<Rightarrow> let (r, a) = a_timedWait_resume p a in (Some (of_int r), a)
     | In_getChar p \<Rightarrow> let (ch, a) = a_read_get (snd (a_wait_resume a)) in (Some (of_char ch), a)
     | In_sleep \<Rightarrow> (Some 0, a_sleep_wakeup a)
     | In_timer \<Rightarrow> (None, a))"

lemma shape_running:
  assumes sh: "shape a" and st: "stands a (arunning a) Nowhere"
  shows "shape (a_thread (arunning a) f a)"
proof -
  have "arunning a \<notin> set (aasleep a)" using st by (simp add: stands_def)
  then have "time_ok (a_thread (arunning a) f a) = time_ok a"
    by (intro time_ok_cong) (auto intro: a_wake_time_other)
  then show ?thesis using sh by (simp add: shape_def others_parked_thread)
qed

lemma con_ok_take_get: "con_ok a \<Longrightarrow> con_ok (a\<lparr>acon := snd (take_get (acon a))\<rparr>)"
  by (simp add: con_ok_def take_get_def)

lemma ainv_read_get: "ainv m a \<Longrightarrow> ainv m (snd (a_read_get a))"
  using ainv_con [of m a "snd (take_get (acon a))"] con_ok_take_get [of a]
  by (simp add: a_read_get_def case_prod_unfold Let_def ainv_def shape_def)

lemma ainv_wait_resume:
  assumes "switched m a"
  shows "ainv m (snd (a_wait_resume a))"
proof -
  let ?r = "arunning a"
  obtain x where sh: "shape a" and mr: "m = ?r \<or> m \<in> set (aready a)" and st: "stands a ?r Nowhere" and
    x: "athreads a ?r = Some x" "myMagicNumber x = THREAD_MAGIC_NUMBER" "threadState x = RUNNING"
    using assms unfolding switched_def by blast
  let ?b = "a_thread ?r (\<lambda>x. x\<lparr>mySem := 0, semStatus := NON_WAITING, threadState := RUNNING\<rparr>) a"
  have "snd (a_wait_resume a) = ?b"
    by (simp add: a_wait_resume_def a_answer_def a_status_def a_thread_comp comp_def)
  then show ?thesis using shape_running [OF sh st] mr st x by (simp add: ainv_def readyToRun_def)
qed

lemma ainv_timedWait_resume:
  assumes "switched m a" "asems a p \<noteq> None"
  shows "ainv m (snd (a_timedWait_resume p a))"
proof -
  let ?r = "arunning a"
  obtain x where sh: "shape a" and mr: "m = ?r \<or> m \<in> set (aready a)" and st: "stands a ?r Nowhere" and
    x: "athreads a ?r = Some x" "myMagicNumber x = THREAD_MAGIC_NUMBER" "threadState x = RUNNING"
    using assms unfolding switched_def by blast
  obtain z where z: "asems a p = Some z" using assms(2) by auto
  let ?f = "\<lambda>x. x\<lparr>mySem := 0, timeForWakingUp := 0, semStatus := NON_WAITING, threadState := RUNNING\<rparr>"
  let ?b = "a_sem p (\<lambda>x. x\<lparr>atimed := atimed x - 1\<rparr>) (a_thread ?r ?f a)"
  have "snd (a_timedWait_resume p a) = ?b"
    by (simp add: a_timedWait_resume_def a_answer_def a_status_def Let_def)
      (cases a; simp add: a_thread_def a_sem_def option.map_comp comp_def)
  moreover have "shape ?b" by (rule shape_sem [OF shape_running [OF sh st]]) (use x z in simp_all)
  ultimately show ?thesis using mr st x by (simp add: ainv_def readyToRun_def)
qed

lemma ainv_sleep_wakeup:
  assumes "switched m a" "saved_context (the (athreads a (arunning a))) = In_sleep"
  shows "ainv m (a_sleep_wakeup a)"
proof -
  let ?r = "arunning a"
  obtain x where sh: "shape a" and mr: "m = ?r \<or> m \<in> set (aready a)" and st: "stands a ?r Nowhere" and
    x: "athreads a ?r = Some x" "myMagicNumber x = THREAD_MAGIC_NUMBER" "threadState x = RUNNING" "resting x In_ready"
    using assms unfolding switched_def by blast
  let ?b = "a_thread ?r (\<lambda>x. x\<lparr>threadState := READY, timeForWakingUp := 0\<rparr>) a"
  have "ainv m ?b" using shape_running [OF sh st] mr st x assms(2) by (simp add: ainv_def readyToRun_def)
  then show ?thesis by (simp add: a_sleep_wakeup_def Let_def)
qed

lemma ainv_resume:
  assumes "switched m a"
  shows "ainv m (snd (a_resume a))"
proof -
  let ?r = "arunning a"
  obtain x where sw: "shape a" "m = ?r \<or> m \<in> set (aready a)" "stands a ?r Nowhere" and
    x: "athreads a ?r = Some x" "myMagicNumber x = THREAD_MAGIC_NUMBER" "threadState x = RUNNING" "resting x In_ready"
      "returnable a (saved_context x)"
    using assms unfolding switched_def by blast
  have "ainv m a" if "woken (saved_context x) = {NON_WAITING}" using sw x that by (simp add: ainv_def readyToRun_def)
  moreover have "asems a p \<noteq> None" if "saved_context x = In_timedWait p" for p using x(5) that by (simp add: returnable_def)
  ultimately show ?thesis using ainv_wait_resume [OF assms] ainv_timedWait_resume [OF assms] ainv_sleep_wakeup [OF assms] x(1)
      ainv_read_get [of m "snd (a_wait_resume a)"]
    by (cases "saved_context x") (auto simp: a_resume_def case_prod_unfold Let_def)
qed

end
