(* ===== verification/KernelCalls.thy ===== *)
theory KernelCalls
  imports InvariantCalls
begin

text \<open>
  The system calls and the timer interrupt on the kernel's own state: from a state that satisfies the
  invariant and has the memory they need, they neither fault nor diverge, they implement the abstract
  operations, and they keep the invariant.
\<close>

definition kernel_inv :: "u64 \<Rightarrow> kernel \<Rightarrow> (u64 \<rightharpoonup> nat) \<Rightarrow> nat \<Rightarrow> bool" where
  "kernel_inv m s U f \<longleftrightarrow> kmem s U f \<and> ainv m (abs s)"

text \<open>\<open>runs m c U f (r, a)\<close>: the code \<open>c\<close> neither faults nor diverges, returns \<open>r\<close>, leaves the user with the
  blocks \<open>U\<close>, at least \<open>f\<close> free blocks and the abstract state \<open>a\<close>, and keeps the invariant.\<close>

definition runs :: "u64 \<Rightarrow> ('r \<times> kernel) option \<Rightarrow> (u64 \<rightharpoonup> nat) \<Rightarrow> nat \<Rightarrow> 'r \<times> akernel \<Rightarrow> bool" where
  "runs m c U f x \<longleftrightarrow> returns c (fst x) U f (snd x) \<and> ainv m (snd x)"

fun a_continue :: "int option \<times> akernel \<Rightarrow> u64 option \<times> akernel" where
  "a_continue (None, a) = a_resume a"
| "a_continue (Some r, a) = (Some (of_int r), a)"

lemma kernel_invD:
  assumes "kernel_inv m s U f"
  obtains x where "kmem s U f" "ainv m (abs s)" "threads s (running s) = Some x" "alive (abs s) (running s)"
    "\<not> a_finished (abs s) (running s)" "set (aasleep (abs s)) \<subseteq> dom (athreads (abs s))"
proof -
  have k: "kmem s U f" "ainv m (abs s)" using assms by (simp_all add: kernel_inv_def)
  from k(2) obtain x where x: "shape (abs s)" "athreads (abs s) (arunning (abs s)) = Some x" "myMagicNumber x = THREAD_MAGIC_NUMBER"
    "readyToRun x" by (rule ainvE)
  have "set (aasleep (abs s)) \<subseteq> dom (athreads (abs s))"
    using x(1) unfolding shape_def lists_ok_def Un_subset_iff by blast
  with that [OF k] x show ?thesis by (auto simp: alive_def a_finished_def readyToRun_def)
qed

lemma kmem_short:
  assumes "kmem s U f"
  shows "length (lists s i) < 2 ^ 58"
proof -
  from assms obtain L g where k: "heap_live (kheap s) L g" "owned (lists s) (stacks s) (dom (sems s)) L" by (rule kmemE)
  have "fst ` set (lists s i) \<subseteq> dom L" "distinct (cellptrs (lists s i))" using k(2) unfolding owned_def by blast+
  then have "length (lists s i) \<le> card (dom L)"
    using heap_live_finite [OF k(1)] by (metis card_mono distinct_card length_map set_map)
  then show ?thesis using heap_live_finite [OF k(1)] by linarith
qed

lemma val_bound:
  assumes "kernel_inv m s U f" "sems s p \<noteq> None"
  shows "- (2 ^ 63) < a_val (abs s) p"
proof -
  have k: "kmem s U f" "sems_ok (abs s)" using assms(1) by (simp_all add: kernel_inv_def ainv_def shape_def)
  obtain x where x: "sems s p = Some x" using assms(2) by auto
  have "int (length (datas (queueBlocked x))) = max 0 (- sint (val x))" using sems_okD(1) [OF k(2), of p "abs_sem x"] x by simp
  moreover have "length (lists s (Blocked p)) < 2 ^ 58" by (rule kmem_short [OF k(1)])
  then have "length (datas (queueBlocked x)) < 2 ^ 58" using x by simp
  ultimately have "- sint (val x) < 2 ^ 63" by simp
  then show ?thesis using x by (simp add: a_val_def)
qed

lemma queue_fine:
  assumes "ainv m a"
  shows "\<forall>t\<in>set (a_queue a p). alive a t \<and> \<not> a_finished a t" "distinct (a_queue a p)"
proof -
  show "\<forall>t\<in>set (a_queue a p). alive a t \<and> \<not> a_finished a t"
    using parked_queued [OF assms] parked_alive by metis
  show "distinct (a_queue a p)" using assms by (simp add: ainv_def shape_def lists_ok_def)
qed

lemma asleep_fine:
  assumes "ainv m a"
  shows "\<forall>t\<in>set (aasleep a). wakeable a t" "distinct (aasleep a)"
  using ainv_wake(2) [OF assms] assms by (auto simp: ainv_def shape_def lists_ok_def)

subsection \<open>Dispatching\<close>

lemma switched_running:
  assumes "kmem s U f" "switched m (abs s)"
  obtains x where "threads s (running s) = Some x" "alive (abs s) (running s)" "\<not> a_finished (abs s) (running s)"
    "returnable (abs s) (saved_context x)"
  using assms(2) unfolding switched_def by (auto simp: alive_def a_finished_def)

lemma resume_ok:
  assumes m: "kmem s U f" and sw: "switched m (abs s)"
  shows "returns (resume_running s) (fst (a_resume (abs s))) U f (snd (a_resume (abs s)))"
proof -
  obtain x where x: "threads s (running s) = Some x" and t: "alive (abs s) (running s)" "\<not> a_finished (abs s) (running s)"
    and ret: "returnable (abs s) (saved_context x)" by (rule switched_running [OF m sw])
  note w = wait_resume_ok [OF m t]
  show ?thesis
  proof (cases "saved_context x")
    case (In_wait p)
    have "returns (wait_resume s \<bind> (\<lambda>(r, s). Some (Some (of_int r :: u64), s))) (Some (of_int (fst (a_wait_resume (abs s))))) U f
        (snd (a_wait_resume (abs s)))" by (rule returns_bind [OF w]) (auto intro: returnsI)
    then show ?thesis using x In_wait by (simp add: resume_running_def a_resume_def case_prod_unfold Let_def)
  next
    case (In_timedWait p)
    then have "asems (abs s) p \<noteq> None" using ret by (simp add: returnable_def)
    from timedWait_resume_ok [OF m t this]
    have "returns (timedWait_resume p s \<bind> (\<lambda>(r, s). Some (Some (of_int r :: u64), s))) (Some (of_int (fst (a_timedWait_resume p (abs s))))) U f
        (snd (a_timedWait_resume p (abs s)))" by (rule returns_bind) (auto intro: returnsI)
    then show ?thesis using x In_timedWait by (simp add: resume_running_def a_resume_def case_prod_unfold Let_def)
  next
    case (In_getChar p)
    have "returns (getChar_resume s) (fst (a_read_get (snd (a_wait_resume (abs s))))) U f (snd (a_read_get (snd (a_wait_resume (abs s)))))"
      unfolding getChar_resume_def
    proof (rule returns_bind [OF w])
      fix s' assume s': "kmem s' U f" "abs s' = snd (a_wait_resume (abs s))"
      have "kmem (snd (read_get s')) U f" by (rule kmem_cong [OF s'(1)]) (simp_all add: read_get_def case_prod_unfold Let_def)
      then show "returns (Some (read_get s')) (fst (a_read_get (snd (a_wait_resume (abs s))))) U f (snd (a_read_get (snd (a_wait_resume (abs s)))))"
        unfolding s'(2) [symmetric] by (simp add: returns_def read_get_def a_read_get_def case_prod_unfold Let_def)
    qed
    then have "returns (getChar_resume s \<bind> (\<lambda>(ch, s). Some (Some (of_char ch), s)))
      (Some (of_char (fst (a_read_get (snd (a_wait_resume (abs s))))))) U f (snd (a_read_get (snd (a_wait_resume (abs s)))))"
      by (rule returns_bind) (auto intro: returnsI)
    then show ?thesis using x In_getChar by (simp add: resume_running_def a_resume_def case_prod_unfold Let_def)
  next
    case In_sleep
    have "returns (sleep_wakeup (running s) s \<bind> (\<lambda>s. Some (Some (0 :: u64), s))) (Some 0) U f (a_sleep_wakeup (abs s))"
      by (rule returns_bind_goes [OF sleep_wakeup_ok [OF m t(1)]]) (auto intro: returnsI)
    then show ?thesis using x In_sleep by (simp add: resume_running_def a_resume_def)
  qed (use x m in \<open>auto simp: resume_running_def a_resume_def intro: returnsI\<close>)
qed

text \<open>A handler that ended in a switch, followed by the rest of the new thread's call.\<close>

definition switches :: "u64 \<Rightarrow> (u64 option \<times> kernel) option \<Rightarrow> (u64 \<rightharpoonup> nat) \<Rightarrow> nat \<Rightarrow> akernel \<Rightarrow> bool" where
  "switches m c U f a \<longleftrightarrow> (\<exists>s. c = Some (None, s) \<and> kmem s U f \<and> abs s = a \<and> switched m a)"

lemma switches_runs:
  assumes "switches m (ecall_handler c a1 a2 a3 a4 s) U f a"
  shows "runs m (syscall c a1 a2 a3 a4 s) U f (a_resume a)"
proof -
  from assms obtain s' where s': "ecall_handler c a1 a2 a3 a4 s = Some (None, s')" "kmem s' U f" "abs s' = a" "switched m a"
    by (auto simp: switches_def)
  then have "returns (resume_running s') (fst (a_resume a)) U f (snd (a_resume a))" using resume_ok [OF s'(2)] by simp
  then show ?thesis using s'(1) ainv_resume [OF s'(4)] by (simp add: runs_def syscall_def)
qed

lemma returns_runs:
  assumes "returns (ecall_handler c a1 a2 a3 a4 s) (Some r) U f a" "ainv m a"
  shows "runs m (syscall c a1 a2 a3 a4 s) U f (Some r, a)"
proof -
  from assms(1) obtain s' where "ecall_handler c a1 a2 a3 a4 s = Some (Some r, s')" "kmem s' U f" "abs s' = a"
    by (auto simp: returns_def)
  then show ?thesis using assms(2) by (simp add: runs_def syscall_def returns_def)
qed

lemma dispatch_switches:
  assumes "goes (dispatch k s) U f (a_dispatch k a)" "leaving m k a"
  shows "switches m (do { s \<leftarrow> dispatch k s; Some (None, s) }) U f (a_dispatch k a)"
  using assms a_dispatch_switched [OF assms(2)] by (auto simp: goes_def switches_def)

lemma syscall_dispatch:
  assumes "kernel_inv m s U (Suc f)"
  shows "runs m (syscall 0x13 a1 a2 a3 a4 s) U (Suc f) (a_resume (a_dispatch In_dispatch_wrapper (abs s)))"
proof -
  have k: "kmem s U (Suc f)" "ainv m (abs s)" using assms by (simp_all add: kernel_inv_def)
  have l: "leaving m In_dispatch_wrapper (abs s)" by (rule leaving_dispatch [OF k(2)]) simp
  show ?thesis
    by (rule switches_runs)
      (use dispatch_switches [OF dispatch_ok [OF k(1) leaving_dispatchable [OF l]] l] in \<open>simp add: ecall_handler_def thread_dispatch_wrapper_def\<close>)
qed

lemma syscall_exit:
  assumes i: "kernel_inv m s U (Suc f)" and m: "m \<noteq> running s"
    and p: "parentThread (the (threads s (running s))) \<noteq> 0 \<longrightarrow> threads s (parentThread (the (threads s (running s)))) \<noteq> None"
  shows "runs m (syscall 0x12 a1 a2 a3 a4 s) U (Suc f) (a_resume (a_exit (abs s)))"
proof -
  obtain x where k: "kmem s U (Suc f)" "ainv m (abs s)" "alive (abs s) (running s)" by (rule kernel_invD [OF i])
  have l: "leaving m In_exit_wrapper (a_finish (abs s))"
    by (rule leaving_exit [OF k(2)]) (use m in \<open>simp_all add: returnable_def\<close>)
  have "goes (context_exit s) U (Suc f) (a_exit (abs s))"
    by (rule context_exit_ok [OF k(1,3) _ leaving_dispatchable [OF l]]) (use p in simp)
  then have "switches m (thread_exit_wrapper s) U (Suc f) (a_exit (abs s))"
    using a_dispatch_switched [OF l] by (auto simp: goes_def switches_def thread_exit_wrapper_def a_exit_def)
  then show ?thesis by (intro switches_runs) (simp add: ecall_handler_def)
qed

lemma syscall_time_sleep:
  assumes i: "kernel_inv m s U (Suc (Suc f))" and m: "m \<noteq> running s"
  shows "runs m (syscall 0x31 d a2 a3 a4 s) U (Suc f) (a_resume (a_dispatch In_sleep (a_sleep (clamp_sleep d) (abs s))))"
proof -
  obtain x where k: "kmem s U (Suc (Suc f))" "ainv m (abs s)" "alive (abs s) (running s)" "set (aasleep (abs s)) \<subseteq> dom (athreads (abs s))"
    by (rule kernel_invD [OF i])
  have l: "leaving m In_sleep (a_sleep (clamp_sleep d) (abs s))" by (rule leaving_sleep [OF k(2)]) (use m in simp)
  from put_thread_to_sleep_ok [OF k(1,3,4) leaving_dispatchable [OF l]] a_dispatch_switched [OF l]
  have "switches m (time_sleep_wrapper d s) U (Suc f) (a_dispatch In_sleep (a_sleep (clamp_sleep d) (abs s)))"
    by (auto simp: returns_def switches_def time_sleep_wrapper_def)
  then show ?thesis by (intro switches_runs) (simp add: ecall_handler_def)
qed

subsection \<open>Semaphores\<close>

lemma answer_runs:
  assumes "ecall_handler c a1 a2 a3 a4 s = do { (r, s) \<leftarrow> w; Some (of_answer r, s) }"
    and w: "returns w (fst x) U f (snd x)" "fst x = None \<Longrightarrow> switched m (snd x)" "fst x \<noteq> None \<Longrightarrow> ainv m (snd x)"
  shows "runs m (syscall c a1 a2 a3 a4 s) U f (a_continue x)"
proof (cases x)
  case (Pair r a)
  show ?thesis
  proof (cases r)
    case None
    have "switches m (ecall_handler c a1 a2 a3 a4 s) U f a"
      using assms Pair None by (auto simp: switches_def returns_def of_answer_def)
    then show ?thesis using switches_runs Pair None by simp
  next
    case (Some q)
    have "returns (ecall_handler c a1 a2 a3 a4 s) (Some (of_int q)) U f a"
      using assms(1) w(1) Pair Some by (auto simp: returns_def of_answer_def)
    then show ?thesis using returns_runs w(3) Pair Some by simp
  qed
qed

lemma syscall_sem_wait:
  assumes i: "kernel_inv m s U (Suc (Suc f))" and p: "sems s p \<noteq> None" and m: "a_val (abs s) p \<le> 0 \<longrightarrow> m \<noteq> running s"
  shows "runs m (syscall 0x23 p a2 a3 a4 s) U (Suc f) (a_continue (a_wait In_wait p (abs s)))"
proof -
  obtain x where k: "kmem s U (Suc (Suc f))" "ainv m (abs s)" "alive (abs s) (running s)" "\<not> a_finished (abs s) (running s)"
    by (rule kernel_invD [OF i])
  have pa: "asems (abs s) p \<noteq> None" using p by simp
  have v: "a_val (a_dec p (abs s)) p = a_val (abs s) p - 1"
    using val_bound [OF i p] p sint_dec by (auto simp: a_val_def a_dec_def)
  have l: "leaving m (In_wait p) (a_block p (a_dec p (abs s)))" if "a_val (abs s) p \<le> 0"
    by (rule leaving_block [OF k(2) _ _ pa]) (use that m val_bound [OF i p] in auto)
  show ?thesis
  proof (rule answer_runs)
    show "ecall_handler 0x23 p a2 a3 a4 s = wait In_wait p s \<bind> (\<lambda>(r, s). Some (of_answer r, s))"
      using p kmem_null(2) [OF k(1)] by (auto simp: ecall_handler_def sem_wait_wrapper_def)
    show "returns (wait In_wait p s) (fst (a_wait In_wait p (abs s))) U (Suc f) (snd (a_wait In_wait p (abs s)))"
      by (rule wait_ok [OF k(1) pa k(3,4)]) (use l v leaving_dispatchable in auto)
    show "switched m (snd (a_wait In_wait p (abs s)))" if "fst (a_wait In_wait p (abs s)) = None"
      using that a_dispatch_switched [OF l] v by (auto simp: a_wait_def Let_def split: if_splits)
    show "ainv m (snd (a_wait In_wait p (abs s)))" if "fst (a_wait In_wait p (abs s)) \<noteq> None"
      using that ainv_dec [OF k(2) pa] v by (auto simp: a_wait_def Let_def split: if_splits)
  qed
qed

lemma syscall_sem_timedwait:
  assumes i: "kernel_inv m s U (Suc (Suc (Suc f)))" and p: "sems s p \<noteq> None" and m: "a_val (abs s) p \<le> 0 \<longrightarrow> m \<noteq> running s"
  shows "runs m (syscall 0x25 p d a3 a4 s) U (Suc f) (a_continue (a_timedWait p d (abs s)))"
proof -
  obtain x where k: "kmem s U (Suc (Suc (Suc f)))" "ainv m (abs s)" "alive (abs s) (running s)" "\<not> a_finished (abs s) (running s)"
    "set (aasleep (abs s)) \<subseteq> dom (athreads (abs s))"
    by (rule kernel_invD [OF i])
  have pa: "asems (abs s) p \<noteq> None" using p by simp
  have v: "a_val (a_dec p (abs s)) p = a_val (abs s) p - 1"
    using val_bound [OF i p] p sint_dec by (auto simp: a_val_def a_dec_def)
  have l: "leaving m (In_timedWait p) (a_timedBlock p d (a_dec p (abs s)))" if "a_val (abs s) p \<le> 0"
    by (rule leaving_timedBlock [OF k(2) _ pa]) (use that m val_bound [OF i p] in auto)
  show ?thesis
  proof (rule answer_runs)
    show "ecall_handler 0x25 p d a3 a4 s = timedWait p d s \<bind> (\<lambda>(r, s). Some (of_answer r, s))"
      using p kmem_null(2) [OF k(1)] by (auto simp: ecall_handler_def sem_timedwait_wrapper_def)
    show "returns (timedWait p d s) (fst (a_timedWait p d (abs s))) U (Suc f) (snd (a_timedWait p d (abs s)))"
      by (rule timedWait_ok [OF k(1) pa k(3,4,5)]) (use l v leaving_dispatchable in auto)
    show "switched m (snd (a_timedWait p d (abs s)))" if "fst (a_timedWait p d (abs s)) = None"
      using that a_dispatch_switched [OF l] v by (auto simp: a_timedWait_def Let_def split: if_splits)
    show "ainv m (snd (a_timedWait p d (abs s)))" if "fst (a_timedWait p d (abs s)) \<noteq> None"
      using that ainv_dec [OF k(2) pa] v by (auto simp: a_timedWait_def Let_def split: if_splits)
  qed
qed

lemma syscall_sem_signal:
  assumes i: "kernel_inv m s U f" and p: "sems s p \<noteq> None" and v: "a_val (abs s) p < 2 ^ 63 - 1"
  shows "runs m (syscall 0x24 p a2 a3 a4 s) U f (Some (of_int (fst (a_signal p (abs s)))), snd (a_signal p (abs s)))"
proof -
  have k: "kmem s U f" "ainv m (abs s)" using i by (simp_all add: kernel_inv_def)
  have pa: "asems (abs s) p \<noteq> None" using p by simp
  then obtain z where z: "asems (abs s) p = Some z" by auto
  have "sems_ok (abs s)" using k(2) by (simp add: ainv_def shape_def)
  note zz = sems_okD [OF this z]
  have "a_queue (abs s) p \<noteq> []" if "a_val (a_inc p (abs s)) p \<le> 0"
    using that zz v z sint_inc [of "aval z"] by (auto simp: a_val_def a_inc_def)
  from signal_ok [OF k(1) pa this queue_fine(1) [OF k(2)]]
  have "returns (do { (r, s) \<leftarrow> signal p s; Some (Some (of_int r :: u64), s) }) (Some (of_int (fst (a_signal p (abs s))))) U f (snd (a_signal p (abs s)))"
    by (rule returns_bind) (auto intro: returnsI)
  then show ?thesis using ainv_signal [OF k(2) pa v] p kmem_null(2) [OF k(1)]
    by (intro returns_runs) (auto simp: ecall_handler_def sem_signal_wrapper_def)
qed

lemma syscall_sem_trywait:
  assumes i: "kernel_inv m s U f" and p: "sems s p \<noteq> None" and v: "0 < a_val (abs s) p"
  shows "runs m (syscall 0x26 p a2 a3 a4 s) U f (Some 1, a_dec p (abs s))"
proof -
  have k: "kmem s U f" "ainv m (abs s)" using i by (simp_all add: kernel_inv_def)
  have pa: "asems (abs s) p \<noteq> None" using p by simp
  from tryWait_ok [OF k(1) pa]
  have "returns (do { (r, s) \<leftarrow> tryWait p s; Some (Some (of_int r :: u64), s) }) (Some 1) U f (a_dec p (abs s))"
    by (rule returns_bind) (use v in \<open>auto intro: returnsI\<close>)
  then show ?thesis using ainv_dec [OF k(2) pa v] p kmem_null(2) [OF k(1)]
    by (intro returns_runs) (auto simp: ecall_handler_def sem_trywait_wrapper_def)
qed

lemma syscall_sem_close:
  assumes i: "kernel_inv m s U f" and p: "sems s p \<noteq> None" and n: "not_in_timedWait (abs s) p"
    and c: "con_initialized (con s) \<longrightarrow> characterReadyToGet (con s) \<noteq> p"
  shows "runs m (syscall 0x22 p a2 a3 a4 s) U (Suc (Suc f)) (Some 0, a_close p (abs s))"
proof -
  have k: "kmem s U f" "ainv m (abs s)" using i by (simp_all add: kernel_inv_def)
  have pa: "asems (abs s) p \<noteq> None" using p by simp
  then obtain z where z: "asems (abs s) p = Some z" by auto
  have so: "sems_ok (abs s)" using k(2) by (simp add: ainv_def shape_def)
  note zz = sems_okD [OF so z]
  have "p \<in> set (aallsems (abs s))" using so z unfolding sems_ok_def by blast
  then have "goes (delete_sem p s) U (Suc (Suc f)) (a_close p (abs s))"
    by (rule delete_sem_ok [OF k(1) pa _ _ queue_fine(2,1) [OF k(2)]]) (use zz in simp)
  then have "returns (do { s \<leftarrow> delete_sem p s; Some (Some 0 :: u64 option, s) }) (Some 0) U (Suc (Suc f)) (a_close p (abs s))"
    by (rule returns_bind_goes) (auto intro: returnsI)
  then show ?thesis using ainv_close [OF k(2) pa n] c p kmem_null(2) [OF k(1)]
    by (intro returns_runs) (auto simp: ecall_handler_def sem_close_wrapper_def)
qed

lemma user_store_ok:
  assumes "kmem s U f" "a \<noteq> 0"
  shows "goes (user_store a v s) U f ((abs s)\<lparr>aumem := (aumem (abs s))(a := v)\<rparr>)"
proof -
  have "kmem (s\<lparr>umem := (umem s)(a := v)\<rparr>) U f" by (rule kmem_cong [OF assms(1)]) simp_all
  then show ?thesis using assms(2) by (auto simp: user_store_def intro: goesI)
qed

lemma syscall_sem_open:
  assumes i: "kernel_inv m s U (Suc (Suc f))" and h: "handle \<noteq> 0" and v: "0 \<le> sint v"
  obtains p where "p \<noteq> 0" "sems s p = None"
    "runs m (syscall 0x21 handle v a3 a4 s) U f (Some 0, (a_open p v (abs s))\<lparr>aumem := (umem s)(handle := p)\<rparr>)"
proof -
  have k: "kmem s U (Suc (Suc f))" "ainv m (abs s)" using i by (simp_all add: kernel_inv_def)
  obtain p where p: "returns (new_sem v s) p U f (a_open p v (abs s))" "p \<noteq> 0" "sems s p = None" by (rule new_sem_ok [OF k(1)])
  have "returns (do { (p, s) \<leftarrow> new_sem v s; s \<leftarrow> user_store handle p s; Some (Some (if p = 0 then -1 else 0 :: u64), s) })
      (Some 0) U f ((a_open p v (abs s))\<lparr>aumem := (umem s)(handle := p)\<rparr>)"
  proof (rule returns_bind [OF p(1)])
    fix s' assume s': "kmem s' U f" "abs s' = a_open p v (abs s)"
    have "aumem (abs s') = umem s" unfolding s'(2) by (simp add: a_open_def)
    with user_store_ok [OF s'(1) h, of p]
    have "goes (user_store handle p s') U f ((a_open p v (abs s))\<lparr>aumem := (umem s)(handle := p)\<rparr>)" unfolding s'(2) by simp
    then show "returns (user_store handle p s' \<bind> (\<lambda>s. Some (Some (if p = 0 then -1 else 0 :: u64), s)))
      (Some 0) U f ((a_open p v (abs s))\<lparr>aumem := (umem s)(handle := p)\<rparr>)"
      by (rule returns_bind_goes) (use p(2) in \<open>auto intro: returnsI\<close>)
  qed
  moreover have "ainv m ((a_open p v (abs s))\<lparr>aumem := (umem s)(handle := p)\<rparr>)"
    using ainv_open [OF k(2) _ p(2) v] p(3) by simp
  ultimately show ?thesis
    by (intro that [OF p(2,3)] returns_runs) (auto simp: ecall_handler_def sem_open_wrapper_def)
qed

subsection \<open>Threads\<close>

lemma syscall_thread_create:
  assumes i: "kernel_inv m s U (f + 3)" and h: "handle \<noteq> 0" and bdy: "bdy \<noteq> 0"
    and p: "kmalloc 2 (kheap s) = Some (p, hp)" "p \<noteq> 0" and stk: "U (stk - 4096) = Some 65" "stk \<noteq> 0"
  shows "runs m (syscall 0x11 handle bdy ar stk s) (U(stk - 4096 := None)) f
    (Some 0, (a_create p bdy ar (stk - 4096) (abs s))\<lparr>aumem := (umem s)(handle := p)\<rparr>)"
    and "threads s p = None"
proof -
  obtain x where k: "kmem s U (f + 3)" "ainv m (abs s)" "threads s (running s) = Some x" by (rule kernel_invD [OF i])
  have sz: "STACK_SIZE * 8 = 4096" by (simp add: STACK_SIZE_def DEFAULT_STACK_SIZE_def)
  let ?a = "a_create p bdy ar (stk - 4096) (abs s)"
  have cr: "returns (createThread bdy ar stk s) p (U(stk - 4096 := None)) f ?a" and np: "threads s p = None"
    by (rule createThread_ok [OF k(1) p, where k = "stk - 4096" and stk = stk]; use stk k(3) sz in simp)+
  show "threads s p = None" by (rule np)
  have "returns (do { (p, s) \<leftarrow> createThread bdy ar stk s; s \<leftarrow> user_store handle p s; Some (Some (if p \<noteq> 0 then 0 else -1 :: u64), s) })
      (Some 0) (U(stk - 4096 := None)) f (?a\<lparr>aumem := (umem s)(handle := p)\<rparr>)"
  proof (rule returns_bind [OF cr])
    fix s' assume s': "kmem s' (U(stk - 4096 := None)) f" "abs s' = ?a"
    have "aumem (abs s') = umem s" unfolding s'(2) by (simp add: a_create_def Let_def a_put_def a_thread_def)
    with user_store_ok [OF s'(1) h, of p]
    have "goes (user_store handle p s') (U(stk - 4096 := None)) f (?a\<lparr>aumem := (umem s)(handle := p)\<rparr>)" unfolding s'(2) by simp
    then show "returns (user_store handle p s' \<bind> (\<lambda>s. Some (Some (if p \<noteq> 0 then 0 else -1 :: u64), s)))
      (Some 0) (U(stk - 4096 := None)) f (?a\<lparr>aumem := (umem s)(handle := p)\<rparr>)"
      by (rule returns_bind_goes) (use p(2) in \<open>auto intro: returnsI\<close>)
  qed
  moreover have "ainv m (?a\<lparr>aumem := (umem s)(handle := p)\<rparr>)"
    using ainv_create [OF k(2) _ p(2) bdy] np by simp
  ultimately show "runs m (syscall 0x11 handle bdy ar stk s) (U(stk - 4096 := None)) f (Some 0, ?a\<lparr>aumem := (umem s)(handle := p)\<rparr>)"
    by (intro returns_runs) (auto simp: ecall_handler_def thread_create_wrapper_def)
qed

subsection \<open>Memory\<close>

lemma owned_dom:
  assumes "owned ls st se L"
  shows "kptrs ls st se - {0} \<subseteq> dom L"
proof
  fix q assume q: "q \<in> kptrs ls st se - {0}"
  have o: "\<And>j d. d \<in> fst ` set (ls j) \<Longrightarrow> L d = Some 1" "\<And>t k. st t = Some k \<Longrightarrow> L t = Some 2 \<and> (k \<noteq> 0 \<longrightarrow> L k = Some 65)"
    "\<And>p. p \<in> se \<Longrightarrow> L p = Some 1" using assms unfolding owned_def by blast+
  from q consider j where "q \<in> fst ` set (ls j)" | k where "st q = Some k" | t where "st t = Some q" | "q \<in> se"
    unfolding kptrs_def by (auto simp: ran_def)
  then show "q \<in> dom L"
  proof cases
    case 3
    then show ?thesis using o(2) q by auto
  qed (use o in blast)+
qed

lemma owned_less:
  assumes o: "owned ls st se L" and p: "p \<notin> kptrs ls st se"
  shows "owned ls st se (L(p := None))"
proof -
  have "q \<noteq> p" if "q \<in> kptrs ls st se" for q using that p by auto
  moreover have "\<And>j d. d \<in> fst ` set (ls j) \<Longrightarrow> d \<in> kptrs ls st se" "\<And>t k. st t = Some k \<Longrightarrow> t \<in> kptrs ls st se \<and> k \<in> kptrs ls st se"
    "\<And>q. q \<in> se \<Longrightarrow> q \<in> kptrs ls st se" by (auto simp: kptrs_def ran_def)
  ultimately have k: "\<And>j d. d \<in> fst ` set (ls j) \<Longrightarrow> d \<noteq> p" "\<And>t k. st t = Some k \<Longrightarrow> t \<noteq> p \<and> k \<noteq> p" "\<And>q. q \<in> se \<Longrightarrow> q \<noteq> p"
    by metis+
  show ?thesis using o k unfolding owned_def by (intro conjI allI ballI impI; elim conjE) (auto simp: fun_upd_def)
qed

lemma owned_more:
  assumes o: "owned ls st se L" and p: "L p = None"
  shows "owned ls st se (L(p \<mapsto> n))"
proof -
  have k: "L q = Some v \<Longrightarrow> (L(p \<mapsto> n)) q = Some v" for q v using p by auto
  show ?thesis using o unfolding owned_def by (intro conjI allI ballI impI; elim conjE) (auto intro!: k simp del: fun_upd_apply)
qed

lemma syscall_mem_alloc:
  assumes i: "kernel_inv m s U f" and n: "n \<noteq> 0"
  obtains p where "p = 0" "runs m (syscall 0x01 n a2 a3 a4 s) U f (Some 0, abs s)"
  | p where "p \<noteq> 0" "U p = None" "runs m (syscall 0x01 n a2 a3 a4 s) (U(p \<mapsto> unat n)) (f - unat n) (Some p, abs s)"
proof -
  have k: "kmem s U f" "ainv m (abs s)" using i by (simp_all add: kernel_inv_def)
  from k(1) obtain L g where h: "heap_live (kheap s) L g" "f \<le> g" "owned (lists s) (stacks s) (dom (sems s)) L"
    "U = L |` (- kptrs (lists s) (stacks s) (dom (sems s)))" by (rule kmemE)
  obtain p h' where p: "kmalloc n (kheap s) = Some (p, h')"
    "if p = 0 then h' = kheap s else L p = None \<and> unat n \<le> g \<and> heap_live h' (L(p \<mapsto> unat n)) (g - unat n)"
    using heap_live_malloc [OF h(1) n] by blast
  have e: "ecall_handler 0x01 n a2 a3 a4 s = Some (Some p, s\<lparr>kheap := h'\<rparr>)"
    using p(1) by (simp add: ecall_handler_def mem_alloc_wrapper_def)
  show ?thesis
  proof (cases "p = 0")
    case True
    then have "s\<lparr>kheap := h'\<rparr> = s" using p(2) by simp
    then show ?thesis using that(1) [OF refl] returns_runs e True k by (simp add: returns_def)
  next
    case False
    then have l: "L p = None" "heap_live h' (L(p \<mapsto> unat n)) (g - unat n)" using p(2) by simp_all
    have dis: "p \<notin> kptrs (lists s) (stacks s) (dom (sems s)) - {0}"
      using owned_dom [OF h(3)] l(1) by auto
    have nk: "p \<notin> kptrs (lists s) (stacks s) (dom (sems s))" using dis False by simp
    have "kmem (s\<lparr>kheap := h'\<rparr>) (U(p \<mapsto> unat n)) (f - unat n)"
    proof (rule kmemI)
      show "heap_live (kheap (s\<lparr>kheap := h'\<rparr>)) (L(p \<mapsto> unat n)) (g - unat n)" using l(2) by simp
      show "f - unat n \<le> g - unat n" using h(2) by simp
      show "owned (lists s) (stacks s) (dom (sems s)) (L(p \<mapsto> unat n))" by (rule owned_more [OF h(3) l(1)])
      show "U(p \<mapsto> unat n) = (L(p \<mapsto> unat n)) |` (- kptrs (lists s) (stacks s) (dom (sems s)))"
        unfolding h(4) using nk by (auto simp: restrict_map_def)
    qed simp_all
    then have "returns (ecall_handler 0x01 n a2 a3 a4 s) (Some p) (U(p \<mapsto> unat n)) (f - unat n) (abs s)"
      using e by (simp add: returns_def)
    moreover have "U p = None" using l(1) h(4) by (simp add: restrict_map_def)
    ultimately show ?thesis using that(2) [OF False] returns_runs k(2) by blast
  qed
qed

lemma syscall_mem_free:
  assumes i: "kernel_inv m s U f" and p: "p = 0 \<or> p \<notin> kptrs (lists s) (stacks s) (dom (sems s))"
  shows "runs m (syscall 0x02 p a2 a3 a4 s) (U(p := None)) f (Some (if p = 0 \<or> U p \<noteq> None then 0 else -1), abs s)"
proof -
  have k: "kmem s U f" "ainv m (abs s)" using i by (simp_all add: kernel_inv_def)
  from k(1) obtain L g where h: "heap_live (kheap s) L g" "f \<le> g" "owned (lists s) (stacks s) (dom (sems s)) L"
    "U = L |` (- kptrs (lists s) (stacks s) (dom (sems s)))" by (rule kmemE)
  let ?K = "kptrs (lists s) (stacks s) (dom (sems s))"
  have z: "L 0 = None" using kh.null [OF h(1)] .
  have np: "L p = U p" using p z h(4) by (auto simp: restrict_map_def)
  obtain r h' g' where f: "kmfree p (kheap s) = Some (r, h')" "heap_live h' (L(p := None)) g'" "g \<le> g'" "r = (if p = 0 \<or> U p \<noteq> None then 0 else -1)"
  proof (cases "L p")
    case None
    then have "L(p := None) = L" by (simp add: fun_upd_idem)
    then show ?thesis using that h(1) kh.free_dead [OF h(1) _ None] kh.free_null np None by (cases "p = 0") auto
  next
    case (Some n)
    from kh.free_live [OF h(1) this] obtain h' where "kmfree p (kheap s) = Some (0, h')" "heap_live h' (L(p := None)) (g + n)" by blast
    moreover have "U p \<noteq> None" using np Some by (metis option.distinct(1))
    ultimately show ?thesis using that [of 0 h' "g + n"] by simp
  qed
  have "owned (lists s) (stacks s) (dom (sems s)) (L(p := None))"
  proof (cases "p = 0")
    case True
    then show ?thesis using z h(3) by (simp add: fun_upd_idem)
  next
    case False
    then have "p \<notin> ?K" using p by simp
    then show ?thesis by (rule owned_less [OF h(3)])
  qed
  moreover have "U(p := None) = (L(p := None)) |` (- ?K)" unfolding h(4) by (auto simp: restrict_map_def)
  ultimately have "kmem (s\<lparr>kheap := h'\<rparr>) (U(p := None)) f"
    using kmemI [of "s\<lparr>kheap := h'\<rparr>" "L(p := None)" g' f] f(2,3) h(2) by simp
  then have "returns (ecall_handler 0x02 p a2 a3 a4 s) (Some (of_int r)) (U(p := None)) f (abs s)"
    using f(1) by (simp add: ecall_handler_def mem_free_wrapper_def returns_def)
  moreover have "(of_int r :: u64) = (if p = 0 \<or> U p \<noteq> None then 0 else -1)" using f(4) by simp
  ultimately show ?thesis using returns_runs k(2) by simp
qed

subsection \<open>The console\<close>

definition a_con_init :: "u64 \<Rightarrow> akernel \<Rightarrow> akernel" where
  "a_con_init p a = (if con_initialized (acon a) then a
     else (a_open p 0 a)\<lparr>acon := (acon a)\<lparr>headPrint := 0, tailPrint := 0, headGet := 0, tailGet := 0,
        characterReadyToGet := p, con_initialized := True\<rparr>\<rparr>)"

lemma console_init_ok:
  assumes m: "kmem s U (Suc (Suc f))" and i: "ainv m (abs s)"
  obtains p where "goes (console_init s) U f (a_con_init p (abs s))" "ainv m (a_con_init p (abs s))"
    "p \<noteq> 0" "con_initialized (con s) \<or> sems s p = None"
proof (cases "con_initialized (con s)")
  case True
  have "goes (console_init s) U f (abs s)" using True kmem_mono [OF m, of f] by (auto simp: console_init_def intro: goesI)
  then show ?thesis using that [of 1] i True by (simp add: a_con_init_def)
next
  case False
  let ?c = "(con s)\<lparr>headPrint := 0, tailPrint := 0, headGet := 0, tailGet := 0\<rparr>"
  let ?s = "s\<lparr>con := ?c\<rparr>"
  have "kmem ?s U (Suc (Suc f))" by (rule kmem_cong [OF m]) simp_all
  from new_sem_ok [OF this, of 0] obtain p where p: "returns (new_sem 0 ?s) p U f (a_open p 0 (abs ?s))" "p \<noteq> 0" "sems ?s p = None" .
  have e: "a_con_init p (abs s) = (a_open p 0 (abs ?s))\<lparr>acon := ?c\<lparr>characterReadyToGet := p, con_initialized := True\<rparr>\<rparr>"
    using False by (simp add: a_con_init_def a_open_def)
  have "goes (new_sem 0 ?s \<bind> (\<lambda>(p, s). Some (upd_con (\<lambda>c. c\<lparr>characterReadyToGet := p, con_initialized := True\<rparr>) s))) U f
      (a_con_init p (abs s))"
  proof (rule goes_bind_returns [OF p(1)])
    fix s' assume s': "kmem s' U f" "abs s' = a_open p 0 (abs ?s)"
    have "acon (abs s') = ?c" unfolding s'(2) by (simp add: a_open_def)
    then have c: "con s' = ?c" by simp
    have "kmem (upd_con (\<lambda>c. c\<lparr>characterReadyToGet := p, con_initialized := True\<rparr>) s') U f"
      by (rule kmem_cong [OF s'(1)]) (simp_all add: upd_con_def)
    moreover have "abs (upd_con (\<lambda>c. c\<lparr>characterReadyToGet := p, con_initialized := True\<rparr>) s') = a_con_init p (abs s)"
      unfolding e upd_con_def c s'(2) [symmetric] by simp
    ultimately show "goes (Some (upd_con (\<lambda>c. c\<lparr>characterReadyToGet := p, con_initialized := True\<rparr>) s')) U f (a_con_init p (abs s))"
      by (rule goesI)
  qed
  then have "goes (console_init s) U f (a_con_init p (abs s))" using False by (simp add: console_init_def upd_con_def Let_def)
  moreover have "ainv m (a_con_init p (abs s))"
  proof -
    have "ainv m (a_open p 0 (abs s))" by (rule ainv_open [OF i]) (use p(2,3) in simp_all)
    then show ?thesis using False by (auto simp: a_con_init_def a_open_def con_ok_def intro!: ainv_con)
  qed
  ultimately show ?thesis using that p(2,3) by simp
qed

lemma syscall_putc:
  assumes i: "kernel_inv m s U (Suc (Suc f))"
  obtains p r c where "put_print (ucast ch) (acon (a_con_init p (abs s))) = (r, c)" "p \<noteq> 0" "con_initialized (con s) \<or> sems s p = None"
    "runs m (syscall 0x42 ch a2 a3 a4 s) U f (Some (of_int r), (a_con_init p (abs s))\<lparr>acon := c\<rparr>)"
proof -
  have k: "kmem s U (Suc (Suc f))" "ainv m (abs s)" using i by (simp_all add: kernel_inv_def)
  obtain p where p: "goes (console_init s) U f (a_con_init p (abs s))" "ainv m (a_con_init p (abs s))" "p \<noteq> 0"
    "con_initialized (con s) \<or> sems s p = None" by (rule console_init_ok [OF k])
  let ?a = "a_con_init p (abs s)"
  obtain r c where rc: "put_print (ucast ch) (acon ?a) = (r, c)" by force
  have "returns (console_init s \<bind> (\<lambda>s. let (r, c) = put_print (ucast ch) (con s) in Some (r, s\<lparr>con := c\<rparr>))) r U f (?a\<lparr>acon := c\<rparr>)"
  proof (rule returns_bind_goes [OF p(1)])
    fix s' assume s': "kmem s' U f" "abs s' = ?a"
    have "con s' = acon ?a" using arg_cong [OF s'(2), of acon] by simp
    moreover have "kmem (s'\<lparr>con := c\<rparr>) U f" by (rule kmem_cong [OF s'(1)]) simp_all
    ultimately show "returns (let (r, c) = put_print (ucast ch) (con s') in Some (r, s'\<lparr>con := c\<rparr>)) r U f (?a\<lparr>acon := c\<rparr>)"
      using rc s'(2) by (auto intro: returnsI)
  qed
  then have "returns (putCharInBuffer (ucast ch) s) r U f (?a\<lparr>acon := c\<rparr>)" by (simp add: putCharInBuffer_def)
  then have "returns (do { (r, s) \<leftarrow> putCharInBuffer (ucast ch) s; Some (Some (of_int r :: u64), s) }) (Some (of_int r)) U f (?a\<lparr>acon := c\<rparr>)"
    by (rule returns_bind) (auto intro: returnsI)
  moreover have "ainv m (?a\<lparr>acon := c\<rparr>)"
  proof -
    have "c = snd (put_print (ucast ch) (acon ?a))" using rc by simp
    then have "con_ok (?a\<lparr>acon := c\<rparr>) = con_ok ?a" by (simp add: con_ok_def put_print_def)
    then show ?thesis using p(2) by (intro ainv_con) (simp_all add: ainv_def shape_def)
  qed
  ultimately show ?thesis
    by (intro that [OF rc p(3,4)] returns_runs) (auto simp: ecall_handler_def putc_wrapper_def)
qed

definition a_getc :: "akernel \<Rightarrow> u64 option \<times> akernel" where
  "a_getc a = (case a_wait In_getChar (characterReadyToGet (acon a)) a of
       (None, a) \<Rightarrow> a_resume a
     | (Some _, a) \<Rightarrow> let (ch, a) = a_read_get a in (Some (of_char ch), a))"

lemma syscall_getc:
  assumes i: "kernel_inv m s U (f + 4)" and m: "m \<noteq> running s"
  obtains p where "p \<noteq> 0" "con_initialized (con s) \<or> sems s p = None" "runs m (syscall 0x41 a1 a2 a3 a4 s) U f (a_getc (a_con_init p (abs s)))"
proof -
  have k: "kmem s U (f + 4)" "ainv m (abs s)" using i by (simp_all add: kernel_inv_def)
  have "kmem s U (Suc (Suc (Suc (Suc f))))" using k(1) by (simp add: numeral_eq_Suc)
  then obtain p where p: "goes (console_init s) U (Suc (Suc f)) (a_con_init p (abs s))" "ainv m (a_con_init p (abs s))" "p \<noteq> 0"
    "con_initialized (con s) \<or> sems s p = None" by (rule console_init_ok [OF _ k(2)])
  let ?a = "a_con_init p (abs s)" and ?q = "characterReadyToGet (acon (a_con_init p (abs s)))"
  from p(1) obtain s1 where s1: "console_init s = Some s1" "kmem s1 U (Suc (Suc f))" "abs s1 = ?a" by (auto simp: goes_def)
  have i1: "kernel_inv m s1 U (Suc (Suc f))" using s1 p(2) by (simp add: kernel_inv_def)
  have m1: "m \<noteq> running s1"
    using m abs_running [OF s1(3)] by (simp add: a_con_init_def a_open_def split: if_splits)
  have ci: "con_initialized (acon ?a)" by (simp add: a_con_init_def)
  have q: "?q = characterReadyToGet (con s1)" using arg_cong [OF s1(3), of acon] by simp
  have pa: "asems (abs s1) ?q \<noteq> None" using p(2) ci unfolding s1(3) by (simp add: ainv_def shape_def con_ok_def)
  obtain x where t: "alive (abs s1) (running s1)" "\<not> a_finished (abs s1) (running s1)" by (rule kernel_invD [OF i1])
  have bd: "- (2 ^ 63) < a_val (abs s1) ?q" by (rule val_bound [OF i1]) (use pa in auto)
  have v: "a_val (a_dec ?q (abs s1)) ?q = a_val (abs s1) ?q - 1"
    using bd pa sint_dec by (auto simp: a_val_def a_dec_def)
  have l: "leaving m (In_getChar ?q) (a_block ?q (a_dec ?q (abs s1)))" if "a_val (abs s1) ?q \<le> 0"
    by (rule leaving_block [OF _ _ _ pa that bd]) (use i1 m1 in \<open>auto simp: kernel_inv_def\<close>)
  have w: "returns (wait In_getChar ?q s1) (fst (a_wait In_getChar ?q (abs s1))) U (Suc f) (snd (a_wait In_getChar ?q (abs s1)))"
    by (rule wait_ok [OF s1(2) pa t]) (use l v leaving_dispatchable in auto)
  show ?thesis
  proof (cases "a_val (abs s1) ?q \<le> 0")
    case True
    let ?b = "a_dispatch (In_getChar ?q) (a_block ?q (a_dec ?q (abs s1)))"
    have aw: "a_wait In_getChar ?q (abs s1) = (None, ?b)" using v True by (simp add: a_wait_def Let_def)
    from w obtain s2 where "wait In_getChar ?q s1 = Some (None, s2)" "kmem s2 U (Suc f)" "abs s2 = ?b" by (auto simp: aw returns_def)
    then have "switches m (ecall_handler 0x41 a1 a2 a3 a4 s) U f ?b"
      using a_dispatch_switched [OF l [OF True]] s1(1) kmem_mono [of s2 U "Suc f" f]
      by (simp add: switches_def ecall_handler_def getc_wrapper_def getCharFromBuffer_def q)
    from switches_runs [OF this] show ?thesis using aw s1(3) that [OF p(3,4)] by (simp add: a_getc_def)
  next
    case False
    let ?b = "a_dec ?q (abs s1)"
    have aw: "a_wait In_getChar ?q (abs s1) = (Some SEM_DIDNTWAIT, ?b)" using v False by (simp add: a_wait_def Let_def)
    from w obtain s2 where s2: "wait In_getChar ?q s1 = Some (Some SEM_DIDNTWAIT, s2)" "kmem s2 U (Suc f)" "abs s2 = ?b" by (auto simp: aw returns_def)
    have ib: "ainv m ?b" by (rule ainv_dec [OF _ pa]) (use i1 False in \<open>auto simp: kernel_inv_def\<close>)
    have rg: "kmem (snd (read_get s2)) U f" by (rule kmem_cong [OF kmem_mono [OF s2(2)]]) (simp_all add: read_get_def case_prod_unfold Let_def)
    have rr: "fst (read_get s2) = fst (a_read_get ?b)" "abs (snd (read_get s2)) = snd (a_read_get ?b)"
      unfolding s2(3) [symmetric] by (simp_all add: read_get_def a_read_get_def case_prod_unfold Let_def)
    have "returns (ecall_handler 0x41 a1 a2 a3 a4 s) (Some (of_char (fst (a_read_get ?b)))) U f (snd (a_read_get ?b))"
      using s1(1) s2(1) rg rr by (simp add: returns_def ecall_handler_def getc_wrapper_def getCharFromBuffer_def q case_prod_unfold Let_def)
    from returns_runs [OF this ainv_read_get [OF ib]] show ?thesis
      using aw s1(3) that [OF p(3,4)] by (simp add: a_getc_def case_prod_unfold Let_def)
  qed
qed

subsection \<open>The timer\<close>

definition a_timer :: "akernel \<Rightarrow> u64 option \<times> akernel" where
  "a_timer a = (case a_tick a of (True, a) \<Rightarrow> a_resume a | (False, a) \<Rightarrow> (None, a))"

lemma timer_trap_runs:
  assumes i: "kernel_inv m s U (Suc f)"
  shows "runs m (timer_trap s) U (Suc f) (a_timer (abs s))"
proof -
  have k: "kmem s U (Suc f)" "ainv m (abs s)" using i by (simp_all add: kernel_inv_def)
  define a1 where "a1 = (abs s)\<lparr>asip := Bit_Operations.and (sip s) (Bit_Operations.not SIP_SSIP), atime := SYS_TIME s + 1,
     acpu := runningThread_CPU_time s + 1\<rparr>"
  define a2 where "a2 = a_wake_list (aasleep a1) a1"
  have a1: "ainv m a1" using k(2) by (simp add: a1_def)
  have a2: "ainv m a2" using wake_list_ok [OF a1 refl] by (simp add: a2_def)
  have l: "leaving m In_timer a2" by (rule leaving_dispatch [OF a2]) simp
  have t: "a_tick (abs s) = (if timeSlice (the (athreads a2 (arunning a2))) \<le> acpu a2 then (True, a_dispatch In_timer a2) else (False, a2))"
    by (simp add: a_tick_def a1_def a2_def Let_def)
  from tick_ok [OF k(1) asleep_fine [OF k(2)]] leaving_dispatchable [OF l]
  have "returns (timer_interrupt_handler s) (fst (a_tick (abs s))) U (Suc f) (snd (a_tick (abs s)))" by (simp add: a1_def a2_def)
  then obtain s' where s': "timer_interrupt_handler s = Some (fst (a_tick (abs s)), s')" "kmem s' U (Suc f)" "abs s' = snd (a_tick (abs s))"
    by (auto simp: returns_def)
  show ?thesis
  proof (cases "fst (a_tick (abs s))")
    case True
    then have e: "a_tick (abs s) = (True, a_dispatch In_timer a2)" using t by (simp split: if_splits)
    note sw = a_dispatch_switched [OF l]
    have "abs s' = a_dispatch In_timer a2" using s'(3) e by simp
    with resume_ok [OF s'(2), of m] sw
    have "returns (resume_running s') (fst (a_resume (a_dispatch In_timer a2))) U (Suc f) (snd (a_resume (a_dispatch In_timer a2)))" by simp
    then show ?thesis using s'(1) e ainv_resume [OF sw] by (simp add: runs_def timer_trap_def a_timer_def)
  next
    case False
    then have e: "a_tick (abs s) = (False, a2)" using t by (simp split: if_splits)
    then show ?thesis using s' a2 by (simp add: runs_def timer_trap_def a_timer_def returns_def)
  qed
qed

end
