(* ===== verification/KernelSafe.thy ===== *)
theory KernelSafe
  imports KernelCalls
begin

text \<open>
  What a caller of the kernel must respect (\<open>call_ok\<close>), and that under it every system call is safe,
  keeps the invariant and is a call of the abstract kernel (\<open>a_call\<close>).
\<close>

text \<open>What the kernel relies on: the first thread \<open>m\<close> does not block or exit; a semaphore handle is null or a
  live semaphore; a semaphore is closed only when no thread is in \<open>timedWait\<close> on it and only by its
  user; \<open>sem_trywait\<close> is called with a positive value only; a thread exits before its parent is
  deleted; the user frees and gives as a stack only its own blocks.\<close>

definition sem_arg :: "kernel \<Rightarrow> u64 \<Rightarrow> (int \<Rightarrow> bool) \<Rightarrow> bool" where
  "sem_arg s p P \<longleftrightarrow> p = 0 \<or> (\<exists>x. sems s p = Some x \<and> P (sint (val x)))"

definition call_ok :: "u64 \<Rightarrow> (u64 \<rightharpoonup> nat) \<Rightarrow> kernel \<Rightarrow> u64 \<Rightarrow> u64 \<Rightarrow> u64 \<Rightarrow> u64 \<Rightarrow> bool" where
  "call_ok m U s c a1 a2 a4 \<longleftrightarrow>
     (c = 0x02 \<longrightarrow> a1 = 0 \<or> a1 \<notin> kptrs (lists s) (stacks s) (dom (sems s))) \<and>
     (c = 0x11 \<longrightarrow> a1 \<noteq> 0 \<and> a2 \<noteq> 0 \<and> a4 \<noteq> 0 \<and> U (a4 - 4096) = Some 65 \<and> (\<exists>p h. kmalloc 2 (kheap s) = Some (p, h) \<and> p \<noteq> 0)) \<and>
     (c = 0x12 \<longrightarrow> m \<noteq> running s \<and> (let q = parentThread (the (threads s (running s))) in q \<noteq> 0 \<longrightarrow> threads s q \<noteq> None)) \<and>
     (c = 0x21 \<longrightarrow> a1 \<noteq> 0 \<and> 0 \<le> sint a2) \<and>
     (c = 0x22 \<longrightarrow> sem_arg s a1 (\<lambda>v. True) \<and> not_in_timedWait (abs s) a1 \<and> (con_initialized (con s) \<longrightarrow> characterReadyToGet (con s) \<noteq> a1)) \<and>
     (c = 0x23 \<or> c = 0x25 \<longrightarrow> sem_arg s a1 (\<lambda>v. m \<noteq> running s \<or> 0 < v)) \<and>
     (c = 0x24 \<longrightarrow> sem_arg s a1 (\<lambda>v. v < 2 ^ 63 - 1)) \<and>
     (c = 0x26 \<longrightarrow> sem_arg s a1 (\<lambda>v. 0 < v)) \<and>
     (c = 0x31 \<or> c = 0x41 \<longrightarrow> m \<noteq> running s)"

definition user_blocks :: "u64 \<Rightarrow> u64 \<Rightarrow> u64 \<Rightarrow> (u64 \<rightharpoonup> nat) \<Rightarrow> (u64 \<rightharpoonup> nat) \<Rightarrow> bool" where
  "user_blocks c a1 a4 U U' \<longleftrightarrow>
     (if c = 0x01 then U' = U \<or> (\<exists>p. p \<noteq> 0 \<and> U p = None \<and> U' = U(p \<mapsto> unat a1))
      else if c = 0x02 then U' = U(a1 := None)
      else if c = 0x11 then U' = U(a4 - 4096 := None)
      else U' = U)"

lemma null_handle:
  "c \<in> {0x22, 0x23, 0x24, 0x25, 0x26} \<Longrightarrow> syscall c 0 a2 a3 a4 s = Some (Some (-1), s)"
  by (auto simp: syscall_def ecall_handler_def sem_close_wrapper_def sem_wait_wrapper_def sem_signal_wrapper_def
      sem_timedwait_wrapper_def sem_trywait_wrapper_def)

lemma unknown_code:
  "c \<notin> {0x01, 0x02, 0x11, 0x12, 0x13, 0x21, 0x22, 0x23, 0x24, 0x25, 0x26, 0x31, 0x41, 0x42} \<Longrightarrow>
   syscall c a1 a2 a3 a4 s = Some (Some (-55), s)"
  by (simp add: syscall_def ecall_handler_def)

text \<open>The calls of the abstract kernel, with the code, the registers \<open>a1\<close> to \<open>a4\<close> and the value returned. What
  memory the calls take and whether it suffices is not part of it: an address is any that is not in use.\<close>

inductive a_call :: "u64 \<Rightarrow> u64 \<Rightarrow> u64 \<Rightarrow> u64 \<Rightarrow> u64 \<Rightarrow> akernel \<Rightarrow> u64 option \<times> akernel \<Rightarrow> bool" where
  mem_alloc: "a_call 0x01 n a2 a3 a4 a (Some p, a)"
| mem_free: "a_call 0x02 p a2 a3 a4 a (Some r, a)"
| create: "p \<noteq> 0 \<Longrightarrow> athreads a p = None \<Longrightarrow>
    a_call 0x11 handle bdy ar stk a (Some 0, (a_create p bdy ar (stk - 4096) a)\<lparr>aumem := (aumem a)(handle := p)\<rparr>)"
| exit: "a_call 0x12 a1 a2 a3 a4 a (a_resume (a_exit a))"
| yield: "a_call 0x13 a1 a2 a3 a4 a (a_resume (a_dispatch In_dispatch_wrapper a))"
| sem_open: "p \<noteq> 0 \<Longrightarrow> asems a p = None \<Longrightarrow> a_call 0x21 handle v a3 a4 a (Some 0, (a_open p v a)\<lparr>aumem := (aumem a)(handle := p)\<rparr>)"
| sem_null: "c \<in> {0x22, 0x23, 0x24, 0x25, 0x26} \<Longrightarrow> a_call c 0 a2 a3 a4 a (Some (-1), a)"
| sem_close: "p \<noteq> 0 \<Longrightarrow> a_call 0x22 p a2 a3 a4 a (Some 0, a_close p a)"
| sem_wait: "p \<noteq> 0 \<Longrightarrow> a_call 0x23 p a2 a3 a4 a (a_continue (a_wait In_wait p a))"
| sem_signal: "p \<noteq> 0 \<Longrightarrow> a_call 0x24 p a2 a3 a4 a (Some (of_int (fst (a_signal p a))), snd (a_signal p a))"
| sem_timedwait: "p \<noteq> 0 \<Longrightarrow> a_call 0x25 p d a3 a4 a (a_continue (a_timedWait p d a))"
| sem_trywait: "p \<noteq> 0 \<Longrightarrow> 0 < a_val a p \<Longrightarrow> a_call 0x26 p a2 a3 a4 a (Some 1, a_dec p a)"
| sleep: "a_call 0x31 d a2 a3 a4 a (a_resume (a_dispatch In_sleep (a_sleep (clamp_sleep d) a)))"
| getc: "p \<noteq> 0 \<Longrightarrow> con_initialized (acon a) \<or> asems a p = None \<Longrightarrow> a_call 0x41 a1 a2 a3 a4 a (a_getc (a_con_init p a))"
| putc: "p \<noteq> 0 \<Longrightarrow> con_initialized (acon a) \<or> asems a p = None \<Longrightarrow> put_print (ucast ch) (acon (a_con_init p a)) = (r, c) \<Longrightarrow>
    a_call 0x42 ch a2 a3 a4 a (Some (of_int r), (a_con_init p a)\<lparr>acon := c\<rparr>)"
| unknown: "c \<notin> {0x01, 0x02, 0x11, 0x12, 0x13, 0x21, 0x22, 0x23, 0x24, 0x25, 0x26, 0x31, 0x41, 0x42} \<Longrightarrow>
    a_call c a1 a2 a3 a4 a (Some (-55), a)"

inductive_cases a_callE [consumes 1, case_names mem_alloc mem_free create exit yield sem_open sem_null sem_close sem_wait
    sem_signal sem_timedwait sem_trywait sleep getc putc unknown]: "a_call c a1 a2 a3 a4 a x"

text \<open>\<open>does m c U f X\<close>: the code \<open>c\<close> returns, keeps the invariant, and its result and abstract state satisfy \<open>X\<close>.\<close>

definition does :: "u64 \<Rightarrow> (u64 option \<times> kernel) option \<Rightarrow> (u64 \<rightharpoonup> nat) \<Rightarrow> nat \<Rightarrow> (u64 option \<times> akernel \<Rightarrow> bool) \<Rightarrow> bool" where
  "does m c U f X \<longleftrightarrow> (\<exists>r s'. c = Some (r, s') \<and> kernel_inv m s' U f \<and> X (r, abs s'))"

lemma runs_call:
  "runs m (syscall c a1 a2 a3 a4 s) U f x \<Longrightarrow> a_call c a1 a2 a3 a4 (abs s) x \<Longrightarrow> g \<le> f \<Longrightarrow>
   does m (syscall c a1 a2 a3 a4 s) U g (a_call c a1 a2 a3 a4 (abs s))"
  using kmem_mono by (cases x) (auto simp: runs_def returns_def does_def kernel_inv_def)

lemma stays_call:
  "kernel_inv m s U f \<Longrightarrow> syscall c a1 a2 a3 a4 s = Some (r, s) \<Longrightarrow> a_call c a1 a2 a3 a4 (abs s) (r, abs s) \<Longrightarrow>
   does m (syscall c a1 a2 a3 a4 s) U f (a_call c a1 a2 a3 a4 (abs s))"
  by (auto simp: does_def)

lemma kernel_inv_mono: "kernel_inv m s U f \<Longrightarrow> g \<le> f \<Longrightarrow> kernel_inv m s U g"
  using kmem_mono by (auto simp: kernel_inv_def)

lemma sem_argE:
  assumes "sem_arg s p P" "p \<noteq> 0"
  shows "sems s p \<noteq> None" "P (a_val (abs s) p)"
  using assms by (auto simp: sem_arg_def a_val_def)

lemma sem_call_does:
  assumes i: "kernel_inv m s U (f + 4)" and ok: "call_ok m U s c p a2 a4" and c: "c \<in> {0x22, 0x23, 0x24, 0x25, 0x26}"
  shows "does m (syscall c p a2 a3 a4 s) U f (a_call c p a2 a3 a4 (abs s))"
proof (cases "p = 0")
  case True
  then show ?thesis using null_handle [OF c] kernel_inv_mono [OF i, of f] a_call.sem_null [OF c] by (intro stays_call) simp_all
next
  case False
  note sa = sem_argE [OF _ False]
  have i2: "kernel_inv m s U (Suc (Suc f))" "kernel_inv m s U (Suc (Suc (Suc f)))" "kernel_inv m s U f"
    by (rule kernel_inv_mono [OF i]; simp)+
  from c consider "c = 0x22" | "c = 0x23" | "c = 0x24" | "c = 0x25" | "c = 0x26" by blast
  then show ?thesis
  proof cases
    case 1
    then have "sems s p \<noteq> None" "not_in_timedWait (abs s) p" "con_initialized (con s) \<longrightarrow> characterReadyToGet (con s) \<noteq> p"
      using ok sa(1) by (auto simp: call_ok_def)
    from runs_call [OF syscall_sem_close [OF i2(3) this] a_call.sem_close [OF False]] show ?thesis unfolding 1 by simp
  next
    case 2
    have a: "sem_arg s p (\<lambda>v. m \<noteq> running s \<or> 0 < v)" using ok 2 by (simp add: call_ok_def)
    show ?thesis unfolding 2
      by (rule runs_call [OF syscall_sem_wait [OF i2(1) sa(1) [OF a]] a_call.sem_wait [OF False]]) (use sa(2) [OF a] in auto)
  next
    case 3
    have a: "sem_arg s p (\<lambda>v. v < 2 ^ 63 - 1)" using ok 3 by (simp add: call_ok_def)
    show ?thesis unfolding 3
      by (rule runs_call [OF syscall_sem_signal [OF i2(3) sa(1) [OF a] sa(2) [OF a]] a_call.sem_signal [OF False]]) simp
  next
    case 4
    have a: "sem_arg s p (\<lambda>v. m \<noteq> running s \<or> 0 < v)" using ok 4 by (simp add: call_ok_def)
    show ?thesis unfolding 4
      by (rule runs_call [OF syscall_sem_timedwait [OF i2(2) sa(1) [OF a]] a_call.sem_timedwait [OF False]]) (use sa(2) [OF a] in auto)
  next
    case 5
    have a: "sem_arg s p (\<lambda>v. 0 < v)" using ok 5 by (simp add: call_ok_def)
    show ?thesis unfolding 5
      by (rule runs_call [OF syscall_sem_trywait [OF i2(3) sa(1) [OF a] sa(2) [OF a]] a_call.sem_trywait [OF False]]) (use sa(2) [OF a] in simp_all)
  qed
qed

lemma heap_live_init: "heap_live h L g \<Longrightarrow> init h = h"
  by (auto simp: heap_live_def heap_rep_def init_def)

lemma malloc_call_does:
  assumes i: "kernel_inv m s U f"
  shows "\<exists>U'. does m (syscall 0x01 n a2 a3 a4 s) U' (f - unat n) (a_call 0x01 n a2 a3 a4 (abs s)) \<and> user_blocks 0x01 n a4 U U'"
proof (cases "n = 0")
  case True
  obtain L g where "heap_live (kheap s) L g" using i by (auto simp: kernel_inv_def kmem_def)
  then have "init (kheap s) = kheap s" by (rule heap_live_init)
  then have "syscall 0x01 0 a2 a3 a4 s = Some (Some 0, s)"
    by (simp add: syscall_def ecall_handler_def mem_alloc_wrapper_def kmalloc_def)
  then have "does m (syscall 0x01 0 a2 a3 a4 s) U f (a_call 0x01 0 a2 a3 a4 (abs s))" by (rule stays_call [OF i]) (rule a_call.mem_alloc)
  then show ?thesis using True by (auto simp: user_blocks_def)
next
  case False
  show ?thesis
  proof (rule syscall_mem_alloc [OF i False, of a2 a3 a4])
    fix p assume "runs m (syscall 0x01 n a2 a3 a4 s) U f (Some 0, abs s)"
    from runs_call [OF this a_call.mem_alloc, of "f - unat n"] show ?thesis by (auto simp: user_blocks_def)
  next
    fix p assume "p \<noteq> 0" "U p = None" and r: "runs m (syscall 0x01 n a2 a3 a4 s) (U(p \<mapsto> unat n)) (f - unat n) (Some p, abs s)"
    then show ?thesis using runs_call [OF r a_call.mem_alloc order_refl] by (auto simp: user_blocks_def)
  qed
qed

lemma con_call_does:
  assumes i: "kernel_inv m s U (f + 4)" and c: "c = 0x41 \<and> m \<noteq> running s \<or> c = 0x42"
  shows "does m (syscall c a1 a2 a3 a4 s) U f (a_call c a1 a2 a3 a4 (abs s))"
proof (cases "c = 0x41")
  case True
  then have "m \<noteq> running s" using c by auto
  then obtain p where p: "p \<noteq> 0" "con_initialized (con s) \<or> sems s p = None"
    and r: "runs m (syscall 0x41 a1 a2 a3 a4 s) U f (a_getc (a_con_init p (abs s)))" by (rule syscall_getc [OF i])
  have "a_call 0x41 a1 a2 a3 a4 (abs s) (a_getc (a_con_init p (abs s)))" by (rule a_call.getc) (use p in auto)
  from runs_call [OF r this order_refl] show ?thesis unfolding True .
next
  case False
  then have c: "c = 0x42" using c by simp
  have "kernel_inv m s U (Suc (Suc f))" by (rule kernel_inv_mono [OF i]) simp
  then obtain p r c' where p: "put_print (ucast a1) (acon (a_con_init p (abs s))) = (r, c')" "p \<noteq> 0" "con_initialized (con s) \<or> sems s p = None"
    and r: "runs m (syscall 0x42 a1 a2 a3 a4 s) U f (Some (of_int r), (a_con_init p (abs s))\<lparr>acon := c'\<rparr>)" by (rule syscall_putc)
  have "a_call 0x42 a1 a2 a3 a4 (abs s) (Some (of_int r), (a_con_init p (abs s))\<lparr>acon := c'\<rparr>)" by (rule a_call.putc) (use p in auto)
  from runs_call [OF r this order_refl] show ?thesis unfolding c .
qed

lemma thread_call_does:
  assumes i: "kernel_inv m s U (f + 4)" and ok: "call_ok m U s c a1 a2 a4" and c: "c \<in> {0x11, 0x12, 0x13, 0x31}"
  shows "does m (syscall c a1 a2 a3 a4 s) (if c = 0x11 then U(a4 - 4096 := None) else U) f (a_call c a1 a2 a3 a4 (abs s))"
proof -
  have i2: "kernel_inv m s U (Suc f)" "kernel_inv m s U (Suc (Suc f))" "kernel_inv m s U (f + 3)" by (rule kernel_inv_mono [OF i]; simp)+
  from c consider "c = 0x11" | "c = 0x12" | "c = 0x13" | "c = 0x31" by blast
  then show ?thesis
  proof cases
    case 1
    then obtain p h where a: "a1 \<noteq> 0" "a2 \<noteq> 0" "a4 \<noteq> 0" "U (a4 - 4096) = Some 65" "kmalloc 2 (kheap s) = Some (p, h)" "p \<noteq> 0"
      using ok by (auto simp: call_ok_def)
    note r = syscall_thread_create [OF i2(3) a(1,2,5,6,4,3)]
    have "a_call 0x11 a1 a2 a3 a4 (abs s) (Some 0, (a_create p a2 a3 (a4 - 4096) (abs s))\<lparr>aumem := (umem s)(a1 := p)\<rparr>)"
      using a_call.create [of p "abs s" a1 a2 a3 a4] a(6) r(2) by simp
    from runs_call [OF r(1) this order_refl] 1 show ?thesis by simp
  next
    case 2
    then have "m \<noteq> running s" "parentThread (the (threads s (running s))) \<noteq> 0 \<longrightarrow> threads s (parentThread (the (threads s (running s)))) \<noteq> None"
      using ok by (auto simp: call_ok_def Let_def)
    from runs_call [OF syscall_exit [OF i2(1) this] a_call.exit, of f] 2 show ?thesis by simp
  next
    case 3
    from runs_call [OF syscall_dispatch [OF i2(1)] a_call.yield, of f] 3 show ?thesis by simp
  next
    case 4
    then have "m \<noteq> running s" using ok by (auto simp: call_ok_def)
    from runs_call [OF syscall_time_sleep [OF i2(2) this] a_call.sleep, of f] 4 show ?thesis by simp
  qed
qed

lemma every_call_does:
  assumes i: "kernel_inv m s U (f + 4)" and ok: "call_ok m U s c a1 a2 a4"
  shows "\<exists>U'. does m (syscall c a1 a2 a3 a4 s) U' (if c = 0x01 then f - unat a1 else f) (a_call c a1 a2 a3 a4 (abs s)) \<and>
    user_blocks c a1 a4 U U'"
proof -
  have i2: "kernel_inv m s U f" "kernel_inv m s U (Suc (Suc f))" by (rule kernel_inv_mono [OF i]; simp)+
  have u: ?thesis if "does m (syscall c a1 a2 a3 a4 s) U f (a_call c a1 a2 a3 a4 (abs s))" "c \<notin> {0x01, 0x02, 0x11}"
    using that by (auto simp: user_blocks_def)
  consider "c = 0x01" | "c = 0x02" | "c \<in> {0x11, 0x12, 0x13, 0x31}" | "c = 0x21" | "c \<in> {0x22, 0x23, 0x24, 0x25, 0x26}"
    | "c = 0x41 \<or> c = 0x42" | "c \<notin> {0x01, 0x02, 0x11, 0x12, 0x13, 0x21, 0x22, 0x23, 0x24, 0x25, 0x26, 0x31, 0x41, 0x42}" by blast
  then show ?thesis
  proof cases
    case 1
    from malloc_call_does [OF i2(1), of a1 a2 a3 a4] show ?thesis unfolding 1 by simp
  next
    case 2
    then have "a1 = 0 \<or> a1 \<notin> kptrs (lists s) (stacks s) (dom (sems s))" using ok by (auto simp: call_ok_def)
    from runs_call [OF syscall_mem_free [OF i2(1) this] a_call.mem_free order_refl] 2 show ?thesis by (auto simp: user_blocks_def)
  next
    case 3
    from thread_call_does [OF i ok 3] 3 show ?thesis by (auto simp: user_blocks_def split: if_splits)
  next
    case 4
    then have a: "a1 \<noteq> 0" "0 \<le> sint a2" using ok by (auto simp: call_ok_def)
    obtain p where p: "p \<noteq> 0" "sems s p = None"
      and r: "runs m (syscall 0x21 a1 a2 a3 a4 s) U f (Some 0, (a_open p a2 (abs s))\<lparr>aumem := (umem s)(a1 := p)\<rparr>)"
      by (rule syscall_sem_open [OF i2(2) a])
    have "a_call 0x21 a1 a2 a3 a4 (abs s) (Some 0, (a_open p a2 (abs s))\<lparr>aumem := (umem s)(a1 := p)\<rparr>)"
      using a_call.sem_open [of p "abs s" a1 a2 a3 a4] p by simp
    from runs_call [OF r this order_refl] 4 show ?thesis by (intro u) simp_all
  next
    case 5
    from sem_call_does [OF i ok 5] 5 show ?thesis by (intro u) auto
  next
    case 6
    then have "c = 0x41 \<and> m \<noteq> running s \<or> c = 0x42" using ok by (auto simp: call_ok_def)
    from con_call_does [OF i this] 6 show ?thesis by (intro u) auto
  next
    case 7
    from stays_call [OF i2(1) unknown_code [OF 7] a_call.unknown [OF 7]] show ?thesis using 7 by (intro u) auto
  qed
qed

lemma every_call_safe:
  assumes "kernel_inv m s U (f + 4)" "call_ok m U s c a1 a2 a4"
  shows "\<exists>r s' U'. syscall c a1 a2 a3 a4 s = Some (r, s') \<and> kernel_inv m s' U' (if c = 0x01 then f - unat a1 else f) \<and>
    user_blocks c a1 a4 U U' \<and> a_call c a1 a2 a3 a4 (abs s) (r, abs s')"
  using every_call_does [OF assms, of a3] unfolding does_def by blast

end
