(* ===== verification/KernelExample.thy ===== *)
theory KernelExample
  imports KernelSafe AllocatorProps
begin

text \<open>
  The kernel at work on a heap of 256 blocks: the first thread and a second one are created, a semaphore
  is opened, the second thread runs and waits on the semaphore. The states are the values of the
  model's own functions; that each satisfies the invariant follows from the theorems on the calls.
\<close>

subsection \<open>The heap\<close>

definition ex_heap :: heap where
  "ex_heap = init \<lparr>mem = (\<lambda>_. 0), headFree = 0, headTaken = 0, totalBlocks = 0, initialazed = False,
     HEAP_START_ADDR = 0x80010000, HEAP_END_ADDR = 0x80014000\<rparr>"

definition after :: "u64 \<Rightarrow> heap \<Rightarrow> heap" where
  "after n h = snd (the (kmalloc n h))"

definition one_free :: "heap \<Rightarrow> nat \<Rightarrow> bool" where
  "one_free h i \<longleftrightarrow> HEAP_START_ADDR h = 0x80010000 \<and> (\<exists>ts. heap_rep h [(i, 256 - i)] ts)"

lemma one_free_init: "one_free ex_heap 0"
proof -
  let ?h = "\<lparr>mem = (\<lambda>_. 0), headFree = 0, headTaken = 0, totalBlocks = 0, initialazed = False,
     HEAP_START_ADDR = 0x80010000, HEAP_END_ADDR = 0x80014000\<rparr>"
  have "heap_rep (init ?h) [(0, 256)] []" by (rule init_rep) (simp_all add: geom_def)
  then show ?thesis by (auto simp: one_free_def ex_heap_def init_def Let_def store_def)
qed

lemma one_free_after:
  assumes "one_free h i" "0 < unat n" "i + unat n < 256" "j = i + unat n"
  shows "kmalloc n h = Some (0x80010010 + of_nat (64 * i), after n h)" "one_free (after n h) j"
proof -
  from assms(1) obtain ts where r: "heap_rep h [(i, 256 - i)] ts" and b: "HEAP_START_ADDR h = 0x80010000"
    by (auto simp: one_free_def)
  have f: "afit (unat n) [(i, 256 - i)] = Some (i, [(i + unat n, 256 - (i + unat n))])"
    using assms(2,3) by (auto simp: afit_def)
  have n: "n \<noteq> 0" using assms(2) by auto
  obtain h' where h': "kmalloc n h = Some (adr (HEAP_START_ADDR h) i 16, h')" "heap_rep h' [(i + unat n, 256 - (i + unat n))] ((i, unat n) # ts)"
    "same_static h h'" using kmalloc_fit [OF r n f] by blast
  then show "kmalloc n h = Some (0x80010010 + of_nat (64 * i), after n h)" "one_free (after n h) j"
    using b assms(4) by (auto simp: after_def adr_def one_free_def same_static_def)
qed

definition ex_h1 :: heap where "ex_h1 = after 2 ex_heap"
definition ex_h2 :: heap where "ex_h2 = after 2 ex_h1"
definition ex_h3 :: heap where "ex_h3 = after 1 ex_h2"
definition ex_h4 :: heap where "ex_h4 = after 1 ex_h3"
definition ex_h5 :: heap where "ex_h5 = after 1 ex_h4"

lemma ex_heaps:
  "one_free ex_h1 2" "one_free ex_h2 4" "one_free ex_h3 5" "one_free ex_h4 6" "one_free ex_h5 7"
proof -
  show 1: "one_free ex_h1 2" unfolding ex_h1_def by (rule one_free_after(2) [OF one_free_init]) simp_all
  show 2: "one_free ex_h2 4" unfolding ex_h2_def by (rule one_free_after(2) [OF 1]) simp_all
  show 3: "one_free ex_h3 5" unfolding ex_h3_def by (rule one_free_after(2) [OF 2]) simp_all
  show 4: "one_free ex_h4 6" unfolding ex_h4_def by (rule one_free_after(2) [OF 3]) simp_all
  show "one_free ex_h5 7" unfolding ex_h5_def by (rule one_free_after(2) [OF 4]) simp_all
qed

lemma ex_malloc:
  assumes "one_free h i" "0 < unat n" "i + unat n < 256" "p = 0x80010010 + of_nat (64 * i)"
  shows "kmalloc n h = Some (p, after n h)"
  using one_free_after(1) [OF assms(1-3) refl] assms(4) by simp

lemma ex_mallocs:
  "kmalloc 2 ex_heap = Some (0x80010010, ex_h1)" "kmalloc 2 ex_h1 = Some (0x80010090, ex_h2)" "kmalloc 1 ex_h2 = Some (0x80010110, ex_h3)"
  "kmalloc 1 ex_h3 = Some (0x80010150, ex_h4)" "kmalloc 1 ex_h4 = Some (0x80010190, ex_h5)"
  unfolding ex_h1_def ex_h2_def ex_h3_def ex_h4_def ex_h5_def
  by (rule ex_malloc [OF one_free_init], simp_all, rule ex_malloc [OF ex_heaps(1) [unfolded ex_h1_def]], simp_all,
      rule ex_malloc [OF ex_heaps(2) [unfolded ex_h2_def ex_h1_def]], simp_all,
      rule ex_malloc [OF ex_heaps(3) [unfolded ex_h3_def ex_h2_def ex_h1_def]], simp_all,
      rule ex_malloc [OF ex_heaps(4) [unfolded ex_h4_def ex_h3_def ex_h2_def ex_h1_def]], simp_all)

lemma one_free_live: "one_free h i \<Longrightarrow> \<exists>L. heap_live h L (256 - i)"
  by (auto simp: one_free_def heap_live_def)

subsection \<open>The first thread\<close>

lemma kmem_kernel0:
  assumes "heap_live h L f"
  shows "kmem (kernel0 rg h) L f"
proof (rule kmemI [OF _ order_refl])
  show "heap_live (kheap (kernel0 rg h)) L f" using assms by (simp add: kernel0_def)
  have l: "lists (kernel0 rg h) = (\<lambda>_. [])" by (rule lists_eqI) (simp_all add: kernel0_def)
  show "owned (lists (kernel0 rg h)) (stacks (kernel0 rg h)) (dom (sems (kernel0 rg h))) L"
    unfolding l owned_def by (simp add: kernel0_def stacks_def)
  show "L = L |` (- kptrs (lists (kernel0 rg h)) (stacks (kernel0 rg h)) (dom (sems (kernel0 rg h))))"
    unfolding l kptrs_def by (simp add: kernel0_def stacks_def restrict_map_def)
qed simp_all

definition ex_regs :: "nat \<Rightarrow> u64 \<times> u64" where "ex_regs n = (0x80000600, 0x80011f00 + of_nat n)"

definition ex1 :: kernel where "ex1 = snd (the (createThread 0 0 0 (kernel0 ex_regs ex_heap)))"
definition ex2 :: kernel where "ex2 = snd (the (createThread 0x80000400 0 0 ex1))"
definition ex3 :: kernel where "ex3 = snd (the (new_sem 0 ex2))"

text \<open>The first thread, whose body is null, runs as soon as it is created.\<close>

lemma boot_inv_stack:
  assumes h: "heap_live h L (f + 3)" and p: "kmalloc 2 h = Some (p, h')" "p \<noteq> 0"
    and k: "k = (if stk \<noteq> 0 then stk - STACK_SIZE * 8 else 0)" "k = 0 \<or> L k = Some 65"
  shows "kernel_inv p (snd (the (createThread 0 ar stk (kernel0 rg h)))) (L(k := None)) f"
    "abs (snd (the (createThread 0 ar stk (kernel0 rg h)))) = a_create p 0 ar k (abs (kernel0 rg h))"
    "fst (the (createThread 0 ar stk (kernel0 rg h))) = p" "createThread 0 ar stk (kernel0 rg h) \<noteq> None"
proof -
  let ?s = "kernel0 rg h"
  have "kmalloc 2 (kheap ?s) = Some (p, h')" using p by (simp add: kernel0_def)
  then have r: "returns (createThread 0 ar stk ?s) p (L(k := None)) f (a_create p 0 ar k (abs ?s))"
    by (rule createThread_ok(1) [OF kmem_kernel0 [OF h] _ p(2) k]) (simp_all add: kernel0_def)
  have i: "ainv p (a_create p 0 ar k (abs ?s))"
    using p(2) by (auto simp: a_create_def Let_def kernel0_def abs_def ainv_def shape_def lists_ok_def sems_ok_def time_ok_def con_ok_def
        others_parked_def stands_def a_queue_def readyToRun_def console0_def)
  from r i show "kernel_inv p (snd (the (createThread 0 ar stk ?s))) (L(k := None)) f"
    "abs (snd (the (createThread 0 ar stk ?s))) = a_create p 0 ar k (abs ?s)"
    "fst (the (createThread 0 ar stk ?s)) = p" "createThread 0 ar stk ?s \<noteq> None"
    by (auto simp: returns_def kernel_inv_def)
qed

lemma boot_inv:
  assumes h: "heap_live h L (f + 3)" and p: "kmalloc 2 h = Some (p, h')" "p \<noteq> 0"
  shows "kernel_inv p (snd (the (createThread 0 0 0 (kernel0 rg h)))) L f"
    "abs (snd (the (createThread 0 0 0 (kernel0 rg h)))) = a_create p 0 0 0 (abs (kernel0 rg h))"
    "createThread 0 0 0 (kernel0 rg h) \<noteq> None"
proof -
  have "L(0 := None) = L" using kh.null [OF h] by (simp add: fun_upd_idem)
  with boot_inv_stack [OF assms, of 0 0 0]
  show "kernel_inv p (snd (the (createThread 0 0 0 (kernel0 rg h)))) L f"
    "abs (snd (the (createThread 0 0 0 (kernel0 rg h)))) = a_create p 0 0 0 (abs (kernel0 rg h))"
    "createThread 0 0 0 (kernel0 rg h) \<noteq> None" by simp_all
qed

abbreviation "main_t \<equiv> (0x80010010 :: u64)"
abbreviation "user_t \<equiv> (0x80010090 :: u64)"
abbreviation "ex_sem \<equiv> (0x80010150 :: u64)"

definition ex_main :: thread where
  "ex_main = \<lparr>body = 0, arg = 0, stack = 0, saved_context = In_threadWrapper, timeSlice = 2, threadState = RUNNING, myID = 1,
     myMagicNumber = THREAD_MAGIC_NUMBER, parentThread = 0, numOfChildren = 0, semStatus = NON_WAITING, mySem = 0, timeForWakingUp = 0\<rparr>"

definition ex_user :: thread where
  "ex_user = \<lparr>body = 0x80000400, arg = 0, stack = 0, saved_context = In_threadWrapper, timeSlice = 2, threadState = READY, myID = 2,
     myMagicNumber = THREAD_MAGIC_NUMBER, parentThread = main_t, numOfChildren = 0, semStatus = NON_WAITING, mySem = 0, timeForWakingUp = 0\<rparr>"

lemma ex1: "\<exists>U. kernel_inv main_t ex1 U 200" "kheap ex1 = ex_h1" "abs ex1 = a_create main_t 0 0 0 (abs (kernel0 ex_regs ex_heap))"
proof -
  obtain L where "heap_live ex_heap L (256 - 0)" using one_free_live [OF one_free_init] by auto
  then have L: "heap_live ex_heap L (253 + 3)" by simp
  note b = boot_inv [OF L ex_mallocs(1)]
  show "\<exists>U. kernel_inv main_t ex1 U 200" using kernel_inv_mono [OF b(1), of 200] by (auto simp: ex1_def)
  show "abs ex1 = a_create main_t 0 0 0 (abs (kernel0 ex_regs ex_heap))" using b(2) by (simp add: ex1_def)
  show "kheap ex1 = ex_h1" by (simp add: ex1_def createThread_def kernel0_def ex_mallocs upd_thread_def Let_def)
qed

lemma ex2: "\<exists>U. kernel_inv main_t ex2 U 190" "kheap ex2 = ex_h3" "abs ex2 = a_create user_t 0x80000400 0 0 (abs ex1)"
proof -
  obtain U where U: "kernel_inv main_t ex1 U (197 + 3)" using ex1(1) by auto
  then obtain x where k: "kmem ex1 U (197 + 3)" "ainv main_t (abs ex1)" "threads ex1 (running ex1) = Some x" by (rule kernel_invD)
  have m: "kmalloc 2 (kheap ex1) = Some (user_t, ex_h2)" using ex1(2) ex_mallocs(2) by simp
  have r: "returns (createThread 0x80000400 0 0 ex1) user_t (U(0 := None)) 197 (a_create user_t 0x80000400 0 0 (abs ex1))"
    and n: "threads ex1 user_t = None"
    by (rule createThread_ok [OF k(1) m, where k = 0 and stk = 0]; use k(3) in simp)+
  have "ainv main_t (a_create user_t 0x80000400 0 0 (abs ex1))" by (rule ainv_create [OF k(2)]) (use n in simp_all)
  then have "kernel_inv main_t ex2 (U(0 := None)) 197" using r by (auto simp: kernel_inv_def ex2_def returns_def)
  from kernel_inv_mono [OF this, of 190] show "\<exists>U. kernel_inv main_t ex2 U 190" by auto
  show "abs ex2 = a_create user_t 0x80000400 0 0 (abs ex1)" using r by (auto simp: ex2_def returns_def)
  obtain x' where x': "threads ex1 main_t = Some x'" using arg_cong [OF ex1(3), of "\<lambda>a. athreads a main_t"] by (simp add: a_create_def kernel0_def Let_def)
  have "running ex1 = main_t" using arg_cong [OF ex1(3), of arunning] by (simp add: a_create_def kernel0_def Let_def)
  then show "kheap ex2 = ex_h3"
    using x' m by (simp add: ex2_def createThread_def ex_mallocs upd_thread_def Let_def put_def k_addLast_def new_elem_def)
qed

lemma ex3: "\<exists>U. kernel_inv main_t ex3 U 180" "abs ex3 = a_open ex_sem 0 (abs ex2)"
proof -
  obtain U where U: "kernel_inv main_t ex2 U (Suc (Suc 188))" using ex2(1) by auto
  then have k: "kmem ex2 U (Suc (Suc 188))" "ainv main_t (abs ex2)" by (simp_all add: kernel_inv_def)
  obtain p where p: "returns (new_sem 0 ex2) p U 188 (a_open p 0 (abs ex2))" "p \<noteq> 0" "sems ex2 p = None" by (rule new_sem_ok [OF k(1)])
  have "fst (the (new_sem 0 ex2)) = ex_sem" by (simp add: new_sem_def ex2(2) ex_mallocs k_addLast_def new_elem_def Let_def)
  then have e: "p = ex_sem" using p(1) by (auto simp: returns_def)
  have "ainv main_t (a_open ex_sem 0 (abs ex2))" by (rule ainv_open [OF k(2)]) (use p(3) e in simp_all)
  then have "kernel_inv main_t ex3 U 188" using p(1) e by (auto simp: kernel_inv_def ex3_def returns_def)
  from kernel_inv_mono [OF this, of 180] show "\<exists>U. kernel_inv main_t ex3 U 180" by auto
  show "abs ex3 = a_open ex_sem 0 (abs ex2)" using p(1) e by (auto simp: ex3_def returns_def)
qed

lemma ex3_abs:
  "abs ex3 = \<lparr>athreads = [main_t \<mapsto> ex_main\<lparr>numOfChildren := 1\<rparr>, user_t \<mapsto> ex_user], asems = [ex_sem \<mapsto> \<lparr>aval = 0, awaiters = [], atimed = 0\<rparr>],
     arunning = main_t, aready = [user_t], aasleep = [], aallsems = [ex_sem], anumsems = 1, aID = 2, asystem = 2, atime = 0, acpu = 0,
     anumasleep = 0, acon = console0, asip = 0, aumem = (\<lambda>_. 0)\<rparr>"
  unfolding ex3(2) ex2(3) ex1(3)
  by (simp add: a_open_def a_create_def Let_def a_put_def a_thread_def abs_def kernel0_def ex_main_def ex_user_def TIME_SLICE_def DEFAULT_TIME_SLICE_def)


subsection \<open>The second thread runs, waits, and is woken\<close>

definition ex4 :: kernel where "ex4 = snd (the (syscall 0x13 0 0 0 0 ex3))"
definition ex5 :: kernel where "ex5 = snd (the (syscall 0x23 ex_sem 0 0 0 ex4))"

lemma runs_next: "runs m c U f x \<Longrightarrow> kernel_inv m (snd (the c)) U f \<and> abs (snd (the c)) = snd x \<and> fst (the c) = fst x \<and> c \<noteq> None"
  by (auto simp: runs_def returns_def kernel_inv_def)

lemma ex4: "\<exists>U. kernel_inv main_t ex4 U 170"
  "abs ex4 = (abs ex3)\<lparr>arunning := user_t, aready := [main_t],
     athreads := [main_t \<mapsto> ex_main\<lparr>numOfChildren := 1, threadState := READY, saved_context := In_dispatch_wrapper\<rparr>,
       user_t \<mapsto> ex_user\<lparr>threadState := RUNNING\<rparr>]\<rparr>"
proof -
  obtain U where "kernel_inv main_t ex3 U (Suc 179)" using ex3(1) by auto
  from runs_next [OF syscall_dispatch [OF this, of 0 0 0 0]]
  have k: "kernel_inv main_t ex4 U (Suc 179)" "abs ex4 = snd (a_resume (a_dispatch In_dispatch_wrapper (abs ex3)))" by (simp_all add: ex4_def)
  from kernel_inv_mono [OF k(1), of 170] show "\<exists>U. kernel_inv main_t ex4 U 170" by auto
  show "abs ex4 = (abs ex3)\<lparr>arunning := user_t, aready := [main_t],
     athreads := [main_t \<mapsto> ex_main\<lparr>numOfChildren := 1, threadState := READY, saved_context := In_dispatch_wrapper\<rparr>,
       user_t \<mapsto> ex_user\<lparr>threadState := RUNNING\<rparr>]\<rparr>"
    unfolding k(2) ex3_abs
    by (simp add: a_dispatch_def a_leave_def a_purge_def a_enter_def a_put_def a_thread_def a_resume_def Let_def readyToRun_def ex_main_def ex_user_def
        a_finished_def fun_upd_twist restrict_map_def fun_eq_iff)
qed

lemma ex5: "\<exists>U. kernel_inv main_t ex5 U 160"
  "abs ex5 = (abs ex3)\<lparr>athreads := [main_t \<mapsto> ex_main\<lparr>numOfChildren := 1, saved_context := In_dispatch_wrapper\<rparr>,
       user_t \<mapsto> ex_user\<lparr>threadState := SUSPENDED, semStatus := WAITING, mySem := ex_sem, saved_context := In_wait ex_sem\<rparr>],
     arunning := main_t, aready := [], asems := [ex_sem \<mapsto> \<lparr>aval = -1, awaiters = [user_t], atimed = 0\<rparr>]\<rparr>"
proof -
  obtain U where i: "kernel_inv main_t ex4 U (Suc (Suc 168))" using ex4(1) by auto
  have r: "arunning (abs ex4) = user_t" "asems (abs ex4) = [ex_sem \<mapsto> \<lparr>aval = 0, awaiters = [], atimed = 0\<rparr>]"
    unfolding ex4(2) ex3_abs by simp_all
  have "sems ex4 ex_sem \<noteq> None" using arg_cong [OF r(2), of "\<lambda>a. a ex_sem"] by auto
  moreover have "main_t \<noteq> running ex4" using r(1) by simp
  ultimately have "runs main_t (syscall 0x23 ex_sem 0 0 0 ex4) U (Suc 168) (a_continue (a_wait In_wait ex_sem (abs ex4)))"
    by (intro syscall_sem_wait [OF i]) auto
  from runs_next [OF this] have k: "kernel_inv main_t ex5 U (Suc 168)" "abs ex5 = snd (a_continue (a_wait In_wait ex_sem (abs ex4)))"
    by (simp_all add: ex5_def)
  from kernel_inv_mono [OF k(1), of 160] show "\<exists>U. kernel_inv main_t ex5 U 160" by auto
  show "abs ex5 = (abs ex3)\<lparr>athreads := [main_t \<mapsto> ex_main\<lparr>numOfChildren := 1, saved_context := In_dispatch_wrapper\<rparr>,
       user_t \<mapsto> ex_user\<lparr>threadState := SUSPENDED, semStatus := WAITING, mySem := ex_sem, saved_context := In_wait ex_sem\<rparr>],
     arunning := main_t, aready := [], asems := [ex_sem \<mapsto> \<lparr>aval = -1, awaiters = [user_t], atimed = 0\<rparr>]\<rparr>"
    unfolding k(2) ex4(2) ex3_abs
    by (simp add: a_wait_def a_dec_def a_sem_def a_val_def a_block_def a_status_def a_dispatch_def a_leave_def a_purge_def a_enter_def a_put_def a_thread_def a_resume_def
        Let_def readyToRun_def ex_main_def ex_user_def a_finished_def fun_upd_twist restrict_map_def fun_eq_iff)
qed

end
