(* ===== verification/SchedulerProps.thy ===== *)
theory SchedulerProps
  imports KernelExample
begin

text \<open>
  What the system calls do, stated on the kernel's state: safety of every call and of the timer, the
  invariant of every run, round-robin scheduling, creation and exit of threads.
\<close>

abbreviation ready :: "kernel \<Rightarrow> u64 list" where "ready s \<equiv> datas (queueThreads s)"
abbreviation asleep :: "kernel \<Rightarrow> u64 list" where "asleep s \<equiv> datas (listAsleepThreads s)"
abbreviation sem_view :: "kernel \<Rightarrow> u64 \<Rightarrow> asem option" where "sem_view s p \<equiv> asems (abs s) p"

lemma runsE:
  assumes "runs m c U f x"
  obtains s' where "c = Some (fst x, s')" "kernel_inv m s' U f" "abs s' = snd x"
  using assms by (auto simp: runs_def returns_def kernel_inv_def)

subsection \<open>Safety\<close>

text \<open>The kernel stores into the user's memory through the handle of \<open>thread_create\<close> and \<open>sem_open\<close> only.\<close>

lemma aumem_kept [simp]: "aumem (a_thread t f a) = aumem a" "aumem (a_sem p g a) = aumem a" "aumem (a_put t a) = aumem a"
    "aumem (a_status t st a) = aumem a" "aumem (a_insert_asleep t a) = aumem a" "aumem (a_dec p a) = aumem a" "aumem (a_inc p a) = aumem a"
  by (simp_all add: a_thread_def a_sem_def a_put_def a_status_def a_insert_asleep_def a_dec_def a_inc_def)

lemma aumem_dispatch [simp]: "aumem (a_dispatch k a) = aumem a"
  by (simp add: a_dispatch_def a_enter_def a_purge_def a_leave_def Let_def)

lemma aumem_unblock [simp]: "aumem (a_unblock st p a) = aumem a" "aumem (a_unblockAll st p n a) = aumem a"
proof -
  show u: "aumem (a_unblock st p a) = aumem a" for a by (simp add: a_unblock_def a_release_def Let_def)
  show "aumem (a_unblockAll st p n a) = aumem a" by (induction n arbitrary: a) (simp_all add: u)
qed

lemma aumem_ops [simp]: "aumem (a_exit a) = aumem a" "aumem (snd (a_wait k p a)) = aumem a" "aumem (snd (a_timedWait p d a)) = aumem a"
    "aumem (snd (a_signal p a)) = aumem a" "aumem (a_close p a) = aumem a" "aumem (a_sleep d a) = aumem a" "aumem (a_con_init p a) = aumem a"
    "aumem (a_create p b ar stk a) = aumem a" "aumem (a_open p v a) = aumem a"
  by (simp_all add: a_exit_def a_finish_def a_wait_def a_timedWait_def a_block_def a_timedBlock_def a_signal_def a_close_def a_sleep_def
      a_con_init_def a_create_def a_open_def Let_def)

lemma aumem_resume [simp]: "aumem (snd (a_resume a)) = aumem a"
  by (cases "saved_context (the (athreads a (arunning a)))")
    (simp_all add: a_resume_def a_wait_resume_def a_timedWait_resume_def a_answer_def a_read_get_def a_sleep_wakeup_def case_prod_unfold Let_def)

lemma aumem_continue [simp]: "aumem (snd (a_continue x)) = aumem (snd x)"
  by (cases x rule: a_continue.cases) simp_all

lemma aumem_wake: "aumem (a_wake_list ts a) = aumem a"
  by (induction ts arbitrary: a) (simp_all add: a_wake_def a_timeout_def a_release_def Let_def)

lemma aumem_timer: "aumem (snd (a_timer a)) = aumem a"
  by (simp add: a_timer_def a_tick_def aumem_wake case_prod_unfold Let_def)

lemma aumem_call:
  assumes "a_call c a1 a2 a3 a4 a x" "c \<notin> {0x11, 0x21} \<or> q \<noteq> a1"
  shows "aumem (snd x) q = aumem a q"
  using assms(1)
proof (cases rule: a_callE)
  case (getc p)
  have "aumem (snd (a_wait In_getChar q b)) = aumem b" for q b by simp
  moreover have "aumem (snd (a_getc b)) = aumem (snd (a_wait In_getChar (characterReadyToGet (acon b)) b))" for b
    by (cases "a_wait In_getChar (characterReadyToGet (acon b)) b")
      (simp add: a_getc_def a_read_get_def case_prod_unfold Let_def split: option.splits)
  ultimately show ?thesis unfolding getc by simp
qed (use assms(2) in simp_all)

text \<open>
  C1: Every system call that respects \<open>call_ok\<close>, made in a state that satisfies the invariant with four
  blocks of memory free, ends: it follows no null pointer, reads and changes no object that has been deleted, with
  the one exception below, and its loops end. The invariant holds again after it. It takes no block from the user and gives none but
  the one that \<open>mem_alloc\<close> returns, \<open>mem_free\<close> is given or \<open>thread_create\<close> takes as the stack, and the only word of the user's memory
  that it may store to is the handle of \<open>thread_create\<close> and \<open>sem_open\<close>. The exception is the store of the context of a thread that has been
  deleted (\<open>write_late_context\<close>, at the end of \<open>thread_exit\<close>): it goes to the two words at offsets 24 and 32 of the freed object, and the invariant, with
  the allocator's lists, holds after it whatever the values are. (Stacks are not part of this state: that the dead thread is also
  still on its freed stack, up to the switch, is outside of the model.)
\<close>

theorem syscall_safe:
  assumes "kernel_inv m s U (f + 4)" "call_ok m U s c a1 a2 a4"
  shows "\<exists>r s' U'. syscall c a1 a2 a3 a4 s = Some (r, s') \<and> kernel_inv m s' U' (if c = 0x01 then f - unat a1 else f) \<and>
    user_blocks c a1 a4 U U' \<and> (\<forall>q. c \<notin> {0x11, 0x21} \<or> q \<noteq> a1 \<longrightarrow> umem s' q = umem s q)"
proof -
  obtain r s' U' where s': "syscall c a1 a2 a3 a4 s = Some (r, s')" "kernel_inv m s' U' (if c = 0x01 then f - unat a1 else f)"
    "user_blocks c a1 a4 U U'" "a_call c a1 a2 a3 a4 (abs s) (r, abs s')" using every_call_safe [OF assms, of a3] by blast
  have "umem s' q = umem s q" if "c \<notin> {0x11, 0x21} \<or> q \<noteq> a1" for q using aumem_call [OF s'(4) that] by simp
  then show ?thesis using s'(1-3) by blast
qed

lemma syscall_safe_witness: "\<exists>r s'. syscall 0x23 ex_sem 0 0 0 ex4 = Some (r, s')"
proof -
  obtain U where "kernel_inv main_t ex4 U (166 + 4)" using ex4(1) by auto
  moreover have "call_ok main_t U ex4 0x23 ex_sem 0 0"
  proof -
    have "arunning (abs ex4) = user_t" "asems (abs ex4) ex_sem \<noteq> None" unfolding ex4(2) ex3_abs by simp_all
    then show ?thesis by (auto simp: call_ok_def sem_arg_def)
  qed
  ultimately show ?thesis using syscall_safe [of main_t ex4 U 166 "0x23" ex_sem 0 0 0] by blast
qed

text \<open>
  C2: A timer interrupt in a state that satisfies the invariant and has at least one free block of memory (the ready queue may need
  it for a cell) ends, whatever it wakes and whether or not it preempts the running thread; the invariant holds after it, as many
  blocks are known to be free as before, the user's blocks are the same and no word of the user's memory has changed.
\<close>

theorem timer_trap_safe:
  assumes "kernel_inv m s U (Suc f)"
  shows "\<exists>r s'. timer_trap s = Some (r, s') \<and> kernel_inv m s' U (Suc f) \<and> umem s' = umem s"
  using timer_trap_runs [OF assms]
proof (rule runsE)
  fix s' assume s': "timer_trap s = Some (fst (a_timer (abs s)), s')" "kernel_inv m s' U (Suc f)" "abs s' = snd (a_timer (abs s))"
  have "umem s' = umem s" using arg_cong [OF s'(3), of aumem] by (simp add: aumem_timer)
  then show ?thesis using s'(1,2) by blast
qed

lemma timer_trap_safe_witness: "\<exists>r s'. timer_trap ex5 = Some (r, s')"
proof -
  obtain U where "kernel_inv main_t ex5 U (Suc 159)" using ex5(1) by auto
  from timer_trap_safe [OF this] show ?thesis by auto
qed

text \<open>The runs of the kernel from the creation of the first thread: timer interrupts and system calls that satisfy \<open>call_ok\<close>, each made while
  four blocks of memory are free. The events of a run: system calls with their code, arguments and answer, and timer interrupts with what the thread
  that runs afterwards finds in \<open>a0\<close>.\<close>

datatype event = Call u64 u64 u64 u64 u64 "u64 option" | Tick "u64 option"

inductive kernel_trace :: "u64 \<Rightarrow> event list \<Rightarrow> kernel \<Rightarrow> (u64 \<rightharpoonup> nat) \<Rightarrow> bool" for m where
  boot: "heap_live h U (f + 7) \<Longrightarrow> kmalloc 2 h = Some (m, h') \<Longrightarrow> m \<noteq> 0 \<Longrightarrow>
    createThread 0 0 0 (kernel0 rg h) = Some (m, s) \<Longrightarrow> kernel_trace m [] s U"
| call: "kernel_trace m es s U \<Longrightarrow> kmem s U 4 \<Longrightarrow> call_ok m U s c a1 a2 a4 \<Longrightarrow> syscall c a1 a2 a3 a4 s = Some (r, s') \<Longrightarrow>
    user_blocks c a1 a4 U U' \<Longrightarrow> kmem s' U' 0 \<Longrightarrow> kernel_trace m (es @ [Call c a1 a2 a3 a4 r]) s' U'"
| tick: "kernel_trace m es s U \<Longrightarrow> kmem s U 4 \<Longrightarrow> timer_trap s = Some (r, s') \<Longrightarrow> kernel_trace m (es @ [Tick r]) s' U"

lemma kernel_trace_inv: "kernel_trace m es s U \<Longrightarrow> kernel_inv m s U 0"
proof (induction rule: kernel_trace.induct)
  case (boot h U f h' rg s)
  then have "kernel_inv m s U (f + 4)" using boot_inv(1) [of h U "f + 4" m h' rg] by (simp add: add.assoc)
  then show ?case by (rule kernel_inv_mono) simp
next
  case (call es s U c a1 a2 a4 a3 r s' U')
  then have "kernel_inv m s U (0 + 4)" by (simp add: kernel_inv_def)
  from every_call_safe [OF this call.hyps(3), of a3] call.hyps(4) have "ainv m (abs s')" by (auto simp: kernel_inv_def)
  then show ?case using call.hyps(6) by (simp add: kernel_inv_def)
next
  case (tick es s U r s')
  then have "kernel_inv m s U (Suc 3)" by (simp add: kernel_inv_def numeral_eq_Suc)
  from timer_trap_runs [OF this] tick.hyps(3) show ?case by (auto elim!: runsE intro: kernel_inv_mono)
qed

definition placed :: "kernel \<Rightarrow> u64 \<Rightarrow> thread \<Rightarrow> bool" where
  "placed s t x \<longleftrightarrow> (case semStatus x of
         WAITING \<Rightarrow> t \<notin> set (ready s) \<and> t \<notin> set (asleep s) \<and> (\<exists>y. sems s (mySem x) = Some y \<and> t \<in> set (datas (queueBlocked y)))
       | TIMEDWAITING \<Rightarrow> t \<notin> set (ready s) \<and> t \<in> set (asleep s) \<and> (\<exists>y. sems s (mySem x) = Some y \<and> t \<in> set (datas (queueBlocked y)))
       | _ \<Rightarrow> (t \<in> set (ready s)) \<noteq> (t \<in> set (asleep s)))"


lemma ex1_trace: "\<exists>U. kernel_trace main_t [] ex1 U \<and> kmem ex1 U 200"
proof -
  obtain L where "heap_live ex_heap L (256 - 0)" using one_free_live [OF one_free_init] by auto
  then have L: "heap_live ex_heap L (249 + 7)" "heap_live ex_heap L (253 + 3)" by simp_all
  have c: "createThread 0 0 0 (kernel0 ex_regs ex_heap) = Some (main_t, ex1)"
    by (simp add: ex1_def createThread_def kernel0_def ex_mallocs upd_thread_def Let_def)
  have "kernel_trace main_t [] ex1 L" by (rule kernel_trace.boot [OF L(1) ex_mallocs(1) _ c]) simp
  moreover have "kmem ex1 L 200" using boot_inv(1) [OF L(2) ex_mallocs(1), of ex_regs] kmem_mono [of ex1 L 253 200] c by (simp add: kernel_inv_def)
  ultimately show ?thesis by blast
qed


subsection \<open>Round robin\<close>

lemma a_dispatch_eq:
  assumes "leaving m k a"
  shows "a_dispatch k a = a_thread (arunning a) (saved_context_update (\<lambda>_. k)) (a_enter (a_leave a))"
proof -
  note p = all_parked_purge [OF a_leave_all_parked [OF assms]]
  have "a_purge (a_leave a) = a_leave a" using p(2,3) a_purge_simps(2) by (cases "aready (a_leave a)") auto
  then show ?thesis by (simp add: a_dispatch_def)
qed

lemma a_dispatch_ready:
  assumes i: "ainv m a" and k: "woken k = {NON_WAITING}"
  shows "arunning (a_dispatch k a) = hd (aready a @ [arunning a])" "aready (a_dispatch k a) = tl (aready a @ [arunning a])"
    "aasleep (a_dispatch k a) = aasleep a" "asems (a_dispatch k a) = asems a"
    "\<And>t. t \<noteq> arunning a \<Longrightarrow> t \<noteq> arunning (a_dispatch k a) \<Longrightarrow> athreads (a_dispatch k a) t = athreads a t"
    "\<exists>x. athreads (a_dispatch k a) (arunning (a_dispatch k a)) = Some x \<and> threadState x = RUNNING"
    "\<exists>x. athreads (a_dispatch k a) (arunning a) = Some x \<and> saved_context x = k"
proof -
  have l: "leaving m k a" by (rule leaving_dispatch [OF i k])
  from i obtain x where x: "athreads a (arunning a) = Some x" "readyToRun x" and st: "shape a" by (rule ainvE) auto
  have e: "a_dispatch k a = a_thread (arunning a) (saved_context_update (\<lambda>_. k))
      (a_enter (a_put (arunning a) (a_thread (arunning a) (threadState_update (\<lambda>_. READY)) (a\<lparr>acpu := 0\<rparr>))))"
    using x by (simp add: a_dispatch_eq [OF l] a_leave_def Let_def)
  show "arunning (a_dispatch k a) = hd (aready a @ [arunning a])" "aready (a_dispatch k a) = tl (aready a @ [arunning a])"
    "aasleep (a_dispatch k a) = aasleep a" "asems (a_dispatch k a) = asems a"
    "\<And>t. t \<noteq> arunning a \<Longrightarrow> t \<noteq> arunning (a_dispatch k a) \<Longrightarrow> athreads (a_dispatch k a) t = athreads a t"
    unfolding e by (simp_all add: a_enter_def a_put_def)
  show "\<exists>x. athreads (a_dispatch k a) (arunning (a_dispatch k a)) = Some x \<and> threadState x = RUNNING"
    using a_dispatch_switched [OF l] unfolding switched_def by blast
  show "\<exists>x. athreads (a_dispatch k a) (arunning a) = Some x \<and> saved_context x = k"
    unfolding e using x by (simp add: a_enter_def a_put_def)
qed

lemma a_dispatch_exact:
  assumes i: "ainv m a" and k: "woken k = {NON_WAITING}"
  defines "new \<equiv> hd (aready a @ [arunning a])"
  shows "\<exists>x y. athreads a (arunning a) = Some x \<and> athreads a new = Some y \<and>
    a_dispatch k a = a\<lparr>arunning := new, aready := tl (aready a @ [arunning a]), acpu := 0,
      athreads := (athreads a)(arunning a \<mapsto> x\<lparr>threadState := READY, saved_context := k\<rparr>,
        new \<mapsto> (if new = arunning a then x\<lparr>saved_context := k\<rparr> else y)\<lparr>threadState := RUNNING\<rparr>)\<rparr>"
proof -
  have l: "leaving m k a" by (rule leaving_dispatch [OF i k])
  from i obtain x where x: "athreads a (arunning a) = Some x" "readyToRun x" and st: "shape a" by (rule ainvE) auto
  have e: "a_dispatch k a = a_thread (arunning a) (saved_context_update (\<lambda>_. k))
      (a_enter (a_put (arunning a) (a_thread (arunning a) (threadState_update (\<lambda>_. READY)) (a\<lparr>acpu := 0\<rparr>))))"
    using x by (simp add: a_dispatch_eq [OF l] a_leave_def Let_def)
  have "set (aready a) \<subseteq> dom (athreads a)" using st by (simp add: shape_def lists_ok_def)
  then have "new \<in> dom (athreads a)" using x(1) unfolding new_def by (cases "aready a") auto
  then obtain y where y: "athreads a new = Some y" by blast
  have "a_enter b = b\<lparr>arunning := hd (aready b), aready := tl (aready b),
      athreads := (athreads b)(hd (aready b) := map_option (threadState_update (\<lambda>_. RUNNING)) (athreads b (hd (aready b))))\<rparr>" for b
    by (simp add: a_enter_def a_thread_def)
  then have "a_dispatch k a = a\<lparr>arunning := new, aready := tl (aready a @ [arunning a]), acpu := 0,
      athreads := (athreads a)(arunning a \<mapsto> x\<lparr>threadState := READY, saved_context := k\<rparr>,
        new \<mapsto> (if new = arunning a then x\<lparr>saved_context := k\<rparr> else y)\<lparr>threadState := RUNNING\<rparr>)\<rparr>"
    unfolding e using x(1) y
    by (cases "new = arunning a"; intro akernel.equality) (simp_all add: a_put_def a_thread_def new_def [symmetric] fun_eq_iff)
  then show ?thesis using x(1) y by blast
qed

text \<open>
  C15: A context switch of a running thread is one turn of a round robin: the thread becomes ready, goes to the end of the
  ready queue and keeps the point of the switch as its context, the first thread of the queue becomes running, the CPU time of the
  running thread starts again at 0, and nothing else of the kernel's state changes: no other field of the two threads and no
  other thread, no semaphore, not the list of sleeping threads, the time, the counters, the console or the user's memory. (\<open>abs\<close> forgets
  the allocator's heap and the addresses of list cells only.)
\<close>

theorem dispatch_round_robin:
  assumes "kernel_inv m s U (Suc f)" "k = In_dispatch_wrapper \<or> k = In_timer" "new = hd (ready s @ [running s])"
  shows "\<exists>s' x y. dispatch k s = Some s' \<and> threads s (running s) = Some x \<and> threads s new = Some y \<and>
    running s' = new \<and> ready s' = tl (ready s @ [running s]) \<and>
    threads s' = (threads s)(running s \<mapsto> x\<lparr>threadState := READY, saved_context := k\<rparr>,
      new \<mapsto> (if new = running s then x\<lparr>saved_context := k\<rparr> else y)\<lparr>threadState := RUNNING\<rparr>) \<and>
    abs s' = (abs s)\<lparr>arunning := running s', aready := ready s', athreads := threads s', acpu := 0\<rparr>"
proof -
  have i: "kmem s U (Suc f)" "ainv m (abs s)" using assms(1) by (simp_all add: kernel_inv_def)
  have w: "woken k = {NON_WAITING}" using assms(2) by auto
  obtain s' where s': "dispatch k s = Some s'" "abs s' = a_dispatch k (abs s)"
    using dispatch_ok [OF i(1) leaving_dispatchable [OF leaving_dispatch [OF i(2) w]]] by (auto simp: goes_def)
  from a_dispatch_exact [OF i(2) w] obtain x y where xy: "threads s (running s) = Some x" "threads s new = Some y"
    and e: "abs s' = (abs s)\<lparr>arunning := new, aready := tl (ready s @ [running s]), acpu := 0,
      athreads := (threads s)(running s \<mapsto> x\<lparr>threadState := READY, saved_context := k\<rparr>,
        new \<mapsto> (if new = running s then x\<lparr>saved_context := k\<rparr> else y)\<lparr>threadState := RUNNING\<rparr>)\<rparr>"
    unfolding s'(2) assms(3) abs_sel by blast
  have r: "running s' = new" "ready s' = tl (ready s @ [running s])"
    "threads s' = (threads s)(running s \<mapsto> x\<lparr>threadState := READY, saved_context := k\<rparr>,
      new \<mapsto> (if new = running s then x\<lparr>saved_context := k\<rparr> else y)\<lparr>threadState := RUNNING\<rparr>)"
    using arg_cong [OF e, of arunning] arg_cong [OF e, of aready] arg_cong [OF e, of athreads] by simp_all
  moreover have "abs s' = (abs s)\<lparr>arunning := running s', aready := ready s', athreads := threads s', acpu := 0\<rparr>"
    unfolding r by (simp add: e)
  ultimately show ?thesis using s'(1) xy by blast
qed

lemma dispatch_round_robin_witness:
  "\<exists>s'. dispatch In_timer ex4 = Some s' \<and> running s' = main_t \<and> ready s' = [user_t] \<and> runningThread_CPU_time s' = 0 \<and>
    (\<exists>x. threads s' user_t = Some x \<and> threadState x = READY \<and> saved_context x = In_timer)"
proof -
  obtain U where i: "kernel_inv main_t ex4 U (Suc 169)" using ex4(1) by auto
  have a: "running ex4 = user_t" "ready ex4 = [main_t]"
    using arg_cong [OF ex4(2), of arunning] arg_cong [OF ex4(2), of aready] by simp_all
  then have n: "main_t = hd (ready ex4 @ [running ex4])" by simp
  obtain s' x y where s': "dispatch In_timer ex4 = Some s'" "running s' = main_t" "ready s' = [user_t]"
    "threads s' = (threads ex4)(user_t \<mapsto> x\<lparr>threadState := READY, saved_context := In_timer\<rparr>, main_t \<mapsto> y\<lparr>threadState := RUNNING\<rparr>)"
    "abs s' = (abs ex4)\<lparr>arunning := running s', aready := ready s', athreads := threads s', acpu := 0\<rparr>"
    using dispatch_round_robin [OF i _ n, of In_timer] a by auto
  have "runningThread_CPU_time s' = 0" using arg_cong [OF s'(5), of acpu] by simp
  then show ?thesis using s'(1-4) by simp
qed

text \<open>The rest of a call changes neither the lists nor other threads.\<close>

definition same_lists :: "akernel \<Rightarrow> akernel \<Rightarrow> bool" where
  "same_lists a b \<longleftrightarrow> arunning b = arunning a \<and> aready b = aready a \<and> aasleep b = aasleep a \<and> atime b = atime a \<and>
     aumem b = aumem a \<and> (\<forall>p. a_queue b p = a_queue a p \<and> a_val b p = a_val a p) \<and> (\<forall>t. t \<noteq> arunning a \<longrightarrow> athreads b t = athreads a t) \<and>
     (\<forall>t. map_option numOfChildren (athreads b t) = map_option numOfChildren (athreads a t))"

lemma same_lists_refl: "same_lists a a"
  by (simp add: same_lists_def)

lemma same_lists_trans: "same_lists a b \<Longrightarrow> same_lists b c \<Longrightarrow> same_lists a c"
  by (simp add: same_lists_def)

lemma same_lists_steps:
  "(\<And>x. numOfChildren (f x) = numOfChildren x) \<Longrightarrow> r = arunning a \<Longrightarrow> same_lists a (a_thread r f a)" "same_lists a (a\<lparr>acon := c\<rparr>)" "same_lists a (a\<lparr>anumasleep := n\<rparr>)"
  "same_lists a (a_sem q (\<lambda>x. x\<lparr>atimed := atimed x - 1\<rparr>) a)"
proof -
  show "same_lists a (a_thread r f a)" if "\<And>x. numOfChildren (f x) = numOfChildren x" "r = arunning a"
    using that by (simp add: same_lists_def a_val_def option.map_comp comp_def)
  show "same_lists a (a\<lparr>acon := c\<rparr>)" "same_lists a (a\<lparr>anumasleep := n\<rparr>)" by (simp_all add: same_lists_def a_val_def a_queue_def)
  have "a_val (a_sem q (\<lambda>x. x\<lparr>atimed := atimed x - 1\<rparr>) a) p = a_val a p" for p by (cases "asems a p") (auto simp: a_val_def)
  then show "same_lists a (a_sem q (\<lambda>x. x\<lparr>atimed := atimed x - 1\<rparr>) a)" by (simp add: same_lists_def a_queue_sem_same del: a_queue_sem)
qed

lemma same_lists_answer: "same_lists a (snd (a_answer a))"
  by (simp add: a_answer_def a_status_def same_lists_steps)

lemma same_lists_wait_resume: "same_lists a (snd (a_wait_resume a))"
  unfolding a_wait_resume_def by (rule same_lists_trans [OF same_lists_steps(1) same_lists_answer]) simp_all

lemma same_lists_timedWait_resume: "same_lists a (snd (a_timedWait_resume p a))"
  unfolding a_timedWait_resume_def Let_def
  by (rule same_lists_trans [OF same_lists_trans [OF same_lists_trans [OF same_lists_steps(1) same_lists_steps(4)] same_lists_steps(1)] same_lists_answer])
    simp_all

lemma same_lists_resume: "same_lists a (snd (a_resume a))"
proof -
  have "same_lists a (snd (a_read_get (snd (a_wait_resume a))))"
    unfolding a_read_get_def case_prod_unfold Let_def snd_conv by (rule same_lists_trans [OF same_lists_wait_resume same_lists_steps(2)])
  moreover have "same_lists a (a_sleep_wakeup a)"
    unfolding a_sleep_wakeup_def Let_def by (rule same_lists_trans [OF same_lists_steps(1) same_lists_steps(3)]) simp_all
  ultimately show ?thesis
    by (cases "saved_context (the (athreads a (arunning a)))")
      (simp_all add: a_resume_def case_prod_unfold Let_def same_lists_refl same_lists_wait_resume same_lists_timedWait_resume)
qed

lemma a_resume_sel [simp]:
  "arunning (snd (a_resume a)) = arunning a" "aready (snd (a_resume a)) = aready a" "aasleep (snd (a_resume a)) = aasleep a"
  "t \<noteq> arunning a \<Longrightarrow> athreads (snd (a_resume a)) t = athreads a t" "a_queue (snd (a_resume a)) p = a_queue a p"
  "a_val (snd (a_resume a)) p = a_val a p" "atime (snd (a_resume a)) = atime a"
  using same_lists_resume [of a] by (simp_all add: same_lists_def)

primrec yield_times :: "nat \<Rightarrow> kernel \<Rightarrow> kernel option" where
  "yield_times 0 s = Some s"
| "yield_times (Suc n) s = do { (r, s) \<leftarrow> syscall 0x13 0 0 0 0 s; yield_times n s }"

lemma yield_one:
  assumes "kernel_inv m s U (Suc f)"
  obtains r s' where "syscall 0x13 0 0 0 0 s = Some (r, s')" "kernel_inv m s' U (Suc f)" "running s' = hd (ready s @ [running s])"
    "ready s' = tl (ready s @ [running s])" "abs s' = snd (a_resume (a_dispatch In_dispatch_wrapper (abs s)))"
proof -
  have i: "ainv m (abs s)" using assms by (simp add: kernel_inv_def)
  obtain s' where s': "syscall 0x13 0 0 0 0 s = Some (fst (a_resume (a_dispatch In_dispatch_wrapper (abs s))), s')" "kernel_inv m s' U (Suc f)"
    "abs s' = snd (a_resume (a_dispatch In_dispatch_wrapper (abs s)))" by (rule runsE [OF syscall_dispatch [OF assms]])
  have "running s' = hd (ready s @ [running s])" "ready s' = tl (ready s @ [running s])"
    using a_dispatch_ready(1,2) [OF i, of In_dispatch_wrapper] arg_cong [OF s'(3), of arunning] arg_cong [OF s'(3), of aready] by simp_all
  with that s' show ?thesis by blast
qed

text \<open>
  C16: No ready thread starves: if the threads that run call \<open>thread_dispatch\<close>, the thread at place \<open>i\<close> of
  the ready queue runs after \<open>i + 1\<close> calls.
\<close>

theorem ready_thread_runs:
  assumes "kernel_inv m s U (Suc f)" "i < length (ready s)"
  shows "\<exists>s'. yield_times (Suc i) s = Some s' \<and> running s' = ready s ! i"
  using assms
proof (induction i arbitrary: s)
  case 0
  obtain r s' where s': "syscall 0x13 0 0 0 0 s = Some (r, s')" "running s' = hd (ready s @ [running s])" by (rule yield_one [OF 0(1)])
  have "ready s \<noteq> []" using 0(2) by auto
  then show ?case using s' by (simp add: hd_conv_nth hd_append del: map_is_Nil_conv)
next
  case (Suc i)
  obtain r s' where s': "syscall 0x13 0 0 0 0 s = Some (r, s')" "kernel_inv m s' U (Suc f)" "ready s' = tl (ready s @ [running s])"
    by (rule yield_one [OF Suc.prems(1)])
  have n: "ready s' ! i = ready s ! Suc i" "i < length (ready s')"
    using Suc.prems(2) unfolding s'(3) by (simp_all add: nth_tl nth_append)
  obtain s2 where "yield_times (Suc i) s' = Some s2" "running s2 = ready s' ! i" using Suc.IH [OF s'(2) n(2)] by blast
  then show ?case using s'(1) n(1) by simp
qed

lemma ready_thread_runs_witness: "\<exists>s'. yield_times 1 ex4 = Some s' \<and> running s' = main_t"
proof -
  obtain U where "kernel_inv main_t ex4 U (Suc 169)" using ex4(1) by auto
  moreover have "ready ex4 = [main_t]" using arg_cong [OF ex4(2), of aready] by simp
  ultimately show ?thesis using ready_thread_runs [of main_t ex4 U 169 0] by auto
qed

subsection \<open>Creation and exit\<close>

lemma thread_created:
  assumes "kernel_inv m s U (f + 3)" "handle \<noteq> 0" "bdy \<noteq> 0" "kmalloc 2 (kheap s) = Some (p, hp)" "p \<noteq> 0"
    "U (stk - 4096) = Some 65" "stk \<noteq> 0"
  shows "\<exists>s' x y. syscall 0x11 handle bdy ar stk s = Some (Some 0, s') \<and> umem s' = (umem s)(handle := p) \<and> threads s p = None \<and>
    (\<forall>t. t \<noteq> p \<longrightarrow> t \<noteq> running s \<longrightarrow> threads s' t = threads s t) \<and>
    ready s' = ready s @ [p] \<and> running s' = running s \<and>
    threads s (running s) = Some y \<and> threads s' (running s) = Some (y\<lparr>numOfChildren := numOfChildren y + 1\<rparr>) \<and>
    threads s' p = Some x \<and> body x = bdy \<and> arg x = ar \<and> stack x = stk - 4096 \<and> myID x = ID s + 1 \<and> ID s' = ID s + 1 \<and>
    parentThread x = running s \<and> threadState x = READY \<and> saved_context x = In_threadWrapper \<and>
    kernel_inv m s' (U(stk - 4096 := None)) f"
proof -
  obtain y where y: "threads s (running s) = Some y" "kmem s U (f + 3)" by (rule kernel_invD [OF assms(1)])
  then have r0: "running s \<noteq> 0" using kmem_null(1) by fastforce
  note c = syscall_thread_create [OF assms]
  have pr: "p \<noteq> running s" using c(2) y(1) by auto
  obtain s' where s': "syscall 0x11 handle bdy ar stk s = Some (Some 0, s')"
    "abs s' = (a_create p bdy ar (stk - 4096) (abs s))\<lparr>aumem := (umem s)(handle := p)\<rparr>"
    "kernel_inv m s' (U(stk - 4096 := None)) f" by (rule runsE [OF c(1)]) auto
  have "umem s' = (umem s)(handle := p)" "ready s' = ready s @ [p]" "running s' = running s" "ID s' = ID s + 1"
    using arg_cong [OF s'(2), of aumem] arg_cong [OF s'(2), of aready] arg_cong [OF s'(2), of arunning] arg_cong [OF s'(2), of aID] assms(3) r0
    by (simp_all add: a_create_def Let_def a_put_def a_thread_def)
  moreover have "threads s' (running s) = Some (y\<lparr>numOfChildren := numOfChildren y + 1\<rparr>)"
    using arg_cong [OF s'(2), of "\<lambda>a. athreads a (running s)"] y(1) r0 pr assms(3)
    by (simp add: a_create_def Let_def a_put_def a_thread_def)
  moreover have "\<exists>x. threads s' p = Some x \<and> body x = bdy \<and> arg x = ar \<and> stack x = stk - 4096 \<and> myID x = ID s + 1 \<and>
    parentThread x = running s \<and> threadState x = READY \<and> saved_context x = In_threadWrapper"
    using arg_cong [OF s'(2), of "\<lambda>a. athreads a p"] r0 pr assms(3)
    by (simp add: a_create_def Let_def a_put_def a_thread_def)
  moreover have "\<forall>t. t \<noteq> p \<longrightarrow> t \<noteq> running s \<longrightarrow> threads s' t = threads s t"
    using arg_cong [OF s'(2), of athreads] r0 assms(3) by (simp add: a_create_def Let_def a_put_def a_thread_def)
  ultimately show ?thesis using s'(1,3) c(2) y(1) by blast
qed

text \<open>
  C26: \<open>thread_create\<close> with memory for it returns 0, stores the handle of a new thread, which has the next
  number, the calling thread as parent and the given body, argument and stack, and puts it at the end of
  the ready queue; the caller goes on running and counts one child more.
\<close>

theorem thread_create_spec:
  assumes "kernel_inv m s U (f + 3)" "handle \<noteq> 0" "bdy \<noteq> 0" "kmalloc 2 (kheap s) = Some (p, hp)" "p \<noteq> 0"
    "U (stk - 4096) = Some 65" "stk \<noteq> 0"
  shows "\<exists>s' x y. syscall 0x11 handle bdy ar stk s = Some (Some 0, s') \<and> umem s' handle = p \<and> threads s p = None \<and>
    ready s' = ready s @ [p] \<and> running s' = running s \<and>
    threads s (running s) = Some y \<and> threads s' (running s) = Some (y\<lparr>numOfChildren := numOfChildren y + 1\<rparr>) \<and>
    threads s' p = Some x \<and> body x = bdy \<and> arg x = ar \<and> stack x = stk - 4096 \<and> myID x = ID s + 1 \<and> ID s' = ID s + 1 \<and>
    parentThread x = running s \<and> threadState x = READY \<and> saved_context x = In_threadWrapper"
  using thread_created [OF assms, of ar] by (metis fun_upd_same)

definition ex_stack :: kernel where "ex_stack = snd (the (syscall 0x01 65 0 0 0 ex1))"

lemma ex_stack: "\<exists>U. kernel_inv main_t ex_stack U 100 \<and> U user_t = Some 65" "kheap ex_stack = after 65 ex_h1"
proof -
  have m: "kmalloc 65 (kheap ex1) = Some (user_t, after 65 ex_h1)" unfolding ex1(2) by (rule ex_malloc [OF ex_heaps(1)]) simp_all
  have c: "syscall 0x01 65 0 0 0 ex1 = Some (Some user_t, ex1\<lparr>kheap := after 65 ex_h1\<rparr>)"
    using m by (simp add: syscall_def ecall_handler_def mem_alloc_wrapper_def)
  then show "kheap ex_stack = after 65 ex_h1" by (simp add: ex_stack_def)
  obtain U where "kernel_inv main_t ex1 U 200" using ex1(1) by auto
  then show "\<exists>U. kernel_inv main_t ex_stack U 100 \<and> U user_t = Some 65"
  proof (rule syscall_mem_alloc [of main_t ex1 U 200 65 0 0 0])
    fix p assume "p = 0" "runs main_t (syscall 0x01 65 0 0 0 ex1) U 200 (Some 0, abs ex1)"
    then show ?thesis using c by (auto simp: runs_def returns_def)
  next
    fix p assume p: "runs main_t (syscall 0x01 65 0 0 0 ex1) (U(p \<mapsto> unat (65 :: u64))) (200 - unat (65 :: u64)) (Some p, abs ex1)"
    then have "p = user_t" using c by (auto simp: runs_def returns_def)
    moreover have "kernel_inv main_t ex_stack (U(p \<mapsto> 65)) 135" using runs_next [OF p] by (simp add: ex_stack_def)
    ultimately show ?thesis using kernel_inv_mono [of main_t ex_stack "U(p \<mapsto> 65)" 135 100] by auto
  qed simp
qed

lemma thread_create_spec_witness:
  "\<exists>s' x. syscall 0x11 8 0x80000400 7 (user_t + 4096) ex_stack = Some (Some 0, s') \<and> umem s' 8 = 0x800110d0 \<and>
    threads s' 0x800110d0 = Some x \<and> arg x = 7"
proof -
  obtain U where U: "kernel_inv main_t ex_stack U (97 + 3)" "U user_t = Some 65" using ex_stack(1) by auto
  have "one_free (after 65 ex_h1) 67" by (rule one_free_after(2) [OF ex_heaps(1)]) simp_all
  then have m: "kmalloc 2 (kheap ex_stack) = Some (0x800110d0, after 2 (after 65 ex_h1))"
    unfolding ex_stack(2) by (rule ex_malloc) simp_all
  show ?thesis using thread_create_spec [OF U(1) _ _ m, of 8 "0x80000400" "user_t + 4096" 7] U(2) by auto
qed

lemma thread_exits:
  assumes "kernel_inv m s U (Suc f)" "m \<noteq> running s" "threads s (running s) = Some x"
    "parentThread x \<noteq> 0" "threads s (parentThread x) = Some y" "parentThread x \<noteq> running s"
  shows "\<exists>r s' z. syscall 0x12 a1 a2 a3 a4 s = Some (r, s') \<and> threads s' (running s) = None \<and>
    running s' = hd (ready s) \<and> ready s' = tl (ready s) \<and>
    threads s' (parentThread x) = Some z \<and> numOfChildren z = numOfChildren y - 1 \<and> umem s' = umem s"
proof -
  have i: "ainv m (abs s)" using assms(1) by (simp add: kernel_inv_def)
  have mr: "m \<noteq> arunning (abs s)" using assms(2) by simp
  have l: "leaving m In_exit_wrapper (a_finish (abs s))" by (rule leaving_exit [OF i mr]) (simp add: returnable_def)
  let ?q = "parentThread x"
  let ?g = "\<lambda>x. x\<lparr>numOfChildren := numOfChildren x - 1\<rparr>"
  have fin: "a_finish (abs s) = a_thread (running s) (threadState_update (\<lambda>_. FINISHED)) (a_thread ?q ?g (abs s))"
    using assms(3,4) by (simp add: a_finish_def Let_def)
  have lv: "a_leave (a_finish (abs s)) = (a_finish (abs s))\<lparr>acpu := 0, athreads := (athreads (a_finish (abs s)))(running s := None)\<rparr>"
    using assms(3,6) unfolding fin by (simp add: a_leave_def Let_def readyToRun_def)
  have ex: "a_exit (abs s) = a_thread (running s) (saved_context_update (\<lambda>_. In_exit_wrapper)) (a_enter (a_leave (a_finish (abs s))))"
    unfolding a_exit_def a_dispatch_eq [OF l] by (simp add: fin)
  have ne: "hd (ready s) \<noteq> running s"
  proof -
    have "m \<in> set (ready s)" "running s \<notin> set (ready s)" using i assms(2) by (auto simp: ainv_def stands_def)
    then show ?thesis by (cases "ready s") auto
  qed
  have e: "arunning (a_exit (abs s)) = hd (ready s)" "aready (a_exit (abs s)) = tl (ready s)" "athreads (a_exit (abs s)) (running s) = None"
    "map_option numOfChildren (athreads (a_exit (abs s)) ?q) = Some (numOfChildren y - 1)" "aumem (a_exit (abs s)) = umem s"
    unfolding ex lv using assms(3,5,6) ne by (simp_all add: a_enter_def fin) (cases "?q = hd (ready s)"; auto)
  obtain s' where s': "syscall 0x12 a1 a2 a3 a4 s = Some (fst (a_resume (a_exit (abs s))), s')" "abs s' = snd (a_resume (a_exit (abs s)))"
    by (rule runsE [OF syscall_exit [OF assms(1,2)]]) (use assms(3,5) in auto)
  have sl: "same_lists (a_exit (abs s)) (abs s')" unfolding s'(2) by (rule same_lists_resume)
  have "running s' = hd (ready s)" "ready s' = tl (ready s)" "threads s' (running s) = None"
    "map_option numOfChildren (threads s' ?q) = Some (numOfChildren y - 1)" "umem s' = umem s"
    using sl e ne by (simp_all add: same_lists_def)
  then show ?thesis using s'(1) by auto
qed

text \<open>
  C27: \<open>thread_exit\<close> ends the running thread: its object is gone from the map of live threads, its parent
  counts one child less, and the first thread of the ready queue runs.
\<close>

theorem thread_exit_spec:
  assumes "kernel_inv m s U (Suc f)" "m \<noteq> running s" "threads s (running s) = Some x"
    "parentThread x \<noteq> 0" "threads s (parentThread x) = Some y" "parentThread x \<noteq> running s"
  shows "\<exists>r s' z. syscall 0x12 a1 a2 a3 a4 s = Some (r, s') \<and> threads s' (running s) = None \<and>
    running s' = hd (ready s) \<and> ready s' = tl (ready s) \<and>
    threads s' (parentThread x) = Some z \<and> numOfChildren z = numOfChildren y - 1"
  using thread_exits [OF assms, of a1 a2 a3 a4] by blast

lemma thread_exit_spec_witness:
  "\<exists>r s' z. syscall 0x12 0 0 0 0 ex4 = Some (r, s') \<and> threads s' user_t = None \<and> running s' = main_t \<and>
    threads s' main_t = Some z \<and> numOfChildren z = 0"
proof -
  obtain U where i: "kernel_inv main_t ex4 U (Suc 169)" using ex4(1) by auto
  have a: "arunning (abs ex4) = user_t" "aready (abs ex4) = [main_t]" "athreads (abs ex4) user_t = Some (ex_user\<lparr>threadState := RUNNING\<rparr>)"
    "athreads (abs ex4) main_t = Some (ex_main\<lparr>numOfChildren := 1, threadState := READY, saved_context := In_dispatch_wrapper\<rparr>)"
    unfolding ex4(2) by simp_all
  have b: "parentThread (ex_user\<lparr>threadState := RUNNING\<rparr>) = main_t" by (simp add: ex_user_def)
  show ?thesis
    using thread_exit_spec [OF i, of "ex_user\<lparr>threadState := RUNNING\<rparr>" _ 0 0 0 0] a unfolding b by auto
qed

end
