(* ===== verification/SemaphoreProps.thy ===== *)
theory SemaphoreProps
  imports SchedulerProps
begin

text \<open>
  What the semaphore calls do, stated on the kernel's state: who runs, who waits and in which order, and
  which answer a thread gets.
\<close>

abbreviation waiters :: "kernel \<Rightarrow> u64 \<Rightarrow> u64 list" where "waiters s p \<equiv> a_queue (abs s) p"
abbreviation sem_val :: "kernel \<Rightarrow> u64 \<Rightarrow> int" where "sem_val s p \<equiv> a_val (abs s) p"

lemma a_dispatch_blocked:
  assumes l: "leaving m k a" and x: "athreads a (arunning a) = Some x" "threadState x = SUSPENDED"
  shows "arunning (a_dispatch k a) = hd (aready a)" "aready (a_dispatch k a) = tl (aready a)" "aasleep (a_dispatch k a) = aasleep a"
    "asems (a_dispatch k a) = asems a" "athreads (a_dispatch k a) (arunning a) = Some (x\<lparr>saved_context := k\<rparr>)" "hd (aready a) \<noteq> arunning a"
proof -
  have nr: "arunning a \<notin> set (aready a)" "m \<in> set (aready a)"
    using l x by (auto simp: leaving_def readyToRun_def stands_def)
  then show hd: "hd (aready a) \<noteq> arunning a" by (cases "aready a") auto
  have e: "a_dispatch k a = a_thread (arunning a) (saved_context_update (\<lambda>_. k)) (a_enter (a\<lparr>acpu := 0\<rparr>))"
    unfolding a_dispatch_eq [OF l] using x by (simp add: a_leave_def Let_def readyToRun_def)
  show "arunning (a_dispatch k a) = hd (aready a)" "aready (a_dispatch k a) = tl (aready a)" "aasleep (a_dispatch k a) = aasleep a"
    "asems (a_dispatch k a) = asems a" "athreads (a_dispatch k a) (arunning a) = Some (x\<lparr>saved_context := k\<rparr>)"
    unfolding e using x hd by (simp_all add: a_enter_def)
qed

lemma a_queue_cong: "asems b = asems a \<Longrightarrow> a_queue b p = a_queue a p" and a_val_cong: "asems b = asems a \<Longrightarrow> a_val b p = a_val a p"
  by (simp_all add: a_queue_def a_val_def)

lemma dec_facts:
  assumes "kernel_inv m s U f" "sems s p \<noteq> None"
  shows "sem_val s p - 1 = a_val (a_dec p (abs s)) p" "a_queue (a_dec p (abs s)) q = waiters s q"
proof -
  obtain x where x: "sems s p = Some x" using assms(2) by auto
  show "sem_val s p - 1 = a_val (a_dec p (abs s)) p" using val_bound [OF assms] x sint_dec [of "val x"] by (simp add: a_val_def a_dec_def)
  show "a_queue (a_dec p (abs s)) q = waiters s q" unfolding a_dec_def by (rule a_queue_sem_same) simp
qed

lemma sem_wait_call:
  assumes "kernel_inv m s U (Suc (Suc f))" "m \<noteq> running s" "sems s p \<noteq> None"
  shows "\<exists>r s'. syscall 0x23 p a2 a3 a4 s = Some (r, s') \<and> sem_val s' p = sem_val s p - 1 \<and>
    (if 0 < sem_val s p
     then r = Some 1 \<and> waiters s' p = waiters s p \<and> running s' = running s \<and> ready s' = ready s
     else waiters s' p = waiters s p @ [running s] \<and> running s' = hd (ready s) \<and> ready s' = tl (ready s) \<and>
       (\<exists>y. threads s' (running s) = Some y \<and> threadState y = SUSPENDED \<and> semStatus y = WAITING \<and> mySem y = p \<and>
          saved_context y = In_wait p))"
proof -
  obtain x where k: "ainv m (abs s)" "threads s (running s) = Some x" by (rule kernel_invD [OF assms(1)])
  have pa: "asems (abs s) p \<noteq> None" using assms(3) by simp
  note d = dec_facts [OF assms(1,3)]
  obtain s' where s': "syscall 0x23 p a2 a3 a4 s = Some (fst (a_continue (a_wait In_wait p (abs s))), s')"
    "abs s' = snd (a_continue (a_wait In_wait p (abs s)))"
    by (rule runsE [OF syscall_sem_wait [OF assms(1,3)]]) (use assms(2) in auto)
  show ?thesis
  proof (cases "0 < sem_val s p")
    case True
    then have w: "a_wait In_wait p (abs s) = (Some 1, a_dec p (abs s))" using d by (simp add: a_wait_def SEM_DIDNTWAIT_def)
    have e: "abs s' = a_dec p (abs s)" using s'(2) by (simp add: w)
    have "running s' = running s" "ready s' = ready s"
      using arg_cong [OF e, of arunning] arg_cong [OF e, of aready] by (simp_all add: a_dec_def)
    moreover have "waiters s' p = waiters s p" "sem_val s' p = sem_val s p - 1" unfolding e using d by simp_all
    ultimately show ?thesis using s'(1) True by (simp add: w)
  next
    case False
    let ?b = "a_block p (a_dec p (abs s))"
    have w: "a_wait In_wait p (abs s) = (None, a_dispatch (In_wait p) ?b)" using d False by (simp add: a_wait_def)
    have l: "leaving m (In_wait p) ?b"
      by (rule leaving_block [OF k(1) _ _ pa]) (use assms(2) False val_bound [OF assms(1,3)] in auto)
    let ?y = "x\<lparr>semStatus := WAITING, threadState := SUSPENDED, mySem := p\<rparr>"
    have b: "arunning ?b = running s" "aready ?b = ready s" "athreads ?b (running s) = Some ?y" "a_val ?b p = sem_val s p - 1"
      "a_queue ?b p = waiters s p @ [running s]"
      using k(2) assms(3) d pa by (auto simp: a_block_def a_status_def a_dec_def Let_def a_val_def a_queue_def)
    have bl: "arunning (a_dispatch (In_wait p) ?b) = hd (ready s)" "aready (a_dispatch (In_wait p) ?b) = tl (ready s)"
      "asems (a_dispatch (In_wait p) ?b) = asems ?b" "athreads (a_dispatch (In_wait p) ?b) (running s) = Some (?y\<lparr>saved_context := In_wait p\<rparr>)"
      "hd (ready s) \<noteq> running s"
      using a_dispatch_blocked [OF l, of ?y] b by simp_all
    have sl: "same_lists (a_dispatch (In_wait p) ?b) (abs s')" unfolding s'(2) w by (simp add: same_lists_resume)
    have "running s' = hd (ready s)" "ready s' = tl (ready s)" "waiters s' p = waiters s p @ [running s]" "sem_val s' p = sem_val s p - 1"
      "threads s' (running s) = Some (?y\<lparr>saved_context := In_wait p\<rparr>)"
      using sl bl b(4,5) a_queue_cong [OF bl(3), of p] a_val_cong [OF bl(3), of p] by (simp_all add: same_lists_def)
    then show ?thesis using s'(1) False by simp
  qed
qed

text \<open>
  C11: \<open>sem_wait\<close> decrements the value. If it was positive the call returns 1 at once and the caller goes on.
  Otherwise the caller is suspended at the end of the semaphore's queue and the first ready thread runs.
\<close>

theorem sem_wait_spec:
  assumes "kernel_inv m s U (Suc (Suc f))" "m \<noteq> running s" "sems s p \<noteq> None"
  shows "\<exists>r s'. syscall 0x23 p a2 a3 a4 s = Some (r, s') \<and> sem_val s' p = sem_val s p - 1 \<and>
    (if 0 < sem_val s p
     then r = Some 1 \<and> waiters s' p = waiters s p \<and> running s' = running s \<and> ready s' = ready s
     else waiters s' p = waiters s p @ [running s] \<and> running s' = hd (ready s) \<and> ready s' = tl (ready s) \<and>
       (\<exists>y. threads s' (running s) = Some y \<and> threadState y = SUSPENDED \<and> semStatus y = WAITING \<and> mySem y = p \<and>
          saved_context y = In_wait p))"
  by (rule sem_wait_call [OF assms])

lemma sem_wait_spec_witness:
  "\<exists>r s'. syscall 0x23 ex_sem 0 0 0 ex4 = Some (r, s') \<and> waiters s' ex_sem = [user_t] \<and> running s' = main_t"
proof -
  obtain U where i: "kernel_inv main_t ex4 U (Suc (Suc 168))" using ex4(1) by auto
  have a: "arunning (abs ex4) = user_t" "aready (abs ex4) = [main_t]" "asems (abs ex4) ex_sem = Some \<lparr>aval = 0, awaiters = [], atimed = 0\<rparr>"
    unfolding ex4(2) ex3_abs by simp_all
  then have v: "sem_val ex4 ex_sem = 0" "waiters ex4 ex_sem = []" by (simp_all only: a_val_def a_queue_def) simp_all
  show ?thesis using sem_wait_spec [OF i, of ex_sem 0 0 0] a v by auto
qed


lemma insort_key_cong:
  "(\<And>x. x \<in> insert t (set xs) \<Longrightarrow> f x = (g x :: u64)) \<Longrightarrow> insort_key f t xs = insort_key g t xs"
  by (induction xs) auto

lemma timedBlock_facts:
  fixes d :: u64
  assumes i: "kernel_inv m s U f" and m: "m \<noteq> running s" "sems s p \<noteq> None" "sem_val s p \<le> 0" and x: "threads s (running s) = Some x"
  defines "b \<equiv> a_timedBlock p d (a_dec p (abs s))" and "y \<equiv> x\<lparr>semStatus := TIMEDWAITING, threadState := SUSPENDED, timeForWakingUp := d + SYS_TIME s, mySem := p\<rparr>"
    and "key \<equiv> \<lambda>t. if t = running s then d + SYS_TIME s else timeForWakingUp (the (threads s t))"
  shows "leaving m (In_timedWait p) b" "a_val b p = sem_val s p - 1" "a_queue b p = waiters s p @ [running s]"
    "athreads b (running s) = Some y" "arunning b = running s" "aready b = ready s"
    "aasleep b = insort_key key (running s) (asleep s)"
proof -
  have k: "ainv m (abs s)" "set (aasleep (abs s)) \<subseteq> dom (athreads (abs s))" by (rule kernel_invD [OF i]; simp add: kernel_inv_def)+
  have pa: "asems (abs s) p \<noteq> None" using m(2) by simp
  note d = dec_facts [OF i m(2)]
  show "leaving m (In_timedWait p) b"
    unfolding b_def by (rule leaving_timedBlock [OF k(1) _ pa]) (use m(1,3) val_bound [OF i m(2)] in auto)
  show "a_val b p = sem_val s p - 1" "a_queue b p = waiters s p @ [running s]" "athreads b (running s) = Some y" "arunning b = running s" "aready b = ready s"
    using x m(2) d pa by (auto simp: b_def y_def a_timedBlock_def a_status_def a_dec_def Let_def a_val_def a_queue_def)
  let ?c = "a_sem p (\<lambda>x. x\<lparr>awaiters := awaiters x @ [running s]\<rparr>) (a_thread (running s) (timeForWakingUp_update (\<lambda>_. d + SYS_TIME s))
     (a_status (running s) TIMEDWAITING (a_dec p (abs s))))"
  have "aasleep b = insort_key (a_wake_time ?c) (running s) (asleep s)"
    by (simp add: b_def a_timedBlock_def a_dec_def Let_def)
  also have "\<dots> = insort_key key (running s) (asleep s)"
  proof (rule insort_key_cong)
    fix t assume "t \<in> insert (running s) (set (asleep s))"
    then have "t \<in> dom (threads s)" using x k(2) by auto
    then show "a_wake_time ?c t = key t" using x by (auto simp: key_def a_wake_time_def a_status_def a_dec_def)
  qed
  finally show "aasleep b = insort_key key (running s) (asleep s)" .
qed

lemma sem_timedwait_call:
  assumes "kernel_inv m s U (Suc (Suc (Suc f)))" "m \<noteq> running s" "sems s p \<noteq> None"
  shows "\<exists>r s'. syscall 0x25 p d a3 a4 s = Some (r, s') \<and> sem_val s' p = sem_val s p - 1 \<and>
    (if 0 < sem_val s p
     then r = Some 1 \<and> waiters s' p = waiters s p \<and> running s' = running s \<and> ready s' = ready s
     else waiters s' p = waiters s p @ [running s] \<and> running s' = hd (ready s) \<and> ready s' = tl (ready s) \<and>
       asleep s' = insort_key (\<lambda>t. if t = running s then d + SYS_TIME s else timeForWakingUp (the (threads s t))) (running s) (asleep s) \<and>
       (\<exists>y. threads s' (running s) = Some y \<and> threadState y = SUSPENDED \<and> semStatus y = TIMEDWAITING \<and> mySem y = p \<and>
          timeForWakingUp y = d + SYS_TIME s \<and> saved_context y = In_timedWait p))"
proof -
  obtain x where x: "threads s (running s) = Some x" by (rule kernel_invD [OF assms(1)])
  note d = dec_facts [OF assms(1,3)]
  obtain s' where s': "syscall 0x25 p d a3 a4 s = Some (fst (a_continue (a_timedWait p d (abs s))), s')"
    "abs s' = snd (a_continue (a_timedWait p d (abs s)))"
    by (rule runsE [OF syscall_sem_timedwait [OF assms(1,3)]]) (use assms(2) in auto)
  show ?thesis
  proof (cases "0 < sem_val s p")
    case True
    then have w: "a_timedWait p d (abs s) = (Some 1, a_dec p (abs s))" using d by (simp add: a_timedWait_def SEM_DIDNTWAIT_def)
    have e: "abs s' = a_dec p (abs s)" using s'(2) by (simp add: w)
    have "running s' = running s" "ready s' = ready s"
      using arg_cong [OF e, of arunning] arg_cong [OF e, of aready] by (simp_all add: a_dec_def)
    moreover have "waiters s' p = waiters s p" "sem_val s' p = sem_val s p - 1" unfolding e using d by simp_all
    ultimately show ?thesis using s'(1) True by (simp add: w)
  next
    case False
    then have le: "sem_val s p \<le> 0" by simp
    let ?b = "a_timedBlock p d (a_dec p (abs s))"
    have w: "a_timedWait p d (abs s) = (None, a_dispatch (In_timedWait p) ?b)" using d False by (simp add: a_timedWait_def)
    note b = timedBlock_facts [OF assms(1,2,3) le x, of d]
    note bl = a_dispatch_blocked [OF b(1), of "x\<lparr>semStatus := TIMEDWAITING, threadState := SUSPENDED, timeForWakingUp := d + SYS_TIME s, mySem := p\<rparr>"]
    have bs: "asems (a_dispatch (In_timedWait p) ?b) = asems ?b" using bl b(4-6) by simp
    have sl: "same_lists (a_dispatch (In_timedWait p) ?b) (abs s')" unfolding s'(2) w by (simp add: same_lists_resume)
    show ?thesis
      using s'(1) False sl bl b(2-7) a_queue_cong [OF bs, of p] a_val_cong [OF bs, of p] by (simp add: same_lists_def)
  qed
qed

text \<open>
  C23: \<open>sem_timedwait\<close> on a semaphore without a unit suspends the caller at the end of the semaphore's queue and
  at its place, by waking time \<open>SYS_TIME + timeout\<close>, in the list of sleeping threads; otherwise it is
  \<open>sem_wait\<close>.
\<close>

theorem sem_timedwait_spec:
  assumes "kernel_inv m s U (Suc (Suc (Suc f)))" "m \<noteq> running s" "sems s p \<noteq> None"
  shows "\<exists>r s'. syscall 0x25 p d a3 a4 s = Some (r, s') \<and> sem_val s' p = sem_val s p - 1 \<and>
    (if 0 < sem_val s p
     then r = Some 1 \<and> waiters s' p = waiters s p \<and> running s' = running s \<and> ready s' = ready s
     else waiters s' p = waiters s p @ [running s] \<and> running s' = hd (ready s) \<and> ready s' = tl (ready s) \<and>
       asleep s' = insort_key (\<lambda>t. if t = running s then d + SYS_TIME s else timeForWakingUp (the (threads s t))) (running s) (asleep s) \<and>
       (\<exists>y. threads s' (running s) = Some y \<and> threadState y = SUSPENDED \<and> semStatus y = TIMEDWAITING \<and> mySem y = p \<and>
          timeForWakingUp y = d + SYS_TIME s \<and> saved_context y = In_timedWait p))"
  by (rule sem_timedwait_call [OF assms])

lemma sem_timedwait_spec_witness:
  "\<exists>r s'. syscall 0x25 ex_sem 7 0 0 ex4 = Some (r, s') \<and> waiters s' ex_sem = [user_t] \<and> asleep s' = [user_t] \<and> running s' = main_t"
proof -
  obtain U where i: "kernel_inv main_t ex4 U (Suc (Suc (Suc 167)))" using ex4(1) by auto
  have a: "arunning (abs ex4) = user_t" "aready (abs ex4) = [main_t]" "aasleep (abs ex4) = []"
    "asems (abs ex4) ex_sem = Some \<lparr>aval = 0, awaiters = [], atimed = 0\<rparr>"
    unfolding ex4(2) ex3_abs by simp_all
  then have v: "sem_val ex4 ex_sem = 0" "waiters ex4 ex_sem = []" by (simp_all only: a_val_def a_queue_def) simp_all
  show ?thesis using sem_timedwait_spec [OF i, of ex_sem 7 0 0] a v by auto
qed

subsection \<open>Signals\<close>

text \<open>What \<open>unblock\<close> does to the first waiting thread.\<close>

lemma unblock_first:
  assumes i: "ainv m (abs s)" and w: "waiters s p = t # ts" and q: "a_queue (a_inc p (abs s)) p = waiters s p"
  obtains x where "arunning (a_unblock c p (a_inc p (abs s))) = running s" "aready (a_unblock c p (a_inc p (abs s))) = ready s @ [t]"
    "aasleep (a_unblock c p (a_inc p (abs s))) = remove1 t (asleep s)"
    "athreads (a_unblock c p (a_inc p (abs s))) t =
       Some (x\<lparr>mySem := 0, semStatus := c, threadState := (if c = WAITING \<or> c = TIMEDWAITING then SUSPENDED else READY)\<rparr>)"
proof -
  let ?b = "a_unblock c p (a_inc p (abs s))"
  have "t \<in> set (a_queue (abs s) p)" using w by simp
  from parked_queued [OF i this] obtain x pl where x: "parked (abs s) t pl" "pl = In_queue p \<or> pl = In_both p" "athreads (abs s) t = Some x"
    "t \<noteq> arunning (abs s)" "semStatus x = (if pl = In_both p then TIMEDWAITING else WAITING)" by metis
  have st: "stands (abs s) t pl" using x(1) by (auto simp: parked_def)
  have hd: "hd (a_queue (a_inc p (abs s)) p) = t" using q w by simp
  have b: "arunning ?b = running s" "aready ?b = ready s @ [t]" "aasleep ?b = (if semStatus x = TIMEDWAITING then remove1 t (asleep s) else asleep s)"
    "athreads ?b t = Some (x\<lparr>mySem := 0, semStatus := c, threadState := (if c = WAITING \<or> c = TIMEDWAITING then SUSPENDED else READY)\<rparr>)"
    using x(3,4) unfolding a_unblock_def hd unfolding Let_def a_release_def a_put_def a_status_def a_inc_def by simp_all
  have "aasleep ?b = remove1 t (asleep s)"
  proof (cases "pl = In_both p")
    case False
    then have "t \<notin> set (aasleep (abs s))" using st x(2) by (auto simp: stands_def)
    then show ?thesis using False x(5) by (simp add: b(3) remove1_idem)
  qed (simp add: b(3) x(5))
  with b(1,2,4) show ?thesis by (intro that)
qed

lemma sem_signal_call:
  assumes "kernel_inv m s U f" "sems s p \<noteq> None" "sem_val s p < 2 ^ 63 - 1"
  shows "\<exists>r s'. syscall 0x24 p a2 a3 a4 s = Some (Some r, s') \<and> sem_val s' p = sem_val s p + 1 \<and> running s' = running s \<and>
    (case waiters s p of
       [] \<Rightarrow> r = 0 \<and> waiters s' p = [] \<and> ready s' = ready s \<and> asleep s' = asleep s
     | t # ts \<Rightarrow> r = 1 \<and> waiters s' p = ts \<and> ready s' = ready s @ [t] \<and> asleep s' = remove1 t (asleep s) \<and>
         (\<exists>y. threads s' t = Some y \<and> semStatus y = REGULARLY_WAITED \<and> threadState y = READY \<and> mySem y = 0))"
proof -
  have k: "ainv m (abs s)" "sems_ok (abs s)" using assms(1) by (simp_all add: kernel_inv_def ainv_def shape_def)
  have pa: "asems (abs s) p \<noteq> None" using assms(2) by simp
  then obtain z where z: "asems (abs s) p = Some z" by auto
  note zz = sems_okD [OF k(2) z]
  have inc: "a_val (a_inc p (abs s)) p = sem_val s p + 1" "a_queue (a_inc p (abs s)) p = waiters s p"
  proof -
    obtain x where "sems s p = Some x" using assms(2) by auto
    then show "a_val (a_inc p (abs s)) p = sem_val s p + 1" using assms(3) sint_inc [of "val x"] by (simp add: a_val_def a_inc_def)
    show "a_queue (a_inc p (abs s)) p = waiters s p" unfolding a_inc_def by (rule a_queue_sem_same) simp
  qed
  obtain s' where s': "syscall 0x24 p a2 a3 a4 s = Some (Some (of_int (fst (a_signal p (abs s)))), s')" "abs s' = snd (a_signal p (abs s))"
    by (rule runsE [OF syscall_sem_signal [OF assms]]) auto
  show ?thesis
  proof (cases "waiters s p")
    case Nil
    then have v: "0 \<le> sem_val s p" using zz by simp
    then have w: "a_signal p (abs s) = (0, a_inc p (abs s))" using inc by (simp add: a_signal_def Let_def)
    have e: "abs s' = a_inc p (abs s)" using s'(2) by (simp add: w)
    have "running s' = running s" "ready s' = ready s" "asleep s' = asleep s"
      using arg_cong [OF e, of arunning] arg_cong [OF e, of aready] arg_cong [OF e, of aasleep] by (simp_all add: a_inc_def)
    moreover have "waiters s' p = []" "sem_val s' p = sem_val s p + 1" unfolding e using inc Nil by simp_all
    ultimately show ?thesis using s'(1) Nil by (simp add: w)
  next
    case (Cons t ts)
    have neg: "sem_val s p < 0"
    proof -
      have "awaiters z = t # ts" using trans [OF zz(3) [symmetric] Cons] .
      then have "0 < length (awaiters z)" by simp
      then show ?thesis using zz(1,2) by linarith
    qed
    let ?b = "a_unblock REGULARLY_WAITED p (a_inc p (abs s))"
    have w: "a_signal p (abs s) = (1, ?b)" using inc neg by (simp add: a_signal_def Let_def)
    have e: "abs s' = ?b" using s'(2) by (simp add: w)
    obtain x where b: "arunning ?b = running s" "aready ?b = ready s @ [t]" "aasleep ?b = remove1 t (asleep s)"
      "athreads ?b t = Some (x\<lparr>mySem := 0, semStatus := REGULARLY_WAITED, threadState := READY\<rparr>)"
      by (rule unblock_first [OF k(1) Cons inc(2), of REGULARLY_WAITED]) simp
    have pi: "asems (a_inc p (abs s)) p \<noteq> None" using assms(2) by (simp add: a_inc_def)
    have "waiters s' p = ts" "sem_val s' p = sem_val s p + 1"
      unfolding e using a_unblock_queue(1,3) [OF pi, of REGULARLY_WAITED] inc Cons by simp_all
    moreover have "running s' = running s" "ready s' = ready s @ [t]" "asleep s' = remove1 t (asleep s)"
      "threads s' t = Some (x\<lparr>mySem := 0, semStatus := REGULARLY_WAITED, threadState := READY\<rparr>)"
      using b [folded e] by simp_all
    ultimately show ?thesis using s'(1) Cons by (simp add: w)
  qed
qed

text \<open>
  C12: \<open>sem_signal\<close> increments the value. If threads wait, the first of them, the one that has waited longest,
  moves to the end of the ready queue with the answer \<open>REGULARLY_WAITED\<close>, out of the list of sleeping threads
  if it had a timeout, and the call returns 1; otherwise it returns 0. The caller goes on in both cases.
\<close>

theorem sem_signal_spec:
  assumes "kernel_inv m s U f" "sems s p \<noteq> None" "sem_val s p < 2 ^ 63 - 1"
  shows "\<exists>r s'. syscall 0x24 p a2 a3 a4 s = Some (Some r, s') \<and> sem_val s' p = sem_val s p + 1 \<and> running s' = running s \<and>
    (case waiters s p of
       [] \<Rightarrow> r = 0 \<and> waiters s' p = [] \<and> ready s' = ready s \<and> asleep s' = asleep s
     | t # ts \<Rightarrow> r = 1 \<and> waiters s' p = ts \<and> ready s' = ready s @ [t] \<and> asleep s' = remove1 t (asleep s) \<and>
         (\<exists>y. threads s' t = Some y \<and> semStatus y = REGULARLY_WAITED \<and> threadState y = READY \<and> mySem y = 0))"
  by (rule sem_signal_call [OF assms])

lemma sem_signal_spec_witness:
  "\<exists>s'. syscall 0x24 ex_sem 0 0 0 ex5 = Some (Some 1, s') \<and> ready s' = [user_t] \<and> waiters s' ex_sem = []"
proof -
  obtain U where i: "kernel_inv main_t ex5 U 160" using ex5(1) by auto
  have a: "aready (abs ex5) = []" "aasleep (abs ex5) = []" "asems (abs ex5) ex_sem = Some \<lparr>aval = -1, awaiters = [user_t], atimed = 0\<rparr>"
    unfolding ex5(2) ex3_abs by simp_all
  then have v: "sem_val ex5 ex_sem = -1" "waiters ex5 ex_sem = [user_t]" by (simp_all only: a_val_def a_queue_def) simp_all
  show ?thesis using sem_signal_spec [OF i, of ex_sem 0 0 0] a v by auto
qed


subsection \<open>Closing\<close>

lemma a_unblock_head:
  assumes "a_queue a p = t # ts" "t \<noteq> arunning a" "athreads a t = Some x" "cause = SEM_DELETED \<or> cause = REGULARLY_WAITED"
  shows "aready (a_unblock cause p a) = aready a @ [t]"
    "athreads (a_unblock cause p a) t = Some (x\<lparr>mySem := 0, semStatus := cause, threadState := READY\<rparr>)"
  using assms by (auto simp: a_unblock_def a_release_def a_put_def a_status_def Let_def)

lemma a_unblock_asleep:
  assumes i: "ainv m a" and q: "a_queue a p = t # ts"
  shows "aasleep (a_unblock c p (a_inc p a)) = filter (\<lambda>u. u \<noteq> t) (aasleep a)"
    "r \<noteq> p \<Longrightarrow> asems (a_unblock c p (a_inc p a)) r = asems a r"
proof -
  have "t \<in> set (a_queue a p)" using q by simp
  from parked_queued [OF i this] obtain x pl where x: "parked a t pl" "pl = In_queue p \<or> pl = In_both p" "athreads a t = Some x"
    "semStatus x = (if pl = In_both p then TIMEDWAITING else WAITING)" by metis
  have qi: "a_queue (a_inc p a) p = t # ts" using q unfolding a_inc_def by (subst a_queue_sem_same) simp_all
  have b: "aasleep (a_unblock c p (a_inc p a)) = (if semStatus x = TIMEDWAITING then remove1 t (aasleep a) else aasleep a)"
    using x(3) unfolding a_unblock_def qi unfolding Let_def a_release_def a_put_def a_status_def a_inc_def by simp
  have "distinct (aasleep a)" using i by (simp add: ainv_def shape_def lists_ok_def)
  then have r: "remove1 t (aasleep a) = filter (\<lambda>u. u \<noteq> t) (aasleep a)" by (simp add: distinct_remove1_removeAll removeAll_filter_not_eq eq_commute)
  have "t \<notin> set (aasleep a)" if "semStatus x \<noteq> TIMEDWAITING" using x that by (auto simp: parked_def stands_def)
  then show "aasleep (a_unblock c p (a_inc p a)) = filter (\<lambda>u. u \<noteq> t) (aasleep a)"
    unfolding b r [symmetric] by (simp add: remove1_idem)
  show "asems (a_unblock c p (a_inc p a)) r = asems a r" if "r \<noteq> p"
    using that by (simp add: a_unblock_def a_release_def a_put_def a_status_def a_inc_def a_sem_def Let_def)
qed

lemma unblockAll_effect:
  assumes "ainv m a" "asems a p \<noteq> None" "n = nat (- a_val a p)"
  shows "aready (a_unblockAll SEM_DELETED p n a) = aready a @ a_queue a p \<and>
    aasleep (a_unblockAll SEM_DELETED p n a) = filter (\<lambda>t. t \<notin> set (a_queue a p)) (aasleep a) \<and>
    (\<forall>q. q \<noteq> p \<longrightarrow> asems (a_unblockAll SEM_DELETED p n a) q = asems a q) \<and>
    (\<forall>t\<in>set (a_queue a p). \<exists>y. athreads (a_unblockAll SEM_DELETED p n a) t = Some y \<and> semStatus y = SEM_DELETED \<and> threadState y = READY) \<and>
    (\<forall>t. t \<notin> set (a_queue a p) \<longrightarrow> athreads (a_unblockAll SEM_DELETED p n a) t = athreads a t)"
  using assms
proof (induction n arbitrary: a)
  case 0
  have "sems_ok a" using 0(1) by (simp add: ainv_def shape_def)
  moreover obtain z where "asems a p = Some z" using 0(2) by auto
  ultimately have "a_queue a p = []" using sems_okD [of a p z] 0(3) by simp
  then show ?case by simp
next
  case (Suc n)
  let ?b = "a_unblock SEM_DELETED p (a_inc p a)"
  have neg: "a_val a p < 0" using Suc.prems(3) by simp
  have so: "sems_ok a" using Suc.prems(1) by (simp add: ainv_def shape_def)
  obtain z where z: "asems a p = Some z" using Suc.prems(2) by auto
  have "a_queue a p \<noteq> []" using sems_okD [OF so z] neg by auto
  then obtain t ts where q: "a_queue a p = t # ts" by (cases "a_queue a p") auto
  have "t \<in> set (a_queue a p)" using q by simp
  from parked_queued [OF Suc.prems(1) this] obtain x where x: "athreads a t = Some x" "t \<noteq> arunning a" by metis
  have p1: "asems (a_inc p a) p \<noteq> None" using Suc.prems(2) by (simp add: a_inc_def)
  have qi: "a_queue (a_inc p a) p = t # ts" using q unfolding a_inc_def by (subst a_queue_sem_same) simp_all
  have rd: "aready ?b = aready a @ [t]" "athreads ?b t = Some (x\<lparr>mySem := 0, semStatus := SEM_DELETED, threadState := READY\<rparr>)"
    using a_unblock_head [OF qi, of x SEM_DELETED] x by (simp_all add: a_inc_def)
  have other: "athreads ?b u = athreads a u" if "u \<noteq> t" for u
    using a_unblock_other [of u "a_inc p a" p SEM_DELETED] that qi by (simp add: a_inc_def)
  have qb: "a_queue ?b p = ts" using a_unblock_queue(1) [OF p1] qi by simp
  have tn: "t \<notin> set ts" using queue_fine(2) [OF Suc.prems(1), of p] q by simp
  have b: "ainv m ?b" using ainv_unblock [OF Suc.prems(1,2) neg] by simp
  have "n = nat (- a_val ?b p)" using Suc.prems(3) a_unblock_queue(3) [OF p1] a_val_inc [OF Suc.prems(2) neg] by simp
  note IH = Suc.IH [OF b a_unblock_queue(2) [OF p1] this, unfolded qb]
  have e: "a_unblockAll SEM_DELETED p (Suc n) a = a_unblockAll SEM_DELETED p n ?b" by (simp add: a_unblock_inc)
  have "athreads (a_unblockAll SEM_DELETED p n ?b) t = athreads ?b t" using IH tn by blast
  have "aasleep ?b = filter (\<lambda>u. u \<noteq> t) (aasleep a)" "\<And>r. r \<noteq> p \<Longrightarrow> asems ?b r = asems a r"
    by (rule a_unblock_asleep [OF Suc.prems(1) q])+
  then show ?case unfolding e q using IH rd other by auto
qed

text \<open>
  The loop of \<open>unblockAll\<close> ends in every state of the invariant: it counts the value up to 0 and takes one
  waiter off the queue in each turn, and the queue is empty when it stops.
\<close>

lemma unblockAll_terminates:
  assumes "kernel_inv m s U f" "sems s p \<noteq> None"
  shows "\<exists>s' x. unblockAll SEM_DELETED p s = Some s' \<and> sems s' p = Some x \<and> queueBlocked x = [] \<and> ready s' = ready s @ waiters s p"
proof -
  have k: "kmem s U f" "ainv m (abs s)" "sems_ok (abs s)" using assms(1) by (simp_all add: kernel_inv_def ainv_def shape_def)
  have pa: "asems (abs s) p \<noteq> None" using assms(2) by simp
  then obtain z where z: "asems (abs s) p = Some z" by auto
  note zz = sems_okD [OF k(3) z]
  let ?n = "nat (- a_val (abs s) p)"
  obtain s' where s': "unblockAll SEM_DELETED p s = Some s'" "abs s' = a_unblockAll SEM_DELETED p ?n (abs s)"
    using unblockAll_ok [OF k(1) pa _ queue_fine(2,1) [OF k(2)], of SEM_DELETED] zz by (auto simp: goes_def)
  have "asems (abs s') p \<noteq> None"
    unfolding s'(2) using a_unblockAll_other [of "abs s" p "a_queue (abs s) p" "[]" ?n SEM_DELETED] pa zz by simp
  then obtain x where x: "sems s' p = Some x" by auto
  have "a_queue (abs s') p = []" using ainv_unblockAll [OF k(2) pa refl] unfolding s'(2) by simp
  then have "queueBlocked x = []" using x by (simp add: a_queue_def)
  moreover have "aready (abs s') = ready s @ waiters s p" using unblockAll_effect [OF k(2) pa refl] unfolding s'(2) by simp
  then have "ready s' = ready s @ waiters s p" by simp
  ultimately show ?thesis using s'(1) x by blast
qed

lemma sem_close_call:
  assumes i: "kernel_inv m s U f" and p: "sems s p \<noteq> None"
  obtains s' where "syscall 0x22 p a2 a3 a4 s = Some (Some 0, s')" "abs s' = a_close p (abs s)"
proof -
  have k: "kmem s U f" "ainv m (abs s)" "sems_ok (abs s)" using i by (simp_all add: kernel_inv_def ainv_def shape_def)
  have pa: "asems (abs s) p \<noteq> None" using p by simp
  then obtain z where z: "asems (abs s) p = Some z" by auto
  note zz = sems_okD [OF k(3) z]
  have "p \<in> set (aallsems (abs s))" using k(3) z unfolding sems_ok_def by blast
  then have "goes (delete_sem p s) U (Suc (Suc f)) (a_close p (abs s))"
    by (rule delete_sem_ok [OF k(1) pa _ _ queue_fine(2,1) [OF k(2)]]) (use zz in simp)
  then obtain s' where "delete_sem p s = Some s'" "abs s' = a_close p (abs s)" by (auto simp: goes_def)
  moreover have "p \<noteq> 0" using p kmem_null(2) [OF k(1)] by auto
  ultimately show ?thesis by (intro that [of s']) (simp_all add: syscall_def ecall_handler_def sem_close_wrapper_def)
qed

text \<open>
  C24: \<open>sem_close\<close> makes all waiters ready, with and without a timeout, in the order in which they came and with the answer
  \<open>SEM_DELETED\<close>; those with a timeout leave the list of sleeping threads, where the others keep their order. It leaves every other thread and
  every other semaphore alone, and deletes the semaphore. (What a waiter with a timeout does when it runs again, a store into the
  deleted semaphore, is not part of the call: that is why \<open>call_ok\<close> excludes such a close from the runs of the kernel.)
\<close>

theorem sem_close_spec:
  assumes "kernel_inv m s U f" "sems s p \<noteq> None"
  shows "\<exists>s'. syscall 0x22 p a2 a3 a4 s = Some (Some 0, s') \<and> sems s' p = None \<and>
    running s' = running s \<and> ready s' = ready s @ waiters s p \<and>
    asleep s' = filter (\<lambda>t. t \<notin> set (waiters s p)) (asleep s) \<and> (\<forall>q. q \<noteq> p \<longrightarrow> sem_view s' q = sem_view s q) \<and>
    (\<forall>t\<in>set (waiters s p). \<exists>y. threads s' t = Some y \<and> semStatus y = SEM_DELETED \<and> threadState y = READY) \<and>
    (\<forall>t. t \<notin> set (waiters s p) \<longrightarrow> threads s' t = threads s t)"
proof -
  have k: "ainv m (abs s)" using assms(1) by (simp add: kernel_inv_def)
  have pa: "asems (abs s) p \<noteq> None" using assms(2) by simp
  let ?b = "a_unblockAll SEM_DELETED p (nat (- a_val (abs s) p)) (abs s)"
  note u = unblockAll_effect [OF k pa refl]
  obtain s' where s': "syscall 0x22 p a2 a3 a4 s = Some (Some 0, s')" "abs s' = a_close p (abs s)"
    by (rule sem_close_call [OF assms])
  have c: "arunning (abs s') = arunning ?b" "aready (abs s') = aready ?b" "aasleep (abs s') = aasleep ?b" "athreads (abs s') = athreads ?b"
    "asems (abs s') p = None" "\<And>q. q \<noteq> p \<Longrightarrow> asems (abs s') q = asems ?b q"
    unfolding s'(2) by (simp_all add: a_close_def Let_def)
  have "running s' = running s" "ready s' = ready s @ waiters s p" "asleep s' = filter (\<lambda>t. t \<notin> set (waiters s p)) (asleep s)"
    "sems s' p = None" "threads s' = athreads ?b" "\<And>q. q \<noteq> p \<Longrightarrow> sem_view s' q = sem_view s q"
    using c u ainv_unblockAll [OF k pa refl] by simp_all
  then show ?thesis using s'(1) u by auto
qed

text \<open>The user thread of the example waits with a timeout when the semaphore is closed.\<close>

lemma sem_close_spec_witness:
  "\<exists>r s1 s2. syscall 0x25 ex_sem 7 0 0 ex4 = Some (r, s1) \<and> asleep s1 = [user_t] \<and>
    syscall 0x22 ex_sem 0 0 0 s1 = Some (Some 0, s2) \<and> sems s2 ex_sem = None \<and> asleep s2 = [] \<and> user_t \<in> set (ready s2)"
proof -
  obtain U where i: "kernel_inv main_t ex4 U (Suc (Suc (Suc 167)))" using ex4(1) by auto
  have a: "arunning (abs ex4) = user_t" "aready (abs ex4) = [main_t]" "aasleep (abs ex4) = []"
    "asems (abs ex4) ex_sem = Some \<lparr>aval = 0, awaiters = [], atimed = 0\<rparr>"
    unfolding ex4(2) ex3_abs by simp_all
  then have v: "sem_val ex4 ex_sem = 0" "waiters ex4 ex_sem = []" by (simp_all only: a_val_def a_queue_def) simp_all
  have p: "main_t \<noteq> running ex4" "sems ex4 ex_sem \<noteq> None" using a by auto
  obtain r s1 where s1: "syscall 0x25 ex_sem 7 0 0 ex4 = Some (r, s1)" "waiters s1 ex_sem = [user_t]" "asleep s1 = [user_t]"
    using sem_timedwait_call [OF i p, of 7 0 0] a v by auto
  have k1: "kernel_inv main_t s1 U (Suc 167)"
    by (rule runsE [OF syscall_sem_timedwait [OF i p(2), of 7 0 0]]) (use p(1) s1(1) kernel_inv_mono in auto)
  have "sems s1 ex_sem \<noteq> None" using s1(2) by (cases "sems s1 ex_sem") (auto simp: a_queue_def)
  from sem_close_spec [OF k1 this, of 0 0 0] obtain s2 where s2: "syscall 0x22 ex_sem 0 0 0 s1 = Some (Some 0, s2)" "sems s2 ex_sem = None"
    "ready s2 = ready s1 @ [user_t]" "asleep s2 = []" using s1(2,3) by auto
  have "user_t \<in> set (ready s2)" unfolding s2(3) by simp
  then show ?thesis using s1(1,3) s2(1,2,4) by (intro exI conjI)
qed

subsection \<open>Answers\<close>

text \<open>
  C25: A thread that runs again after it blocked returns from its call with 0 if it was signalled, -1 if the semaphore
  was closed and, from \<open>sem_timedwait\<close> only, -2 if its time ran out; it is then no longer waiting.
\<close>

theorem wait_answers:
  assumes "kmem s U f" "switched m (abs s)" "threads s (running s) = Some x"
    "saved_context x = In_wait p \<or> saved_context x = In_timedWait p"
  shows "\<exists>r s' y. resume_running s = Some (Some r, s') \<and> running s' = running s \<and>
    (semStatus x, r) \<in> {(REGULARLY_WAITED, 0), (SEM_DELETED, -1)} \<union> (if saved_context x = In_timedWait p then {(TIMEOUT, -2)} else {}) \<and>
    threads s' (running s) = Some y \<and> semStatus y = NON_WAITING \<and> threadState y = RUNNING \<and> mySem y = 0"
proof -
  have w: "semStatus x \<in> woken (saved_context x)" using assms(2,3) by (auto simp: switched_def)
  obtain s' where s': "resume_running s = Some (fst (a_resume (abs s)), s')" "abs s' = snd (a_resume (abs s))"
    using resume_ok [OF assms(1,2)] by (auto simp: returns_def)
  have r: "running s' = running s" using arg_cong [OF s'(2), of arunning] by simp
  have e: "threads s' (running s) = athreads (snd (a_resume (abs s))) (running s)" using arg_cong [OF s'(2), of "\<lambda>a. athreads a (running s)"] by simp
  note d = a_resume_def a_wait_resume_def a_timedWait_resume_def a_answer_def a_status_def
  from assms(4) show ?thesis
  proof
    assume c: "saved_context x = In_wait p"
    then have "semStatus x = REGULARLY_WAITED \<or> semStatus x = SEM_DELETED" using w by simp
    then have "fst (a_resume (abs s)) = Some (if semStatus x = REGULARLY_WAITED then 0 else -1)"
      using c assms(3) by (auto simp: d SEM_OKAYWAITED_def SEM_DEAD_def)
    moreover have "\<exists>y. threads s' (running s) = Some y \<and> semStatus y = NON_WAITING \<and> threadState y = RUNNING \<and> mySem y = 0"
      unfolding e using c assms(3) by (simp add: d)
    ultimately show ?thesis using s'(1) r w c by auto
  next
    assume c: "saved_context x = In_timedWait p"
    then have "semStatus x = REGULARLY_WAITED \<or> semStatus x = SEM_DELETED \<or> semStatus x = TIMEOUT" using w by auto
    then have "fst (a_resume (abs s)) = Some (if semStatus x = REGULARLY_WAITED then 0 else if semStatus x = SEM_DELETED then -1 else -2)"
      using c assms(3) by (auto simp: d Let_def SEM_OKAYWAITED_def SEM_DEAD_def SEM_TIMEOUT_def)
    moreover have "\<exists>y. threads s' (running s) = Some y \<and> semStatus y = NON_WAITING \<and> threadState y = RUNNING \<and> mySem y = 0"
      unfolding e using c assms(3) by (simp add: d Let_def)
    ultimately show ?thesis using s'(1) r w c by auto
  qed
qed

definition ex6 :: kernel where "ex6 = snd (the (syscall 0x24 ex_sem 0 0 0 ex5))"
definition ex7 :: kernel where "ex7 = the (dispatch In_dispatch_wrapper ex6)"

lemma ex7: "\<exists>U. kmem ex7 U 150" "switched main_t (abs ex7)" "running ex7 = user_t"
  "\<exists>x. threads ex7 user_t = Some x \<and> saved_context x = In_wait ex_sem \<and> semStatus x = REGULARLY_WAITED"
proof -
  obtain U where i: "kernel_inv main_t ex5 U 160" using ex5(1) by auto
  have a: "asems (abs ex5) = [ex_sem \<mapsto> \<lparr>aval = -1, awaiters = [user_t], atimed = 0\<rparr>]" unfolding ex5(2) by simp
  have p: "sems ex5 ex_sem \<noteq> None" using arg_cong [OF a, of "\<lambda>f. f ex_sem"] by auto
  have "a_val (abs ex5) ex_sem = -1" unfolding a_val_def a by simp
  from runs_next [OF syscall_sem_signal [OF i p, of 0 0 0]] this
  have k: "kernel_inv main_t ex6 U (Suc 159)" "abs ex6 = snd (a_signal ex_sem (abs ex5))" by (simp_all add: ex6_def)
  have e6: "abs ex6 = (abs ex5)\<lparr>athreads := (athreads (abs ex5))(user_t \<mapsto>
       ex_user\<lparr>threadState := READY, semStatus := REGULARLY_WAITED, saved_context := In_wait ex_sem\<rparr>),
     aready := [user_t], asems := [ex_sem \<mapsto> \<lparr>aval = 0, awaiters = [], atimed = 0\<rparr>]\<rparr>"
    unfolding k(2) ex5(2) ex3_abs
    by (simp add: a_signal_def a_inc_def a_sem_def a_val_def a_unblock_def a_release_def a_put_def a_status_def a_thread_def Let_def a_queue_def ex_user_def)
  have l: "leaving main_t In_dispatch_wrapper (abs ex6)" by (rule leaving_dispatch) (use k(1) in \<open>simp_all add: kernel_inv_def\<close>)
  have "kmem ex6 U (Suc 159)" using k(1) by (simp add: kernel_inv_def)
  from dispatch_ok [OF this leaving_dispatchable [OF l], of In_dispatch_wrapper]
  have d: "kmem ex7 U (Suc 159)" "abs ex7 = a_dispatch In_dispatch_wrapper (abs ex6)" by (auto simp: goes_def ex7_def)
  show "\<exists>U. kmem ex7 U 150" using kmem_mono [OF d(1), of 150] by auto
  show "switched main_t (abs ex7)" unfolding d(2) by (rule a_dispatch_switched [OF l])
  have i6: "ainv main_t (abs ex6)" using k(1) by (simp add: kernel_inv_def)
  have "arunning (abs ex7) = hd (aready (abs ex6) @ [arunning (abs ex6)])" unfolding d(2) by (rule a_dispatch_ready(1) [OF i6]) simp
  then show "running ex7 = user_t" unfolding e6 by simp
  have "\<exists>x. athreads (abs ex7) user_t = Some x \<and> saved_context x = In_wait ex_sem \<and> semStatus x = REGULARLY_WAITED"
    unfolding d(2) a_dispatch_eq [OF l] unfolding e6 ex5(2) ex3_abs
    by (simp add: a_enter_def a_leave_def Let_def ex_main_def ex_user_def readyToRun_def a_put_def a_thread_def)
  then show "\<exists>x. threads ex7 user_t = Some x \<and> saved_context x = In_wait ex_sem \<and> semStatus x = REGULARLY_WAITED" by simp
qed

lemma wait_answers_witness: "\<exists>s'. resume_running ex7 = Some (Some 0, s') \<and> running s' = user_t"
proof -
  obtain U where u: "kmem ex7 U 150" using ex7(1) by auto
  obtain x where x: "threads ex7 (running ex7) = Some x" "saved_context x = In_wait ex_sem" "semStatus x = REGULARLY_WAITED"
    using ex7(3,4) by auto
  show ?thesis using wait_answers [OF u ex7(2) x(1), of ex_sem] x ex7(3) by auto
qed

end
