(* ===== verification/TimeProps.thy ===== *)
theory TimeProps
  imports SemaphoreProps
begin

text \<open>
  What sleeping and the timer do, stated on the kernel's state.
\<close>

lemma sorted_split:
  assumes "sorted (map f xs)"
  shows "takeWhile (\<lambda>t. f t \<le> (n :: u64)) xs = filter (\<lambda>t. f t \<le> n) xs \<and> dropWhile (\<lambda>t. f t \<le> n) xs = filter (\<lambda>t. \<not> f t \<le> n) xs"
  using assms
proof (induction xs)
  case (Cons x xs)
  have "filter (\<lambda>t. f t \<le> n) xs = []" "filter (\<lambda>t. \<not> f t \<le> n) xs = xs" if "\<not> f x \<le> n"
    using Cons.prems that by (auto simp: filter_empty_conv filter_id_conv)
  then show ?case using Cons by auto
qed simp

lemma a_wake_list_running:
  "arunning (a_wake_list xs a) = arunning a \<and> acpu (a_wake_list xs a) = acpu a \<and> atime (a_wake_list xs a) = atime a \<and>
   (u \<notin> set xs \<longrightarrow> athreads (a_wake_list xs a) u = athreads a u)"
proof (induction xs arbitrary: a)
  case (Cons t xs)
  have "arunning (a_wake t a) = arunning a" "acpu (a_wake t a) = acpu a" "atime (a_wake t a) = atime a"
    by (simp_all add: a_wake_def a_timeout_def a_release_def a_put_def a_status_def a_inc_def Let_def)
  then show ?case using Cons.IH [of "a_wake t a"] a_wake_other(1) [of u t a] by auto
qed simp

definition wake_time :: "kernel \<Rightarrow> u64 \<Rightarrow> u64" where
  "wake_time s t = timeForWakingUp (the (threads s t))"

text \<open>The first part of a tick: the time advances and the threads whose time has come are woken.\<close>

definition a_woken :: "akernel \<Rightarrow> akernel" where
  "a_woken a = a_wake_list (aasleep a)
     (a\<lparr>asip := Bit_Operations.and (asip a) (Bit_Operations.not SIP_SSIP), atime := atime a + 1, acpu := acpu a + 1\<rparr>)"

lemma asleep_sorted:
  assumes "ainv m (abs s)"
  shows "sorted (map (wake_time s) (asleep s))" "\<And>t. t \<in> set (asleep s) \<Longrightarrow> a_wake_time (abs s) t = wake_time s t"
proof -
  have sh: "lists_ok (abs s)" "time_ok (abs s)" using assms by (simp_all add: ainv_def shape_def)
  have sub: "set (asleep s) \<subseteq> dom (threads s)" using sh(1) unfolding lists_ok_def Un_subset_iff abs_sel by blast
  show wt: "a_wake_time (abs s) t = wake_time s t" if "t \<in> set (asleep s)" for t
    using sub that by (auto simp: a_wake_time_def wake_time_def)
  have "map (a_wake_time (abs s)) (asleep s) = map (wake_time s) (asleep s)" by (rule map_cong [OF refl wt])
  then show "sorted (map (wake_time s) (asleep s))" using sh(2) unfolding time_ok_def abs_sel by metis
qed

lemma a_woken_ok:
  assumes "ainv m (abs s)" "threads s (running s) = Some x"
  defines "w \<equiv> a_woken (abs s)"
  shows "ainv m w" "aasleep w = filter (\<lambda>t. \<not> wake_time s t \<le> SYS_TIME s + 1) (asleep s)"
    "aready w = ready s @ filter (\<lambda>t. wake_time s t \<le> SYS_TIME s + 1) (asleep s)"
    "arunning w = running s" "acpu w = runningThread_CPU_time s + 1" "atime w = SYS_TIME s + 1" "athreads w (running s) = Some x"
proof -
  define a1 where "a1 = (abs s)\<lparr>asip := Bit_Operations.and (sip s) (Bit_Operations.not SIP_SSIP), atime := SYS_TIME s + 1,
     acpu := runningThread_CPU_time s + 1\<rparr>"
  have w: "w = a_wake_list (aasleep a1) a1" by (simp add: w_def a_woken_def a1_def)
  have a1: "ainv m a1" using assms(1) by (simp add: a1_def)
  note wl = wake_list_ok [OF a1 refl, folded w]
  then show "ainv m w" by simp
  note sw = asleep_sorted [OF assms(1)]
  have wt: "a_wake_time a1 t = wake_time s t" if "t \<in> set (asleep s)" for t
    using sw(2) [OF that] by (simp add: a_wake_time_def a1_def)
  have "takeWhile (\<lambda>t. a_wake_time a1 t \<le> atime a1) (aasleep a1) = takeWhile (\<lambda>t. wake_time s t \<le> SYS_TIME s + 1) (asleep s)"
    by (rule takeWhile_cong) (use wt in \<open>simp_all add: a1_def\<close>)
  then show "aready w = ready s @ filter (\<lambda>t. wake_time s t \<le> SYS_TIME s + 1) (asleep s)"
    using wl sorted_split [OF sw(1)] by (simp add: a1_def)
  have "dropWhile (\<lambda>t. a_wake_time a1 t \<le> atime a1) (aasleep a1) = dropWhile (\<lambda>t. wake_time s t \<le> SYS_TIME s + 1) (asleep s)"
    by (rule dropWhile_cong) (use wt in \<open>simp_all add: a1_def\<close>)
  then show "aasleep w = filter (\<lambda>t. \<not> wake_time s t \<le> SYS_TIME s + 1) (asleep s)"
    using wl sorted_split [OF sw(1)] by (simp add: a1_def)
  have "running s \<notin> set (aasleep a1)" using assms(1) by (simp add: ainv_def stands_def a1_def)
  then show "arunning w = running s" "acpu w = runningThread_CPU_time s + 1" "atime w = SYS_TIME s + 1" "athreads w (running s) = Some x"
    using a_wake_list_running [of "aasleep a1" a1 "running s"] assms(2) unfolding w [symmetric] by (simp_all add: a1_def)
qed

lemma tick_run:
  assumes "kernel_inv m s U (Suc f)" "threads s (running s) = Some x"
  shows "\<exists>s'. timer_interrupt_handler s = Some (timeSlice x \<le> runningThread_CPU_time s + 1, s') \<and>
    abs s' = (if timeSlice x \<le> runningThread_CPU_time s + 1 then a_dispatch In_timer (a_woken (abs s)) else a_woken (abs s))"
proof -
  have k: "kmem s U (Suc f)" "ainv m (abs s)" using assms(1) by (simp_all add: kernel_inv_def)
  note w = a_woken_ok [OF k(2) assms(2)]
  have l: "leaving m In_timer (a_woken (abs s))" by (rule leaving_dispatch [OF w(1)]) simp
  have t: "a_tick (abs s) = (if timeSlice x \<le> runningThread_CPU_time s + 1 then (True, a_dispatch In_timer (a_woken (abs s)))
      else (False, a_woken (abs s)))"
    using w(4,5,7) by (simp add: a_tick_def a_woken_def Let_def)
  from tick_ok [OF k(1) asleep_fine [OF k(2)]] leaving_dispatchable [OF l]
  have "returns (timer_interrupt_handler s) (fst (a_tick (abs s))) U (Suc f) (snd (a_tick (abs s)))" by (simp add: a_woken_def)
  then show ?thesis using t by (auto simp: returns_def)
qed

text \<open>
  C13: A tick advances the system's time by one and wakes exactly the threads whose time has then come: they
  go, earliest first, to the end of the ready queue, and the threads that stay asleep have a later waking
  time. The running thread is preempted if and only if it has used its time slice; it then goes to the end of
  the queue and the first ready thread runs.
\<close>

theorem tick_wakes_due:
  assumes "kernel_inv m s U (Suc f)" "threads s (running s) = Some x"
  shows "\<exists>s' q. timer_interrupt_handler s = Some (timeSlice x \<le> runningThread_CPU_time s + 1, s') \<and> SYS_TIME s' = SYS_TIME s + 1 \<and>
    asleep s' = filter (\<lambda>t. \<not> wake_time s t \<le> SYS_TIME s + 1) (asleep s) \<and>
    q = ready s @ filter (\<lambda>t. wake_time s t \<le> SYS_TIME s + 1) (asleep s) \<and>
    (if timeSlice x \<le> runningThread_CPU_time s + 1
     then running s' = hd (q @ [running s]) \<and> ready s' = tl (q @ [running s])
     else running s' = running s \<and> ready s' = q)"
proof -
  have k: "ainv m (abs s)" using assms(1) by (simp add: kernel_inv_def)
  note w = a_woken_ok [OF k assms(2)]
  have l: "leaving m In_timer (a_woken (abs s))" by (rule leaving_dispatch [OF w(1)]) simp
  obtain s' where s': "timer_interrupt_handler s = Some (timeSlice x \<le> runningThread_CPU_time s + 1, s')"
    "abs s' = (if timeSlice x \<le> runningThread_CPU_time s + 1 then a_dispatch In_timer (a_woken (abs s)) else a_woken (abs s))"
    using tick_run [OF assms] by blast
  show ?thesis
  proof (cases "timeSlice x \<le> runningThread_CPU_time s + 1")
    case True
    then have e: "abs s' = a_dispatch In_timer (a_woken (abs s))" using s'(2) by simp
    note d = a_dispatch_ready [OF w(1), of In_timer, folded e]
    have "atime (abs s') = SYS_TIME s + 1" unfolding e a_dispatch_eq [OF l] by (simp add: a_enter_def a_leave_def Let_def a_put_def w(6))
    moreover have "running s' = hd (aready (a_woken (abs s)) @ [running s])" "ready s' = tl (aready (a_woken (abs s)) @ [running s])"
      "asleep s' = aasleep (a_woken (abs s))" using d(1-3) w(4) by simp_all
    ultimately show ?thesis using s'(1) True w(2,3) by simp
  next
    case False
    then have e: "abs s' = a_woken (abs s)" using s'(2) by simp
    note f = arg_cong [OF e, of atime] arg_cong [OF e, of arunning] arg_cong [OF e, of aready] arg_cong [OF e, of aasleep]
    then show ?thesis using s'(1) False w(2-6) by simp
  qed
qed

text \<open>
  C28: \<open>time_sleep\<close> suspends the caller until \<open>SYS_TIME\<close> plus the (clamped) delay, at its place by waking time in
  the list of sleeping threads, and the first ready thread runs.
\<close>

theorem time_sleep_spec:
  assumes "kernel_inv m s U (Suc (Suc f))" "m \<noteq> running s"
  shows "\<exists>r s' y. syscall 0x31 d a2 a3 a4 s = Some (r, s') \<and> running s' = hd (ready s) \<and> ready s' = tl (ready s) \<and>
    asleep s' = insort_key (\<lambda>t. if t = running s then SYS_TIME s + clamp_sleep d else wake_time s t) (running s) (asleep s) \<and>
    threads s' (running s) = Some y \<and> threadState y = SUSPENDED \<and> timeForWakingUp y = SYS_TIME s + clamp_sleep d \<and>
    saved_context y = In_sleep"
proof -
  obtain x where k: "ainv m (abs s)" "threads s (running s) = Some x" "set (aasleep (abs s)) \<subseteq> dom (athreads (abs s))" by (rule kernel_invD [OF assms(1)])
  let ?b = "a_sleep (clamp_sleep d) (abs s)"
  have l: "leaving m In_sleep ?b" by (rule leaving_sleep [OF k(1)]) (use assms(2) in simp)
  obtain s' where s': "syscall 0x31 d a2 a3 a4 s = Some (fst (a_resume (a_dispatch In_sleep ?b)), s')" "abs s' = snd (a_resume (a_dispatch In_sleep ?b))"
    by (rule runsE [OF syscall_time_sleep [OF assms]]) auto
  let ?y = "x\<lparr>threadState := SUSPENDED, timeForWakingUp := SYS_TIME s + clamp_sleep d\<rparr>"
  let ?key = "\<lambda>t. if t = running s then SYS_TIME s + clamp_sleep d else wake_time s t"
  let ?c = "(a_thread (running s) (\<lambda>x. x\<lparr>threadState := SUSPENDED, timeForWakingUp := SYS_TIME s + clamp_sleep d\<rparr>) (abs s))\<lparr>anumasleep := anumasleep (abs s) + 1\<rparr>"
  have b: "arunning ?b = running s" "aready ?b = ready s" "athreads ?b (running s) = Some ?y"
    using k(2) by (simp_all add: a_sleep_def Let_def)
  have "aasleep ?b = insort_key (a_wake_time ?c) (running s) (asleep s)" by (simp add: a_sleep_def Let_def a_thread_def)
  also have "\<dots> = insort_key ?key (running s) (asleep s)"
  proof (rule insort_key_cong)
    fix t assume "t \<in> insert (running s) (set (asleep s))"
    then have "t \<in> dom (threads s)" using k(2,3) by auto
    then show "a_wake_time ?c t = ?key t" using k(2) by (auto simp: a_wake_time_def wake_time_def)
  qed
  finally have as: "aasleep ?b = insort_key ?key (running s) (asleep s)" .
  have bl: "arunning (a_dispatch In_sleep ?b) = hd (ready s)" "aready (a_dispatch In_sleep ?b) = tl (ready s)"
    "athreads (a_dispatch In_sleep ?b) (running s) = Some (?y\<lparr>saved_context := In_sleep\<rparr>)"
    "hd (ready s) \<noteq> running s" "aasleep (a_dispatch In_sleep ?b) = insort_key ?key (running s) (asleep s)"
    using a_dispatch_blocked [OF l, of ?y] b as by simp_all
  have sl: "same_lists (a_dispatch In_sleep ?b) (abs s')" unfolding s'(2) by (rule same_lists_resume)
  have "running s' = hd (ready s)" "ready s' = tl (ready s)" "asleep s' = insort_key ?key (running s) (asleep s)"
    "threads s' (running s) = Some (?y\<lparr>saved_context := In_sleep\<rparr>)"
    using sl bl by (simp_all add: same_lists_def)
  then show ?thesis using s'(1) by simp
qed

lemma time_sleep_spec_witness:
  "\<exists>r s'. syscall 0x31 1 0 0 0 ex4 = Some (r, s') \<and> asleep s' = [user_t] \<and> running s' = main_t"
proof -
  obtain U where i: "kernel_inv main_t ex4 U (Suc (Suc 168))" using ex4(1) by auto
  have a: "arunning (abs ex4) = user_t" "aready (abs ex4) = [main_t]" "aasleep (abs ex4) = []" unfolding ex4(2) ex3_abs by simp_all
  show ?thesis using time_sleep_spec [OF i, of 1 0 0 0] a by auto
qed

definition ex8 :: kernel where "ex8 = snd (the (syscall 0x31 1 0 0 0 ex4))"

lemma ex8: "\<exists>U. kernel_inv main_t ex8 U 150" "running ex8 = main_t" "ready ex8 = []" "asleep ex8 = [user_t]" "SYS_TIME ex8 = 0"
  "runningThread_CPU_time ex8 = 0" "wake_time ex8 user_t = 1" "wake_time ex8 main_t = 0" "\<exists>x. threads ex8 main_t = Some x \<and> timeSlice x = 2"
proof -
  obtain U where i: "kernel_inv main_t ex4 U (Suc (Suc 168))" using ex4(1) by auto
  have "arunning (abs ex4) = user_t" unfolding ex4(2) by simp
  then have m: "main_t \<noteq> running ex4" by simp
  from runs_next [OF syscall_time_sleep [OF i m, of 1 0 0 0]]
  have k: "kernel_inv main_t ex8 U (Suc 168)" "abs ex8 = snd (a_resume (a_dispatch In_sleep (a_sleep (clamp_sleep 1) (abs ex4))))"
    by (simp_all add: ex8_def)
  from kernel_inv_mono [OF k(1), of 150] show "\<exists>U. kernel_inv main_t ex8 U 150" by auto
  have c: "clamp_sleep 1 = 1" by (simp add: clamp_sleep_def)
  have e: "abs ex8 = (abs ex4)\<lparr>arunning := main_t, aready := [], aasleep := [user_t], anumasleep := 1,
      athreads := [main_t \<mapsto> ex_main\<lparr>numOfChildren := 1, saved_context := In_dispatch_wrapper\<rparr>,
        user_t \<mapsto> ex_user\<lparr>threadState := SUSPENDED, timeForWakingUp := 1, saved_context := In_sleep\<rparr>]\<rparr>"
    unfolding k(2) ex4(2) ex3_abs c
    by (simp add: a_sleep_def a_insert_asleep_def a_dispatch_def a_leave_def a_purge_def a_enter_def a_put_def a_thread_def a_resume_def
        Let_def readyToRun_def ex_main_def ex_user_def a_finished_def fun_upd_twist restrict_map_def fun_eq_iff)
  note s = arg_cong [OF e, of arunning] arg_cong [OF e, of aready] arg_cong [OF e, of aasleep] arg_cong [OF e, of atime] arg_cong [OF e, of acpu]
    arg_cong [OF e, of athreads]
  have z: "SYS_TIME ex4 = 0" "runningThread_CPU_time ex4 = 0"
    using arg_cong [OF ex4(2), of atime] arg_cong [OF ex4(2), of acpu] arg_cong [OF ex3_abs, of atime] arg_cong [OF ex3_abs, of acpu] by simp_all
  show "running ex8 = main_t" "ready ex8 = []" "asleep ex8 = [user_t]" "SYS_TIME ex8 = 0" "runningThread_CPU_time ex8 = 0"
    using s z by simp_all
  show "wake_time ex8 user_t = 1" "wake_time ex8 main_t = 0" "\<exists>x. threads ex8 main_t = Some x \<and> timeSlice x = 2"
    using s(6) by (simp_all add: wake_time_def ex_main_def)
qed

lemma tick_wakes_due_witness:
  "\<exists>s'. timer_interrupt_handler ex8 = Some (False, s') \<and> asleep s' = [] \<and> ready s' = [user_t]"
proof -
  obtain U where i: "kernel_inv main_t ex8 U (Suc 149)" using ex8(1) by auto
  obtain x where x: "threads ex8 main_t = Some x" "timeSlice x = 2" using ex8(9) by blast
  have "threads ex8 (running ex8) = Some x" unfolding ex8(2) by (rule x(1))
  moreover have "\<not> (2 :: u64) \<le> 1" by (simp add: word_le_nat_alt)
  ultimately show ?thesis using tick_wakes_due [OF i, of x] x(2) ex8(2-7) by auto
qed

lemma clamp_small: "unat (clamp_sleep d) \<le> 2 ^ 63"
proof -
  have "unat (push_bit 63 1 :: u64) = 2 ^ 63" by simp
  moreover have "unat (drop_bit 1 d) = unat d div 2" by (simp add: drop_bit_eq_div unat_div)
  moreover have "unat d < 2 ^ 64" using unsigned_less [of d] by simp
  ultimately show ?thesis unfolding clamp_sleep_def by (auto simp: word_less_nat_alt not_less)
qed

text \<open>
  As long as the system's time has not reached \<open>2 ^ 63\<close> ticks, the waking time of \<open>time_sleep\<close> does not wrap around,
  whatever the delay, and a delay of at most \<open>2 ^ 63\<close> ticks is taken as it is.
\<close>

lemma clamp_sleep_bounds:
  assumes "unat now < 2 ^ 63"
  shows "unat (now + clamp_sleep d) = unat now + unat (clamp_sleep d) \<and> (unat d \<le> 2 ^ 63 \<longrightarrow> clamp_sleep d = d)"
proof -
  have "unat (push_bit 63 1 :: u64) = 2 ^ 63" by simp
  then have "clamp_sleep d = d" if "unat d \<le> 2 ^ 63" using that by (simp add: clamp_sleep_def word_less_nat_alt)
  then show ?thesis using assms clamp_small [of d] by (auto simp: unat_word_ariths)
qed

text \<open>
  C34: \<open>insert_asleep\<close> is insertion by waking time, \<open>insort_key\<close> of the library, so the list of sleeping threads stays
  sorted; a thread goes before those with the same waking time.
\<close>

theorem insert_asleep_insort:
  assumes "kmem s U (Suc f)" "alive (abs s) t" "set (asleep s) \<subseteq> dom (threads s)" "sorted (map (wake_time s) (asleep s))"
  shows "\<exists>s'. insert_asleep t s = Some s' \<and> asleep s' = insort_key (wake_time s) t (asleep s) \<and>
    sorted (map (wake_time s') (asleep s')) \<and> threads s' = threads s \<and> ready s' = ready s"
proof -
  from insert_asleep_ok [OF assms(1,2)] assms(3) obtain s' where s': "insert_asleep t s = Some s'" "abs s' = a_insert_asleep t (abs s)"
    by (auto simp: goes_def)
  have th: "threads s' = threads s" "ready s' = ready s" using arg_cong [OF s'(2), of athreads] arg_cong [OF s'(2), of aready] by simp_all
  have "asleep s' = insort_key (a_wake_time (abs s)) t (asleep s)" using arg_cong [OF s'(2), of aasleep] by simp
  also have "\<dots> = insort_key (wake_time s) t (asleep s)"
  proof (rule insort_key_cong)
    fix u assume "u \<in> insert t (set (asleep s))"
    then have "u \<in> dom (threads s)" using assms(2,3) by (auto simp: alive_def)
    then show "a_wake_time (abs s) u = wake_time s u" by (auto simp: a_wake_time_def wake_time_def)
  qed
  finally have e: "asleep s' = insort_key (wake_time s) t (asleep s)" .
  have "wake_time s' = wake_time s" by (simp add: wake_time_def [abs_def] th)
  then have "sorted (map (wake_time s') (asleep s'))" unfolding e using assms(4) by (simp add: sorted_insort_key)
  then show ?thesis using s'(1) e th by blast
qed

lemma insert_asleep_insort_witness: "\<exists>s'. insert_asleep main_t ex8 = Some s' \<and> asleep s' = [main_t, user_t]"
proof -
  obtain U where i: "kernel_inv main_t ex8 U (Suc 149)" using ex8(1) by auto
  obtain x where k: "kmem ex8 U (Suc 149)" "alive (abs ex8) main_t" "set (asleep ex8) \<subseteq> dom (threads ex8)"
    by (rule kernel_invD [OF i]) (use ex8(2) in auto)
  have "sorted (map (wake_time ex8) (asleep ex8))" by (simp add: ex8(4))
  from insert_asleep_insort [OF k this]
  obtain s' where "insert_asleep main_t ex8 = Some s'" "asleep s' = insort_key (wake_time ex8) main_t [user_t]" unfolding ex8(4) by blast
  then show ?thesis using ex8(7,8) by simp
qed

end
