(* ===== verification/Printer.thy ===== *)
theory Printer
  imports SysCalls
begin

text \<open>
  \<open>h/_SModePrinter.hpp\<close>: the printer of error messages, which writes to the terminal directly and not
  through the console's ring. A \<open>char *\<close> is the list of the bytes before its first NUL. The polling
  loops read the status register of the device parameter; \<open>None\<close> is a loop that still polls, and in
  \<open>priority_print_int\<close> also an access beyond the end of one of its arrays.
\<close>



definition bytes :: "string \<Rightarrow> u8 list" where
  "bytes cs = map (\<lambda>c. of_nat (String.of_char c)) cs"

definition cstring :: "string \<Rightarrow> u8 list" where
  "cstring cs = takeWhile (\<lambda>b. b \<noteq> 0) (bytes cs)"

text \<open>The loop \<open>while (s[i] != 0) if (transferReady()) { putCharInTerminal(s[i]); i++; }\<close>.\<close>

partial_function (option) print_loop :: "u8 list \<Rightarrow> device \<Rightarrow> device option" where
  "print_loop cs d = (case cs of [] \<Rightarrow> Some d
     | ch # rest \<Rightarrow> do {
         (t, d) \<leftarrow> transferReady d;
         if t then print_loop rest (putCharInTerminal ch d) else print_loop cs d
       })"

declare print_loop.simps [code]

definition ESC :: char where "ESC = CHR 0x1B"
definition NL :: char where "NL = CHR 0x0A"

definition changeTerminalToDef :: "device \<Rightarrow> device option" where
  "changeTerminalToDef d = do { d \<leftarrow> print_loop (cstring (ESC # ''[0m'')) d; Some (plic_complete 0xa d) }"

definition changeTerminalToRed :: "device \<Rightarrow> device option" where
  "changeTerminalToRed d = do { d \<leftarrow> print_loop (cstring (ESC # ''[31m'')) d; Some (plic_complete 0xa d) }"

definition priority_print :: "u8 list \<Rightarrow> device \<Rightarrow> device option" where
  "priority_print s d = do {
     d \<leftarrow> changeTerminalToRed d;
     d \<leftarrow> print_loop s d;
     changeTerminalToDef (plic_complete 0xa d)
   }"

text \<open>\<open>buf\<close> has room for 16 characters, \<open>digits\<close> is an array of 17. The digits are written without a look
  at the status register.\<close>

definition digits :: "u8 list" where
  "digits = bytes ''0123456789abcdef'' @ [0]"

definition digit :: "u32 \<Rightarrow> u8 option" where
  "digit n = (if unat n < length digits then Some (digits ! unat n) else None)"

fun digit_loop :: "nat \<Rightarrow> u32 \<Rightarrow> u32 \<Rightarrow> u8 list \<Rightarrow> u8 list option" where
  "digit_loop 0 base x buf = None"
| "digit_loop (Suc room) base x buf = do {
     c \<leftarrow> digit (x mod base);
     let buf = buf @ [c];
     let x = x div base;
     if x \<noteq> 0 then digit_loop room base x buf else Some buf
   }"

definition int_chars :: "u32 \<Rightarrow> u32 \<Rightarrow> bool \<Rightarrow> u8 list option" where
  "int_chars xx base signed_p =
     (if base = 0 then None
      else do {
        let neg = (signed_p \<and> sint xx < 0);
        buf \<leftarrow> digit_loop 16 base (if neg then - xx else xx) [];
        if \<not> neg then Some buf
        else if length buf < 16 then Some (buf @ bytes ''-'')
        else None
      })"

definition priority_print_int :: "u32 \<Rightarrow> u32 \<Rightarrow> bool \<Rightarrow> device \<Rightarrow> device option" where
  "priority_print_int xx base signed_p d = do {
     d \<leftarrow> changeTerminalToRed d;
     buf \<leftarrow> int_chars xx base signed_p;
     changeTerminalToDef (plic_complete 0xa (fold putCharInTerminal (rev buf) d))
   }"

end
