(* ===== verification/Trap.thy ===== *)
theory Trap
  imports Printer
begin

text \<open>
  \<open>h/_riscV.hpp\<close>, \<open>src/_riscv.cpp\<close>, and \<open>threadWrapper\<close> of \<open>src/_thread.cpp\<close>: the control
  registers, the trap handler and the printing of fatal errors. What the machine gives to a trap is
  the parameter \<open>env\<close>: the answer of \<open>plic_claim\<close>, the frame pointer and the memory of the kernel
  stack that \<open>print_stack_trace\<close> reads, and the address of \<open>threadWrapper\<close> after its call of
  \<open>popSppSpieChangeMod\<close>.

  \<open>handleSupervisorTrap\<close> keeps \<open>sepc\<close> and \<open>sstatus\<close> in local variables on the stack of the thread it runs on;
  they are written back when that thread is running again. \<open>frames\<close> holds these variables for every thread
  that is switched out inside the handler. \<open>device_stores\<close> are the words stored so far to the devices that \<open>dev\<close> does
  not contain: the test device, whose word at 0x100000 switches the machine off.
\<close>

record csrs =
  scause :: u64
  stvec :: u64
  stval :: u64
  sepc :: u64
  sstatus :: u64

record frame =
  saved_sepc :: u64
  saved_sstatus :: u64

record env =
  claimed :: u64
  frame_pointer :: u64
  stack_memory :: "u64 \<Rightarrow> u64"
  wrapper_address :: u64

record machine =
  kern :: kernel
  dev :: device
  csr :: csrs
  frames :: "u64 \<rightharpoonup> frame"
  recursionCounter :: int
  device_stores :: "(u64 \<times> u32) list"

subsection \<open>The control registers\<close>

definition SSTATUS_SIE :: u64 where "SSTATUS_SIE = push_bit 1 1"
definition SSTATUS_SPIE :: u64 where "SSTATUS_SPIE = push_bit 5 1"
definition SSTATUS_SPP :: u64 where "SSTATUS_SPP = push_bit 8 1"

definition r_scause :: "csrs \<Rightarrow> u64" where "r_scause c = scause c"
definition w_scause :: "u64 \<Rightarrow> csrs \<Rightarrow> csrs" where "w_scause v c = c\<lparr>scause := v\<rparr>"
definition r_sepc :: "csrs \<Rightarrow> u64" where "r_sepc c = sepc c"
definition w_sepc :: "u64 \<Rightarrow> csrs \<Rightarrow> csrs" where "w_sepc v c = c\<lparr>sepc := v\<rparr>"
definition r_stvec :: "csrs \<Rightarrow> u64" where "r_stvec c = stvec c"
definition w_stvec :: "u64 \<Rightarrow> csrs \<Rightarrow> csrs" where "w_stvec v c = c\<lparr>stvec := v\<rparr>"
definition r_stval :: "csrs \<Rightarrow> u64" where "r_stval c = stval c"
definition w_stval :: "u64 \<Rightarrow> csrs \<Rightarrow> csrs" where "w_stval v c = c\<lparr>stval := v\<rparr>"
definition ms_sstatus :: "u64 \<Rightarrow> csrs \<Rightarrow> csrs" where
  "ms_sstatus bits c = c\<lparr>sstatus := Bit_Operations.or (sstatus c) bits\<rparr>"
definition mc_sstatus :: "u64 \<Rightarrow> csrs \<Rightarrow> csrs" where
  "mc_sstatus bits c = c\<lparr>sstatus := Bit_Operations.and (sstatus c) (Bit_Operations.not bits)\<rparr>"
definition r_sstatus :: "csrs \<Rightarrow> u64" where "r_sstatus c = sstatus c"
definition w_sstatus :: "u64 \<Rightarrow> csrs \<Rightarrow> csrs" where "w_sstatus v c = c\<lparr>sstatus := v\<rparr>"

definition ECALL_U :: u64 where "ECALL_U = 8"
definition ECALL_S :: u64 where "ECALL_S = 9"
definition TIMER :: u64 where "TIMER = 0x8000000000000001"
definition CONSOLE :: u64 where "CONSOLE = 0x8000000000000009"
definition ILLEGAL_INSTRUCTION :: u64 where "ILLEGAL_INSTRUCTION = 2"
definition ILLEGAL_WR_ADDR :: u64 where "ILLEGAL_WR_ADDR = 7"
definition ILLEGAL_RD_ADDR :: u64 where "ILLEGAL_RD_ADDR = 5"

subsection \<open>Fatal errors\<close>

definition on_dev :: "(device \<Rightarrow> device option) \<Rightarrow> machine \<Rightarrow> machine option" where
  "on_dev f m = do { d \<leftarrow> f (dev m); Some (m\<lparr>dev := d\<rparr>) }"

definition print_text :: "string \<Rightarrow> machine \<Rightarrow> machine option" where
  "print_text s = on_dev (priority_print (cstring s))"

text \<open>An address is passed as an \<open>int\<close>: its low 32 bits are printed.\<close>

definition print_hex :: "u64 \<Rightarrow> machine \<Rightarrow> machine option" where
  "print_hex a = on_dev (priority_print_int (ucast a) 16 False)"

definition STACK_TRACE_DEPTH :: nat where "STACK_TRACE_DEPTH = 2"

fun stack_trace_loop :: "nat \<Rightarrow> (u64 \<Rightarrow> u64) \<Rightarrow> u64 \<Rightarrow> u64 \<Rightarrow> machine \<Rightarrow> machine option" where
  "stack_trace_loop 0 ld fp returnAddress m = Some m"
| "stack_trace_loop (Suc n) ld fp returnAddress m =
     (if returnAddress = 0 then Some m
      else do {
        let returnAddress = ld (fp + 8);
        m \<leftarrow> print_text ''   Call address: 0x'' m;
        m \<leftarrow> print_hex returnAddress m;
        m \<leftarrow> print_text ('' (-4)'' @ [NL]) m;
        stack_trace_loop n ld (ld fp) returnAddress m
      })"

definition print_stack_trace :: "env \<Rightarrow> nat \<Rightarrow> u64 \<Rightarrow> machine \<Rightarrow> machine option" where
  "print_stack_trace e depth pc m =
     (let n = recursionCounter m; m = m\<lparr>recursionCounter := n + 1\<rparr> in
      if n > 3 then Some m
      else do {
        m \<leftarrow> print_text (''-'' @ [NL] @ ''-Stack trace :'' @ [NL] @ '' '') m;
        m \<leftarrow> print_text '' Current SEPC: 0x'' m;
        m \<leftarrow> print_hex pc m;
        m \<leftarrow> print_text [NL] m;
        m \<leftarrow> stack_trace_loop depth (stack_memory e) (frame_pointer e) 1 m;
        m \<leftarrow> print_text (''---------------------------------------'' @ [NL]) m;
        Some (m\<lparr>recursionCounter := recursionCounter m - 1\<rparr>)
      })"

text \<open>\<open>killQEMU\<close> up to the store that switches the machine off; what follows it is an endless loop.\<close>

definition killQEMU :: "machine \<Rightarrow> machine option" where
  "killQEMU m = do {
     (d, c) \<leftarrow> empty_console_print_all (dev m) (con (kern m));
     m \<leftarrow> print_text ([NL] @ ''Kernel finished! :)'' @ [NL, NL]) (m\<lparr>dev := d, kern := (kern m)\<lparr>con := c\<rparr>\<rparr>);
     Some (m\<lparr>device_stores := device_stores m @ [(0x100000, 0x5555)]\<rparr>)
   }"

definition error_msg_terminate :: "env \<Rightarrow> string \<Rightarrow> u64 \<Rightarrow> machine \<Rightarrow> machine option" where
  "error_msg_terminate e s pc m = do {
     m \<leftarrow> print_text s m;
     m \<leftarrow> print_stack_trace e STACK_TRACE_DEPTH pc m;
     killQEMU m
   }"

definition checkForNestedSysCalls :: "u64 \<Rightarrow> machine \<Rightarrow> machine option" where
  "checkForNestedSysCalls pc m =
     (if running (kern m) = 0 then Some m
      else do {
        t \<leftarrow> threads (kern m) (running (kern m));
        if body t = 0 then Some m
        else do {
          m \<leftarrow> print_text ''Nested system calls at: 0x'' m;
          m \<leftarrow> print_hex pc m;
          print_text ('' !'' @ [NL]) m
        }
      })"

subsection \<open>The trap handler\<close>

text \<open>The default case of \<open>ecall_handler\<close> prints a message. The model's \<open>ecall_handler\<close> is a function of the kernel without the
  terminal and has the answer of that case only; the message, which touches the terminal only, is printed by
  \<open>handleSupervisorTrap\<close> before the call.\<close>

definition known_code :: "u64 \<Rightarrow> bool" where
  "known_code c \<longleftrightarrow> c \<in> {0x01, 0x02, 0x11, 0x12, 0x13, 0x21, 0x22, 0x23, 0x24, 0x25, 0x26, 0x31, 0x41, 0x42}"

definition unknown_code_message :: "u64 \<Rightarrow> machine \<Rightarrow> machine option" where
  "unknown_code_message c m =
     (if known_code c then Some m
      else do {
        m \<leftarrow> print_text ''ECALLs TrapCode : '' m;
        m \<leftarrow> on_dev (priority_print_int (ucast c) 10 False) m;
        print_text ('' unknown ecallCode'' @ [NL]) m
      })"

text \<open>How a trap ends: \<open>Back a0\<close> is the return to the thread that is now running, with \<open>a0\<close> in its
  register or, for \<open>None\<close>, the register as it was; \<open>Start\<close> the return of a new thread from
  \<open>popSppSpieChangeMod\<close> into its body; \<open>Off\<close> the machine switched off.\<close>

datatype trap_end = Back "u64 option" | Start | Off

definition popSppSpieChangeMod :: "u64 \<Rightarrow> csrs \<Rightarrow> csrs" where
  "popSppSpieChangeMod ra c = w_sepc ra (mc_sstatus SSTATUS_SPP c)"

text \<open>The end of the handler, of the activation whose local variables are \<open>f\<close>.\<close>

definition write_back :: "frame \<Rightarrow> machine \<Rightarrow> machine" where
  "write_back f m = m\<lparr>csr := w_sepc (saved_sepc f) (w_sstatus (saved_sstatus f) (csr m))\<rparr>"

text \<open>After a context switch the thread that is now running goes on: in \<open>threadWrapper\<close> if it is new,
  in its own activation of the handler otherwise.\<close>

definition after_switch :: "env \<Rightarrow> machine \<Rightarrow> (trap_end \<times> machine) option" where
  "after_switch e m = do {
     t \<leftarrow> threads (kern m) (running (kern m));
     if saved_context t = In_threadWrapper
     then Some (Start, m\<lparr>csr := popSppSpieChangeMod (wrapper_address e) (csr m)\<rparr>)
     else do {
       f \<leftarrow> frames m (running (kern m));
       (r, s) \<leftarrow> resume_running (kern m);
       Some (Back r, write_back f (m\<lparr>kern := s\<rparr>))
     }
   }"

definition trap_tail :: "env \<Rightarrow> frame \<Rightarrow> bool \<Rightarrow> u64 option \<Rightarrow> kernel \<Rightarrow> machine \<Rightarrow> (trap_end \<times> machine) option" where
  "trap_tail e f switched a0 s m =
     (if switched then after_switch e (m\<lparr>kern := s, frames := (frames m)(running (kern m) \<mapsto> f)\<rparr>)
      else Some (Back a0, write_back f (m\<lparr>kern := s\<rparr>)))"

definition terminates :: "machine option \<Rightarrow> (trap_end \<times> machine) option" where
  "terminates c = map_option (Pair Off) c"

definition handleSupervisorTrap ::
  "env \<Rightarrow> u64 \<Rightarrow> u64 \<Rightarrow> u64 \<Rightarrow> u64 \<Rightarrow> u64 \<Rightarrow> machine \<Rightarrow> (trap_end \<times> machine) option" where
  "handleSupervisorTrap e a0 a1 a2 a3 a4 m = do {
     let cause = r_scause (csr m);
     let pc = r_sepc (csr m);
     let status = r_sstatus (csr m);
     m \<leftarrow> (if cause = ECALL_S then checkForNestedSysCalls pc m else Some m);
     if cause = ECALL_U \<or> cause = ECALL_S
     then do {
       m \<leftarrow> unknown_code_message a0 m;
       (r, s) \<leftarrow> ecall_handler a0 a1 a2 a3 a4 (kern m);
       trap_tail e \<lparr>saved_sepc = pc + 4, saved_sstatus = status\<rparr> (r = None) r s m
     }
     else if cause = TIMER
     then do {
       (switched, s) \<leftarrow> timer_interrupt_handler (kern m);
       trap_tail e \<lparr>saved_sepc = pc, saved_sstatus = status\<rparr> switched None s m
     }
     else if cause = CONSOLE
     then do {
       (d, s) \<leftarrow> console_interrupt_handler (claimed e) (dev m) (kern m);
       trap_tail e \<lparr>saved_sepc = pc, saved_sstatus = status\<rparr> False None s (m\<lparr>dev := d\<rparr>)
     }
     else if cause = ILLEGAL_INSTRUCTION
     then terminates (error_msg_terminate e (''Illegal instruction!'' @ [NL]) pc m)
     else if cause = ILLEGAL_RD_ADDR
     then terminates (error_msg_terminate e (''Illegal address for reading!'' @ [NL]) pc m)
     else if cause = ILLEGAL_WR_ADDR
     then terminates (error_msg_terminate e (''Illegal address for writing!'' @ [NL]) pc m)
     else terminates (do {
       m \<leftarrow> print_text ''Scause = '' m;
       m \<leftarrow> on_dev (priority_print_int (ucast cause) 2 False) m;
       error_msg_terminate e ([NL] @ ''Unknown interrupt'' @ [NL]) pc m
     })
   }"

text \<open>\<open>threadWrapper\<close>: what a new thread does, \<open>run_body\<close> being the call of its body, which may make system
  calls; the result is that of \<open>thread_exit\<close>.\<close>

definition threadWrapper :: "(u64 \<Rightarrow> u64 \<Rightarrow> kernel \<Rightarrow> kernel option) \<Rightarrow> kernel \<Rightarrow> (u64 option \<times> kernel) option" where
  "threadWrapper run_body s = do {
     t \<leftarrow> threads s (running s);
     s \<leftarrow> run_body (body t) (arg t) s;
     syscall 0x12 0 0 0 0 s
   }"

end
