(* ===== verification/TrapFrames.thy ===== *)
theory TrapFrames
  imports Trap SchedulerProps
begin

text \<open>
  The points at which switched-out threads stand, through all operations of the kernel: only a
  context switch changes them, for the thread it leaves. From this follows that every such thread has
  its frame of the trap handler.
\<close>

subsection \<open>Operations that leave all contexts alone\<close>

definition ctx :: "kernel \<Rightarrow> u64 \<Rightarrow> resume_point option" where
  "ctx s t = map_option saved_context (threads s t)"

text \<open>The running thread and the contexts of all threads.\<close>

definition pts :: "kernel \<Rightarrow> u64 \<times> (u64 \<Rightarrow> resume_point option)" where
  "pts s = (running s, ctx s)"

named_theorems same "operations that leave the running thread and all contexts alone"

lemma pts_fields [simp]:
  "pts (s\<lparr>kheap := h\<rparr>) = pts s" "pts (s\<lparr>queueThreads := q\<rparr>) = pts s" "pts (s\<lparr>listAsleepThreads := q\<rparr>) = pts s"
  "pts (s\<lparr>numOfThreadsAsleep := n\<rparr>) = pts s" "pts (s\<lparr>sems := y\<rparr>) = pts s" "pts (s\<lparr>con := c\<rparr>) = pts s" "pts (s\<lparr>umem := u\<rparr>) = pts s"
  "pts (s\<lparr>allSemaphores := q\<rparr>) = pts s" "pts (s\<lparr>numOfAllSemaphores := n\<rparr>) = pts s" "pts (s\<lparr>sip := n\<rparr>) = pts s"
  "pts (s\<lparr>SYS_TIME := n\<rparr>) = pts s" "pts (s\<lparr>runningThread_CPU_time := n\<rparr>) = pts s" "pts (s\<lparr>ID := n\<rparr>) = pts s"
  "pts (s\<lparr>numOfSystemThreads := n\<rparr>) = pts s"
  by (simp_all add: pts_def ctx_def fun_eq_iff)

lemma upd_thread_pts:
  assumes "upd_thread p f s = Some s'" "\<And>x. saved_context (f x) = saved_context x"
  shows "pts s' = pts s"
  using assms by (auto simp: upd_thread_def pts_def ctx_def fun_eq_iff split: option.splits)

lemma upd_fields_same [same]:
  "upd_thread p (threadState_update st) s = Some s' \<Longrightarrow> pts s' = pts s" "upd_thread p (semStatus_update ss) s = Some s' \<Longrightarrow> pts s' = pts s"
  "upd_thread p (mySem_update ms) s = Some s' \<Longrightarrow> pts s' = pts s" "upd_thread p (timeForWakingUp_update wt) s = Some s' \<Longrightarrow> pts s' = pts s"
  "upd_thread p (myMagicNumber_update mn) s = Some s' \<Longrightarrow> pts s' = pts s" "upd_thread p (\<lambda>t. t\<lparr>numOfChildren := g t\<rparr>) s = Some s' \<Longrightarrow> pts s' = pts s"
  "upd_thread p (\<lambda>t. t\<lparr>myID := i t, myMagicNumber := j t\<rparr>) s = Some s' \<Longrightarrow> pts s' = pts s"
  by (erule upd_thread_pts; simp)+

lemma upd_sem_same [same]: "upd_sem p f s = Some s' \<Longrightarrow> pts s' = pts s"
  by (auto simp: upd_sem_def split: option.splits)

lemma put_same [same]: "put t s = Some s' \<Longrightarrow> pts s' = pts s"
  by (auto simp: put_def Option.bind_eq_Some_conv)

lemma get_same [same]: "get s = Some (t, s') \<Longrightarrow> pts s' = pts s"
  by (auto simp: get_def Option.bind_eq_Some_conv)

lemma setters_same [same]:
  "setFinished t s = Some s' \<Longrightarrow> pts s' = pts s" "set_threadState t st s = Some (r, s') \<Longrightarrow> pts s' = pts s"
  "set_timeForWakingUp t w s = Some (r, s') \<Longrightarrow> pts s' = pts s" "set_mySem t p s = Some s' \<Longrightarrow> pts s' = pts s"
  "set_threadsSemStatus t ss s = Some s' \<Longrightarrow> pts s' = pts s"
  by (auto simp: setFinished_def set_threadState_def set_timeForWakingUp_def set_mySem_def set_threadsSemStatus_def Option.bind_eq_Some_conv
      dest!: same split: if_splits)

lemma sleep_same [same]:
  "insert_asleep t s = Some s' \<Longrightarrow> pts s' = pts s" "insert_ordered_in_list_of_sleeping_threads t s = Some (b, s') \<Longrightarrow> pts s' = pts s"
  "remove_thread_from_sleep t s = Some (b, s') \<Longrightarrow> pts s' = pts s" "sleep_wakeup t s = Some s' \<Longrightarrow> pts s' = pts s"
proof -
  show a: "insert_asleep t s = Some s' \<Longrightarrow> pts s' = pts s" for s' by (auto simp: insert_asleep_def Option.bind_eq_Some_conv)
  show "insert_ordered_in_list_of_sleeping_threads t s = Some (b, s') \<Longrightarrow> pts s' = pts s"
    by (auto simp: insert_ordered_in_list_of_sleeping_threads_def Option.bind_eq_Some_conv dest!: a split: if_splits)
  show "remove_thread_from_sleep t s = Some (b, s') \<Longrightarrow> pts s' = pts s" by (auto simp: remove_thread_from_sleep_def Option.bind_eq_Some_conv)
  show "sleep_wakeup t s = Some s' \<Longrightarrow> pts s' = pts s" by (auto simp: sleep_wakeup_def Option.bind_eq_Some_conv dest!: same)
qed

lemma sem_addLast_same [same]: "sem_addLast p t s = Some s' \<Longrightarrow> pts s' = pts s"
  by (auto simp: sem_addLast_def Option.bind_eq_Some_conv dest!: same)

lemma generateWAITResponses_same [same]: "generateWAITResponses s = Some (r, s') \<Longrightarrow> pts s' = pts s"
  by (auto simp: generateWAITResponses_def Let_def Option.bind_eq_Some_conv dest!: same)

lemma resumes_same [same]:
  "wait_resume s = Some (r, s') \<Longrightarrow> pts s' = pts s" "timedWait_resume p s = Some (r, s') \<Longrightarrow> pts s' = pts s"
  by (auto simp: wait_resume_def timedWait_resume_def Let_def Option.bind_eq_Some_conv dest!: same)

lemma tryWait_same [same]: "tryWait p s = Some (r, s') \<Longrightarrow> pts s' = pts s"
  by (auto simp: tryWait_def Option.bind_eq_Some_conv dest!: same)

lemma unblock_same [same]: "unblock cause p s = Some s' \<Longrightarrow> pts s' = pts s"
  by (auto simp: unblock_def Option.bind_eq_Some_conv dest!: same split: if_splits)

lemma signal_same [same]: "signal p s = Some (r, s') \<Longrightarrow> pts s' = pts s"
  by (auto simp: signal_def Option.bind_eq_Some_conv dest!: same split: if_splits)

lemma unblockedByTime_same [same]: "unblockedByTime p t s = Some s' \<Longrightarrow> pts s' = pts s"
  by (auto simp: unblockedByTime_def Option.bind_eq_Some_conv dest!: same split: if_splits)

lemma wakeThreadUp_same [same]: "wakeThreadUp t s = Some s' \<Longrightarrow> pts s' = pts s"
  by (auto simp: wakeThreadUp_def Option.bind_eq_Some_conv dest!: same split: if_splits)

lemma foreachWhile_same:
  assumes "\<And>d s s'. func d s = Some s' \<Longrightarrow> pts s' = pts s"
  shows "k_foreachWhile func condition xs s = Some s' \<Longrightarrow> pts s' = pts s"
  by (induction xs arbitrary: s) (auto simp: Option.bind_eq_Some_conv dest!: assms split: if_splits)

lemma wake_same [same]: "wake_asleep_threads_up s = Some s' \<Longrightarrow> pts s' = pts s"
  unfolding wake_asleep_threads_up_def by (rule foreachWhile_same [OF wakeThreadUp_same])

lemma unblockAll_same [same]: "unblockAll cause p s = Some s' \<Longrightarrow> pts s' = pts s"
proof (rule unblockAll.raw_induct [where P = "\<lambda>cause p s s'. pts s' = pts s"])
  fix f :: "threadsSemStatus \<Rightarrow> u64 \<Rightarrow> kernel \<Rightarrow> kernel option" and cause p s s'
  assume ih: "\<And>cause p s s'. f cause p s = Some s' \<Longrightarrow> pts s' = pts s"
  show "do {
      x \<leftarrow> sems s p;
      if sint (val x) < 0
      then do { s \<leftarrow> unblock cause p s; s \<leftarrow> upd_sem p (\<lambda>x. x\<lparr>val := val x + 1\<rparr>) s; f cause p s }
      else Some s
    } = Some s' \<Longrightarrow> pts s' = pts s"
    by (auto simp: Option.bind_eq_Some_conv dest!: same ih split: if_splits)
qed

lemma semaphores_same [same]:
  "new_sem v s = Some (p, s') \<Longrightarrow> pts s' = pts s" "delete_sem q s = Some s' \<Longrightarrow> pts s' = pts s"
  by (auto simp: new_sem_def delete_sem_def Let_def Option.bind_eq_Some_conv dest!: same split: if_splits)

lemma console_init_same [same]: "console_init s = Some s' \<Longrightarrow> pts s' = pts s"
  by (auto simp: console_init_def upd_con_def Let_def Option.bind_eq_Some_conv dest!: same split: if_splits)

lemma console_same [same]:
  "putCharInBuffer ch s = Some (r, s') \<Longrightarrow> pts s' = pts s" "read_get s = (c, s') \<Longrightarrow> pts s' = pts s"
  by (auto simp: putCharInBuffer_def read_get_def split_beta Let_def Option.bind_eq_Some_conv dest!: same)

lemma user_store_same [same]: "user_store a v s = Some s' \<Longrightarrow> pts s' = pts s"
  by (auto simp: user_store_def split: if_splits)

lemma resume_running_same [same]: "resume_running s = Some (r, s') \<Longrightarrow> pts s' = pts s"
proof -
  assume e: "resume_running s = Some (r, s')"
  have g: "getChar_resume s = Some (ch, s') \<Longrightarrow> pts s' = pts s" for ch s'
    by (auto simp: getChar_resume_def Option.bind_eq_Some_conv dest!: same)
  from e obtain x where "threads s (running s) = Some x" by (auto simp: resume_running_def Option.bind_eq_Some_conv)
  with e show ?thesis
    by (cases "saved_context x") (auto simp: resume_running_def Option.bind_eq_Some_conv dest!: same g)
qed

subsection \<open>Creation, deletion and the switch\<close>

text \<open>\<open>keeps t s s'\<close>: a thread other than \<open>t\<close> that lives afterwards is new or stands where it stood.\<close>

definition keeps :: "u64 \<Rightarrow> kernel \<Rightarrow> kernel \<Rightarrow> bool" where
  "keeps t s s' \<longleftrightarrow> (\<forall>u k. u \<noteq> t \<longrightarrow> ctx s' u = Some k \<longrightarrow> k = In_threadWrapper \<or> ctx s u = Some k)"

lemma keeps_pts: "pts s' = pts s \<Longrightarrow> keeps t s s'"
  by (simp add: keeps_def pts_def)

lemma keeps_cong: "pts s1 = pts s \<Longrightarrow> keeps t s1 s2 = keeps t s s2" "pts s1 = pts s \<Longrightarrow> keeps t s2 s1 = keeps t s2 s"
  by (simp_all add: keeps_def pts_def)

lemma pts_new_thread:
  "pts (s\<lparr>kheap := h, threads := (threads s)(p \<mapsto> new_thread bdy ar stk s0)\<rparr>) = (running s, (ctx s)(p \<mapsto> In_threadWrapper))"
  by (simp add: pts_def ctx_def new_thread_def fun_eq_iff)

lemma createThread_pts:
  assumes "createThread bdy ar stk s = Some (p, s')" "running s \<noteq> 0"
  shows "pts s' = (running s, (ctx s)(p \<mapsto> In_threadWrapper))"
  using assms by (auto simp: createThread_def pts_new_thread Let_def Option.bind_eq_Some_conv dest!: same split: if_splits) (auto simp: pts_def)

lemma delete_thread_pts:
  assumes "delete_thread t s = Some s'"
  shows "pts s' = (running s, (ctx s)(t := None))"
proof -
  have "disableThread t s = Some s1 \<Longrightarrow> pts s1 = pts s" for s1
    by (auto simp: disableThread_def Option.bind_eq_Some_conv dest!: same split: if_splits)
  with assms show ?thesis
    by (auto simp: delete_thread_def Option.bind_eq_Some_conv) (auto simp: pts_def ctx_def fun_eq_iff)
qed

definition fewer :: "kernel \<Rightarrow> kernel \<Rightarrow> bool" where
  "fewer s s' \<longleftrightarrow> running s' = running s \<and> (\<forall>u k. ctx s' u = Some k \<longrightarrow> ctx s u = Some k)"

lemma fewer_pts: "pts s' = pts s \<Longrightarrow> fewer s s'" "pts s1 = pts s \<Longrightarrow> fewer s1 s2 = fewer s s2" "pts s1 = pts s \<Longrightarrow> fewer s2 s1 = fewer s2 s"
  by (simp_all add: fewer_def pts_def)

lemma fewer_trans: "fewer s s1 \<Longrightarrow> fewer s1 s2 \<Longrightarrow> fewer s s2"
  by (simp add: fewer_def)

lemma delete_thread_fewer: "delete_thread t s = Some s' \<Longrightarrow> fewer s s'"
  using delete_thread_pts [of t s s'] by (auto simp: fewer_def pts_def)

lemma deleteThread_inDispatch_fewer: "deleteThread_inDispatch t s = Some s' \<Longrightarrow> fewer s s'"
proof -
  have d: "delete_thread t (s\<lparr>queueThreads := q, kheap := h\<rparr>) = Some s' \<Longrightarrow> fewer s s'" for q h
    using delete_thread_fewer [of t "s\<lparr>queueThreads := q, kheap := h\<rparr>" s'] fewer_pts(2) [of "s\<lparr>queueThreads := q, kheap := h\<rparr>" s s'] by simp
  have "fewer s (s\<lparr>queueThreads := q, kheap := h\<rparr>)" for q h by (rule fewer_pts) simp
  moreover have "fewer s s" by (rule fewer_pts) simp
  ultimately show "deleteThread_inDispatch t s = Some s' \<Longrightarrow> fewer s s'"
    using d by (auto simp: deleteThread_inDispatch_def Let_def Option.bind_eq_Some_conv split: if_splits)
qed

lemma foreachWhile_fewer:
  assumes "\<And>d s s'. func d s = Some s' \<Longrightarrow> fewer s s'"
  shows "k_foreachWhile func condition xs s = Some s' \<Longrightarrow> fewer s s'"
proof (induction xs arbitrary: s)
  case Nil
  then show ?case by (auto intro: fewer_pts)
next
  case (Cons x xs)
  obtain c d where x: "x = (c, d)" by fastforce
  have "fewer s s" by (rule fewer_pts) simp
  with Cons show ?case unfolding x by (auto simp: Option.bind_eq_Some_conv split: if_splits intro: fewer_trans dest: assms)
qed

lemma dispatch_keeps:
  assumes "dispatch k s = Some s'"
  shows "keeps (running s) s s'"
proof -
  obtain x s1 f s2 s3 new s4 s5 where
    s1: "(if readyToRun x then upd_thread (running s) (threadState_update (\<lambda>_. READY)) (s\<lparr>runningThread_CPU_time := 0\<rparr>) \<bind> put (running s)
      else Some (s\<lparr>runningThread_CPU_time := 0\<rparr>)) = Some s1" and
    s2: "(if f then delete_thread (running s) s1 else Some s1) = Some s2" and
    s3: "k_foreachWhile deleteThread_inDispatch threadDEAD (queueThreads s2) s2 = Some s3" and
    s4: "get s3 = Some (new, s4)" and s5: "upd_thread new (threadState_update (\<lambda>_. RUNNING)) (s4\<lparr>running := new\<rparr>) = Some s5" and
    s': "s' = contextSwitch (running s) k s5"
    using assms
    by (simp add: dispatch_def Let_def Option.bind_eq_Some_conv split_paired_Ex cong: if_cong) (elim exE conjE, rule that, assumption+, rule sym, assumption)
  have "pts s1 = pts s" using s1 by (auto simp: Option.bind_eq_Some_conv dest!: same split: if_splits)
  moreover have "fewer s1 s2" using s2 delete_thread_fewer fewer_pts(1) by (auto split: if_splits)
  moreover have "fewer s2 s3" by (rule foreachWhile_fewer [OF deleteThread_inDispatch_fewer s3])
  moreover have "pts s4 = pts s3" using s4 by (auto dest!: same)
  ultimately have "ctx s4 u = Some j \<Longrightarrow> ctx s u = Some j" for u j by (auto simp: fewer_def pts_def)
  moreover have "ctx s5 = ctx s4" using s5 by (auto simp: pts_def ctx_def fun_eq_iff dest!: same)
  moreover have "ctx s' u = ctx s5 u" if "u \<noteq> running s" for u
    using that unfolding s' contextSwitch_def by (auto simp: ctx_def split: option.splits)
  ultimately show ?thesis by (auto simp: keeps_def)
qed

subsection \<open>Calls and interrupts\<close>

text \<open>A handler that returns to its caller has not changed the running thread; one that has switched is
  the only one that moved the thread it left.\<close>

definition moved :: "bool \<Rightarrow> kernel \<Rightarrow> kernel \<Rightarrow> bool" where
  "moved sw s s' \<longleftrightarrow> keeps (running s) s s' \<and> (\<not> sw \<longrightarrow> running s' = running s)"

lemma moved_pts: "pts s' = pts s \<Longrightarrow> moved sw s s'"
  by (auto simp: moved_def keeps_pts pts_def intro: keeps_pts)

lemma moved_cong: "pts s1 = pts s \<Longrightarrow> moved sw s1 s2 = moved sw s s2" "pts s1 = pts s \<Longrightarrow> moved sw s2 s1 = moved sw s2 s"
proof -
  assume e: "pts s1 = pts s"
  then have r: "running s1 = running s" by (simp add: pts_def)
  show "moved sw s1 s2 = moved sw s s2" "moved sw s2 s1 = moved sw s2 s" unfolding moved_def r keeps_cong [OF e] by simp_all
qed

lemma dispatch_moved:
  assumes "dispatch k s1 = Some s'" "pts s1 = pts s"
  shows "moved True s s'"
  using dispatch_keeps [OF assms(1)] moved_cong(1) [OF assms(2), of True s'] by (simp add: moved_def)

lemma waits_moved:
  "wait k p s = Some (r, s') \<Longrightarrow> moved (r = None) s s'" "timedWait p d s = Some (r, s') \<Longrightarrow> moved (r = None) s s'"
proof -
  have b: "moved True s s'" if "block k p s1 = Some s'" "pts s1 = pts s" for k s1 s'
    using that by (auto simp: block_def Let_def Option.bind_eq_Some_conv dest!: same elim!: dispatch_moved)
  have t: "moved True s s'" if "timedBlock p d s1 = Some s'" "pts s1 = pts s" for s1 s'
    using that by (auto simp: timedBlock_def Let_def Option.bind_eq_Some_conv dest!: same elim!: dispatch_moved)
  show "wait k p s = Some (r, s') \<Longrightarrow> moved (r = None) s s'"
    by (auto simp: wait_def Option.bind_eq_Some_conv dest!: same b split: if_splits intro: moved_pts)
  show "timedWait p d s = Some (r, s') \<Longrightarrow> moved (r = None) s s'"
    by (auto simp: timedWait_def Option.bind_eq_Some_conv dest!: same t split: if_splits intro: moved_pts)
qed

lemma sleep_moved: "put_runningThread_to_sleep d s = Some (sw, s') \<Longrightarrow> moved sw s s'"
  by (auto simp: put_runningThread_to_sleep_def put_thread_to_sleep_def Let_def Option.bind_eq_Some_conv dest!: same split: if_splits
      elim!: dispatch_moved intro: moved_pts)

lemma exit_moved: "context_exit s = Some s' \<Longrightarrow> moved True s s'"
  by (auto simp: context_exit_def Let_def Option.bind_eq_Some_conv dest!: same split: if_splits elim!: dispatch_moved)

lemma getc_moved: "getCharFromBuffer s = Some (r, s') \<Longrightarrow> moved (r = None) s s'"
proof -
  assume "getCharFromBuffer s = Some (r, s')"
  then obtain s1 r2 s2 where 1: "console_init s = Some s1" "wait In_getChar (characterReadyToGet (con s1)) s1 = Some (r2, s2)"
    "(if r2 = None then Some (None, s2) else let (ch, s) = read_get s2 in Some (Some ch, s)) = Some (r, s')"
    by (auto simp: getCharFromBuffer_def Option.bind_eq_Some_conv)
  have m: "moved (r2 = None) s s2" using waits_moved(1) [OF 1(2)] moved_cong(1) [OF console_init_same [OF 1(1)]] by simp
  have r: "(r = None) = (r2 = None)" using 1(3) by (auto simp: split_beta Let_def split: if_splits)
  have "pts (snd (read_get s2)) = pts s2" using console_same(2) [of s2 "fst (read_get s2)" "snd (read_get s2)"] by simp
  then have "pts s' = pts s2" using 1(3) by (auto simp: split_beta Let_def split: if_splits)
  from moved_cong(2) [OF this] m show ?thesis unfolding r by simp
qed

lemma createThread_moved:
  assumes "createThread bdy ar stk s = Some (p, s')" "running s \<noteq> 0"
  shows "moved sw s s'"
proof -
  have e: "running s' = running s" "ctx s' = (ctx s)(p \<mapsto> In_threadWrapper)" using createThread_pts [OF assms] by (simp_all add: pts_def)
  show ?thesis unfolding moved_def keeps_def e by simp
qed

lemma ecall_moved:
  assumes "ecall_handler c a1 a2 a3 a4 s = Some (r, s')" "running s \<noteq> 0"
  shows "moved (r = None) s s'"
proof -
  have cr: "moved sw s s'" if "pts s' = pts s1" "createThread a2 a3 a4 s = Some (p, s1)" for sw p s1
    using createThread_moved [OF that(2) assms(2)] moved_cong(2) [OF that(1)] by simp
  show ?thesis
    using assms(1) unfolding ecall_handler_def
    by (auto simp: mem_alloc_wrapper_def mem_free_wrapper_def thread_create_wrapper_def thread_exit_wrapper_def thread_dispatch_wrapper_def
        sem_open_wrapper_def sem_close_wrapper_def sem_wait_wrapper_def sem_signal_wrapper_def sem_timedwait_wrapper_def sem_trywait_wrapper_def
        time_sleep_wrapper_def getc_wrapper_def putc_wrapper_def of_answer_def Option.bind_eq_Some_conv
        dest!: same waits_moved sleep_moved exit_moved getc_moved split: if_splits intro: moved_pts cr elim!: dispatch_moved)
qed

lemma timer_moved: "timer_interrupt_handler s = Some (sw, s') \<Longrightarrow> moved sw s s'"
  by (auto simp: timer_interrupt_handler_def mc_sip_def Let_def Option.bind_eq_Some_conv dest!: same split: if_splits
      elim!: dispatch_moved intro: moved_pts)

end
