(* ===== verification/UserApi.thy ===== *)
theory UserApi
  imports SysCalls
begin

text \<open>
  \<open>src/syscall_c.cpp\<close>: the C interface of the user. Every function puts a code and its arguments into the
  registers \<open>a0\<close> to \<open>a5\<close>, executes \<open>ecall\<close> and returns what it finds in \<open>a0\<close>. The registers that a
  function does not set keep what they hold: the parameter \<open>J\<close> (\<open>J i\<close> for \<open>a\<close>\<open>i\<close>). As for \<open>syscall\<close>, the
  value returned is that of the thread that is running afterwards, and \<open>None\<close> for one that starts.

  An argument of type \<open>unsigned\<close> is in its register as the calling convention has it, sign extended.
\<close>


type_synonym registers = "nat \<Rightarrow> u64"

definition ecall :: "registers \<Rightarrow> u64 \<Rightarrow> u64 list \<Rightarrow> kernel \<Rightarrow> (u64 option \<times> kernel) option" where
  "ecall J code args s =
     (let a = (\<lambda>i. if i \<le> length args then args ! (i - 1) else J i)
      in syscall code (a 1) (a 2) (a 3) (a 4) s)"

text \<open>\<open>int result\<close>: the low 32 bits of \<open>a0\<close>.\<close>

definition int_result :: "u64 \<Rightarrow> int" where "int_result a0 = sint (ucast a0 :: u32)"

definition int_call :: "(u64 option \<times> kernel) option \<Rightarrow> (int option \<times> kernel) option" where
  "int_call c = do { (r, s) \<leftarrow> c; Some (map_option int_result r, s) }"

definition char_call :: "(u64 option \<times> kernel) option \<Rightarrow> (u8 option \<times> kernel) option" where
  "char_call c = do { (r, s) \<leftarrow> c; Some (map_option ucast r, s) }"

definition HANDLE_NULL :: int where "HANDLE_NULL = -3"

subsection \<open>Memory\<close>

definition mem_blocks :: "u64 \<Rightarrow> u64" where
  "mem_blocks n = (SIZE_HEADER + n + MEM_BLOCK_SIZE - 1) div MEM_BLOCK_SIZE"

definition mem_alloc :: "registers \<Rightarrow> u64 \<Rightarrow> kernel \<Rightarrow> (u64 option \<times> kernel) option" where
  "mem_alloc J n s = ecall J 0x01 [mem_blocks n] s"

definition mem_free :: "registers \<Rightarrow> u64 \<Rightarrow> kernel \<Rightarrow> (int option \<times> kernel) option" where
  "mem_free J ptr s = int_call (ecall J 0x02 [ptr] s)"

subsection \<open>Threads\<close>

text \<open>\<open>mem_alloc\<close> comes back to its caller, so its result is there.\<close>

definition thread_create :: "registers \<Rightarrow> u64 \<Rightarrow> u64 \<Rightarrow> u64 \<Rightarrow> kernel \<Rightarrow> (int option \<times> kernel) option" where
  "thread_create J handle start_routine ar s = do {
     (stack_space, s) \<leftarrow> mem_alloc J DEFAULT_STACK_SIZE s;
     stack_space \<leftarrow> stack_space;
     if stack_space = 0 then Some (Some (-1), s)
     else int_call (ecall J 0x11 [handle, start_routine, ar, stack_space + DEFAULT_STACK_SIZE div 8 * 8] s)
   }"

definition thread_exit :: "registers \<Rightarrow> kernel \<Rightarrow> (int option \<times> kernel) option" where
  "thread_exit J s = int_call (ecall J 0x12 [] s)"

definition thread_dispatch :: "registers \<Rightarrow> kernel \<Rightarrow> (int option \<times> kernel) option" where
  "thread_dispatch J s = int_call (ecall J 0x13 [] s)"

subsection \<open>Semaphores\<close>

definition sem_open :: "registers \<Rightarrow> u64 \<Rightarrow> u32 \<Rightarrow> kernel \<Rightarrow> (int option \<times> kernel) option" where
  "sem_open J handle v s = int_call (ecall J 0x21 [handle, scast v] s)"

definition sem_close :: "registers \<Rightarrow> u64 \<Rightarrow> kernel \<Rightarrow> (int option \<times> kernel) option" where
  "sem_close J handle s = (if handle = 0 then Some (Some HANDLE_NULL, s) else int_call (ecall J 0x22 [handle] s))"

definition sem_wait :: "registers \<Rightarrow> u64 \<Rightarrow> kernel \<Rightarrow> (int option \<times> kernel) option" where
  "sem_wait J handle s = (if handle = 0 then Some (Some HANDLE_NULL, s) else int_call (ecall J 0x23 [handle] s))"

definition sem_signal :: "registers \<Rightarrow> u64 \<Rightarrow> kernel \<Rightarrow> (int option \<times> kernel) option" where
  "sem_signal J handle s = (if handle = 0 then Some (Some HANDLE_NULL, s) else int_call (ecall J 0x24 [handle] s))"

definition sem_timedwait :: "registers \<Rightarrow> u64 \<Rightarrow> u64 \<Rightarrow> kernel \<Rightarrow> (int option \<times> kernel) option" where
  "sem_timedwait J handle timeout s = (if handle = 0 then Some (Some HANDLE_NULL, s) else int_call (ecall J 0x25 [handle, timeout] s))"

definition sem_trywait :: "registers \<Rightarrow> u64 \<Rightarrow> kernel \<Rightarrow> (int option \<times> kernel) option" where
  "sem_trywait J handle s = (if handle = 0 then Some (Some HANDLE_NULL, s) else int_call (ecall J 0x26 [handle] s))"

subsection \<open>Time and console\<close>

definition time_sleep :: "registers \<Rightarrow> u64 \<Rightarrow> kernel \<Rightarrow> (int option \<times> kernel) option" where
  "time_sleep J timeAsleep s = (if timeAsleep = 0 then Some (Some 0, s) else int_call (ecall J 0x31 [timeAsleep] s))"

definition getc :: "registers \<Rightarrow> kernel \<Rightarrow> (u8 option \<times> kernel) option" where
  "getc J s = char_call (ecall J 0x41 [] s)"

definition putc :: "registers \<Rightarrow> u8 \<Rightarrow> kernel \<Rightarrow> kernel option" where
  "putc J c s = map_option snd (ecall J 0x42 [ucast c] s)"

subsection \<open>Calls the kernel does not know\<close>

definition get_thread_ID :: "registers \<Rightarrow> kernel \<Rightarrow> (int option \<times> kernel) option" where
  "get_thread_ID J s = int_call (ecall J 0x51 [] s)"

definition modification_sys_call ::
  "registers \<Rightarrow> u64 \<Rightarrow> u64 \<Rightarrow> u64 \<Rightarrow> u64 \<Rightarrow> u64 \<Rightarrow> kernel \<Rightarrow> (u64 option \<times> kernel) option" where
  "modification_sys_call J param1 param2 param3 param4 param5 s = ecall J 0x61 [param1, param2, param3, param4] s"

end
