(* ===== verification/CppApi.thy ===== *)
theory CppApi
  imports UserApi
begin

text \<open>
  The C++ interface: \<open>h/syscall_cpp.hpp\<close> and \<open>src/CPP_*.cpp\<close>. An object is in the user's memory at \<open>this\<close>: the
  pointer to its virtual functions, then its members. A virtual function is a parameter; the address of
  a static function that is given to \<open>thread_create\<close> is one too.
\<close>

definition myHandle_at :: "u64 \<Rightarrow> u64" where "myHandle_at this = this + 8"
definition body_at :: "u64 \<Rightarrow> u64" where "body_at this = this + 16"
definition arg_at :: "u64 \<Rightarrow> u64" where "arg_at this = this + 24"
definition period_at :: "u64 \<Rightarrow> u64" where "period_at this = this + 32"

subsection \<open>\<open>new\<close> and \<open>delete\<close>\<close>

definition operator_new :: "registers \<Rightarrow> u64 \<Rightarrow> kernel \<Rightarrow> (u64 option \<times> kernel) option" where
  "operator_new J n s = mem_alloc J n s"

definition operator_new_array :: "registers \<Rightarrow> u64 \<Rightarrow> kernel \<Rightarrow> (u64 option \<times> kernel) option" where
  "operator_new_array J n s = mem_alloc J n s"

definition operator_delete :: "registers \<Rightarrow> u64 \<Rightarrow> kernel \<Rightarrow> kernel option" where
  "operator_delete J p s = map_option snd (mem_free J p s)"

definition operator_delete_array :: "registers \<Rightarrow> u64 \<Rightarrow> kernel \<Rightarrow> kernel option" where
  "operator_delete_array J p s = map_option snd (mem_free J p s)"

subsection \<open>Threads\<close>

definition Thread_init :: "u64 \<Rightarrow> u64 \<Rightarrow> u64 \<Rightarrow> kernel \<Rightarrow> kernel option" where
  "Thread_init this bdy ar s = do {
     s \<leftarrow> user_store (arg_at this) ar s;
     s \<leftarrow> user_store (body_at this) bdy s;
     user_store (myHandle_at this) 0 s
   }"

definition Thread_init_default :: "u64 \<Rightarrow> kernel \<Rightarrow> kernel option" where
  "Thread_init_default this s = do {
     s \<leftarrow> user_store (myHandle_at this) 0 s;
     s \<leftarrow> user_store (body_at this) 0 s;
     user_store (arg_at this) 0 s
   }"

text \<open>\<open>run_wrapper\<close> is the address of \<open>Thread::run_wrapper\<close>.\<close>

definition Thread_start :: "registers \<Rightarrow> u64 \<Rightarrow> u64 \<Rightarrow> kernel \<Rightarrow> (int option \<times> kernel) option" where
  "Thread_start J run_wrapper this s =
     (if umem s (myHandle_at this) \<noteq> 0 then Some (Some (-1), s)
      else if umem s (body_at this) \<noteq> 0
      then thread_create J (myHandle_at this) (umem s (body_at this)) (umem s (arg_at this)) s
      else thread_create J (myHandle_at this) run_wrapper this s)"

definition Thread_run_wrapper :: "(u64 \<Rightarrow> kernel \<Rightarrow> kernel option) \<Rightarrow> u64 \<Rightarrow> kernel \<Rightarrow> kernel option" where
  "Thread_run_wrapper run ptr s = (if ptr = 0 then Some s else run ptr s)"

definition Thread_dispatch :: "registers \<Rightarrow> kernel \<Rightarrow> (int option \<times> kernel) option" where
  "Thread_dispatch J s = thread_dispatch J s"

definition Thread_sleep :: "registers \<Rightarrow> u64 \<Rightarrow> kernel \<Rightarrow> (int option \<times> kernel) option" where
  "Thread_sleep J timeForSleeping s = time_sleep J timeForSleeping s"

subsection \<open>Semaphores\<close>

definition Semaphore_init :: "registers \<Rightarrow> u64 \<Rightarrow> u32 \<Rightarrow> kernel \<Rightarrow> kernel option" where
  "Semaphore_init J this v s = map_option snd (sem_open J (myHandle_at this) v s)"

definition Semaphore_destroy :: "registers \<Rightarrow> u64 \<Rightarrow> kernel \<Rightarrow> kernel option" where
  "Semaphore_destroy J this s = map_option snd (sem_close J (umem s (myHandle_at this)) s)"

definition Semaphore_wait :: "registers \<Rightarrow> u64 \<Rightarrow> kernel \<Rightarrow> (int option \<times> kernel) option" where
  "Semaphore_wait J this s =
     (if umem s (myHandle_at this) = 0 then Some (Some (-10), s) else sem_wait J (umem s (myHandle_at this)) s)"

definition Semaphore_signal :: "registers \<Rightarrow> u64 \<Rightarrow> kernel \<Rightarrow> (int option \<times> kernel) option" where
  "Semaphore_signal J this s =
     (if umem s (myHandle_at this) = 0 then Some (Some (-10), s) else sem_signal J (umem s (myHandle_at this)) s)"

definition Semaphore_timedWait :: "registers \<Rightarrow> u64 \<Rightarrow> u64 \<Rightarrow> kernel \<Rightarrow> (int option \<times> kernel) option" where
  "Semaphore_timedWait J this timeToWait s =
     (if umem s (myHandle_at this) = 0 then Some (Some (-10), s) else sem_timedwait J (umem s (myHandle_at this)) timeToWait s)"

definition Semaphore_tryWait :: "registers \<Rightarrow> u64 \<Rightarrow> kernel \<Rightarrow> (int option \<times> kernel) option" where
  "Semaphore_tryWait J this s =
     (if umem s (myHandle_at this) = 0 then Some (Some (-10), s) else sem_trywait J (umem s (myHandle_at this)) s)"

subsection \<open>Periodic threads\<close>

text \<open>\<open>wrapper\<close> is the address of \<open>PeriodicThread::periodicActivation_wrapper\<close>.\<close>

definition PeriodicThread_init :: "u64 \<Rightarrow> u64 \<Rightarrow> u64 \<Rightarrow> kernel \<Rightarrow> kernel option" where
  "PeriodicThread_init wrapper this periodWaiting s = do {
     s \<leftarrow> Thread_init this wrapper this s;
     s \<leftarrow> user_store (period_at this) periodWaiting s;
     if periodWaiting = 0 then user_store (period_at this) 1 s else Some s
   }"

definition PeriodicThread_terminate :: "u64 \<Rightarrow> kernel \<Rightarrow> kernel option" where
  "PeriodicThread_terminate this s = user_store (period_at this) 0 s"

text \<open>One turn of the loop of \<open>periodicActivation_wrapper\<close> up to the end of its \<open>sleep\<close>, or \<open>False\<close> when the
  function returns. \<open>activation\<close> is the virtual \<open>periodicActivation\<close>.\<close>

definition periodicActivation_turn ::
  "registers \<Rightarrow> (u64 \<Rightarrow> kernel \<Rightarrow> kernel option) \<Rightarrow> u64 \<Rightarrow> kernel \<Rightarrow> (bool \<times> int option \<times> kernel) option" where
  "periodicActivation_turn J activation ptr s =
     (if ptr = 0 then Some (False, None, s)
      else if umem s (period_at ptr) > 0
      then do {
        s \<leftarrow> activation ptr s;
        (r, s) \<leftarrow> Thread_sleep J (umem s (period_at ptr)) s;
        Some (True, r, s)
      }
      else Some (False, None, s))"

subsection \<open>Console\<close>

definition Console_getc :: "registers \<Rightarrow> kernel \<Rightarrow> (u8 option \<times> kernel) option" where
  "Console_getc J s = getc J s"

definition Console_putc :: "registers \<Rightarrow> u8 \<Rightarrow> kernel \<Rightarrow> kernel option" where
  "Console_putc J c s = putc J c s"

end
