(* ===== verification/SystemThreads.thy ===== *)
theory SystemThreads
  imports CppApi Trap
begin

text \<open>
  The programs the kernel itself runs as threads: the two console threads of \<open>src/_console.cpp\<close>, the idle
  thread of \<open>src/IDLE.cpp\<close> and \<open>main\<close>. Each loop is given as the code before it, one turn of its body,
  which ends with \<open>thread_dispatch\<close>, and its condition; the turns of different threads follow each
  other as the scheduler has it. The addresses of functions and of \<open>main\<close>'s local variables are
  parameters.
\<close>

subsection \<open>The console threads\<close>

text \<open>A wrapper enters its loop once, however many threads are made with it: \<open>made\<close> is the static variable.\<close>

definition putter_wrapper :: "bool \<Rightarrow> kernel \<Rightarrow> (bool \<times> bool \<times> kernel) option" where
  "putter_wrapper made s = (if made then Some (made, False, s) else do { s \<leftarrow> console_init s; Some (True, True, s) })"

definition getter_wrapper :: "bool \<Rightarrow> kernel \<Rightarrow> (bool \<times> bool \<times> kernel) option" where
  "getter_wrapper made s = (if made then Some (made, False, s) else do { s \<leftarrow> console_init s; Some (True, True, s) })"

definition putter_thread_turn :: "registers \<Rightarrow> device \<Rightarrow> kernel \<Rightarrow> (device \<times> int option \<times> kernel) option" where
  "putter_thread_turn J d s = do {
     (d, c) \<leftarrow> putter_turn d (con s);
     (r, s) \<leftarrow> thread_dispatch J (s\<lparr>con := c\<rparr>);
     Some (d, r, s)
   }"

partial_function (option) getter_loop :: "registers \<Rightarrow> device \<Rightarrow> kernel \<Rightarrow> (device \<times> kernel) option" where
  "getter_loop J d s = do {
     (more, d, c) \<leftarrow> getter_char d (con s);
     let s = s\<lparr>con := c\<rparr>;
     if more
     then do { (r, s) \<leftarrow> sem_signal J (characterReadyToGet (con s)) s; getter_loop J d s }
     else Some (d, s)
   }"

declare getter_loop.simps [code]

definition getter_thread_turn :: "registers \<Rightarrow> device \<Rightarrow> kernel \<Rightarrow> (device \<times> int option \<times> kernel) option" where
  "getter_thread_turn J d s = do {
     (d, s) \<leftarrow> getter_loop J d s;
     (d, c) \<leftarrow> console_done d (con s);
     (r, s) \<leftarrow> thread_dispatch J (s\<lparr>con := c\<rparr>);
     Some (d, r, s)
   }"

subsection \<open>The idle thread\<close>

text \<open>\<open>idleThread\<close> creates the thread of the user's program and dispatches until \<open>funcWrapper\<close> has set
  \<open>finished\<close>.\<close>

definition idleThread_start :: "registers \<Rightarrow> u64 \<Rightarrow> u64 \<Rightarrow> kernel \<Rightarrow> (int option \<times> kernel) option" where
  "idleThread_start J userMain_thread funcWrapper s = thread_create J userMain_thread funcWrapper 0 s"

definition idleThread_turn :: "registers \<Rightarrow> bool \<Rightarrow> kernel \<Rightarrow> (bool \<times> int option \<times> kernel) option" where
  "idleThread_turn J finished s =
     (if finished then Some (False, None, s)
      else do { (r, s) \<leftarrow> thread_dispatch J s; Some (True, r, s) })"

definition funcWrapper :: "(kernel \<Rightarrow> kernel option) \<Rightarrow> bool \<times> kernel \<Rightarrow> (bool \<times> kernel) option" where
  "funcWrapper userMain s = do { s \<leftarrow> userMain (snd s); Some (True, s) }"

subsection \<open>\<open>main\<close>\<close>

record main_locals =
  main_thread :: u64
  putc_thread :: u64
  getc_thread :: u64
  idle_thread :: u64

record code_addresses =
  supervisorTrap_at :: u64
  putter_at :: u64
  getter_at :: u64
  idle_at :: u64

definition main_start :: "registers \<Rightarrow> main_locals \<Rightarrow> code_addresses \<Rightarrow> machine \<Rightarrow> machine option" where
  "main_start J v k m = do {
     let m = m\<lparr>csr := w_stvec (supervisorTrap_at k) (csr m)\<rparr>;
     (_, s) \<leftarrow> thread_create J (main_thread v) 0 0 (kern m);
     (_, s) \<leftarrow> thread_create J (putc_thread v) (putter_at k) 0 s;
     (_, s) \<leftarrow> thread_create J (getc_thread v) (getter_at k) 0 s;
     (_, s) \<leftarrow> thread_create J (idle_thread v) (idle_at k) 0 s;
     Some (m\<lparr>kern := s\<rparr>)
   }"

text \<open>The condition of the loop, in which \<open>main\<close> dispatches.\<close>

definition main_continue :: "main_locals \<Rightarrow> kernel \<Rightarrow> bool option" where
  "main_continue v s = do {
     f \<leftarrow> isFinished (umem s (idle_thread v)) s;
     Some (\<not> f \<or> isThereAnythingToPrint (con s))
   }"

definition main_end :: "registers \<Rightarrow> main_locals \<Rightarrow> kernel \<Rightarrow> (int option \<times> kernel) option" where
  "main_end J v s = do {
     (_, s) \<leftarrow> subtleKill (umem s (putc_thread v)) s;
     (_, s) \<leftarrow> subtleKill (umem s (getc_thread v)) s;
     thread_dispatch J s
   }"

end
