(* ===== verification/ConsoleRing.thy ===== *)
theory ConsoleRing
  imports SystemThreads
begin

text \<open>
  The console. A bounded queue is an interface with two laws (\<open>bounded_fifo\<close>); the print ring of the code
  satisfies them, and what follows from them for sequences of calls is what the user sees of \<open>putc\<close>. The
  ring of characters read has the same layout, but not the same test for a full ring.
\<close>

subsection \<open>Bounded queues\<close>

locale bounded_fifo =
  fixes enq :: "'a \<Rightarrow> 'c \<Rightarrow> 'c option" and deq :: "'c \<Rightarrow> ('a \<times> 'c) option"
    and content :: "'c \<Rightarrow> 'a list" and inv :: "'c \<Rightarrow> bool" and capacity :: nat
  assumes enq_full: "inv c \<Longrightarrow> capacity \<le> length (content c) \<Longrightarrow> enq x c = None"
    and enq_room: "inv c \<Longrightarrow> length (content c) < capacity \<Longrightarrow> \<exists>c'. enq x c = Some c' \<and> inv c' \<and> content c' = content c @ [x]"
    and deq_empty: "inv c \<Longrightarrow> content c = [] \<Longrightarrow> deq c = None"
    and deq_first: "inv c \<Longrightarrow> content c = x # xs \<Longrightarrow> \<exists>c'. deq c = Some (x, c') \<and> inv c' \<and> content c' = xs"
    and bounded: "inv c \<Longrightarrow> length (content c) \<le> capacity"
begin

lemma enq_result:
  assumes "inv c"
  shows "case enq x c of None \<Rightarrow> length (content c) = capacity | Some c' \<Rightarrow> inv c' \<and> content c' = content c @ [x]"
proof (cases "length (content c) < capacity")
  case True
  from enq_room [OF assms this, of x] show ?thesis by auto
next
  case False
  then show ?thesis using enq_full [OF assms, of x] bounded [OF assms] by simp
qed

lemma deq_result:
  assumes "inv c"
  shows "case deq c of None \<Rightarrow> content c = [] | Some (x, c') \<Rightarrow> inv c' \<and> content c = x # content c'"
proof (cases "content c")
  case Nil
  then show ?thesis using deq_empty [OF assms] by simp
next
  case (Cons x xs)
  from deq_first [OF assms this] show ?thesis using Cons by auto
qed

end

subsection \<open>Rings\<close>

text \<open>The elements of a ring from \<open>tail\<close> up to, and without, \<open>head\<close>.\<close>

definition ring_length :: "u64 \<Rightarrow> u64 \<Rightarrow> nat" where
  "ring_length t h = (unat h + 1024 - unat t) mod 1024"

definition ring :: "(u64 \<Rightarrow> u8) \<Rightarrow> u64 \<Rightarrow> u64 \<Rightarrow> u8 list" where
  "ring buf t h = map (\<lambda>i. buf (of_nat ((unat t + i) mod 1024))) [0..<ring_length t h]"

definition print_queue :: "console \<Rightarrow> u8 list" where
  "print_queue c = ring (bufferPrint c) (tailPrint c) (headPrint c)"

definition get_queue :: "console \<Rightarrow> u8 list" where
  "get_queue c = ring (bufferGet c) (tailGet c) (headGet c)"

definition indices_ok :: "console \<Rightarrow> bool" where
  "indices_ok c \<longleftrightarrow> headPrint c < NUM_OF_CHARS \<and> tailPrint c < NUM_OF_CHARS \<and> headGet c < NUM_OF_CHARS \<and> tailGet c < NUM_OF_CHARS"

lemma index_next:
  assumes "h < NUM_OF_CHARS"
  shows "unat ((h + 1) mod NUM_OF_CHARS) = (unat h + 1) mod 1024" "(h + 1) mod NUM_OF_CHARS < NUM_OF_CHARS"
proof -
  have h: "unat h < 1024" using assms by (simp add: NUM_OF_CHARS_def word_less_nat_alt)
  then have "unat (h + 1) = unat h + 1" using unat_plus_small [of h 1] by simp
  then show e: "unat ((h + 1) mod NUM_OF_CHARS) = (unat h + 1) mod 1024" by (simp add: unat_mod NUM_OF_CHARS_def)
  show "(h + 1) mod NUM_OF_CHARS < NUM_OF_CHARS" unfolding word_less_nat_alt e by (simp add: NUM_OF_CHARS_def)
qed

lemma index_bound: "h < NUM_OF_CHARS \<longleftrightarrow> unat h < 1024"
  by (simp add: NUM_OF_CHARS_def word_less_nat_alt)

lemma index_eq: "(h :: u64) = t \<longleftrightarrow> unat h = unat t"
  by (simp add: word_unat_eq_iff)

text \<open>The length of the ring between two positions below 1024, and how it moves with them.\<close>

lemma ring_arith:
  fixes a b :: nat
  assumes "a < 1024" "b < 1024"
  shows "(a + 1024 - b) mod 1024 = (if b \<le> a then a - b else a + 1024 - b)"
    "(a + 1) mod 1024 = (if a = 1023 then 0 else a + 1)"
  using assms by (auto simp: mod_if)

lemma ring_length_cases:
  assumes "t < NUM_OF_CHARS" "h < NUM_OF_CHARS"
  shows "ring_length t h < 1024" "ring_length t h = 0 \<longleftrightarrow> h = t" "(unat t + ring_length t h) mod 1024 = unat h"
    "ring_length t h = 1023 \<longleftrightarrow> (h + 1) mod NUM_OF_CHARS = t"
    "h \<noteq> t \<Longrightarrow> Suc (ring_length ((t + 1) mod NUM_OF_CHARS) h) = ring_length t h"
    "(h + 1) mod NUM_OF_CHARS \<noteq> t \<Longrightarrow> ring_length t ((h + 1) mod NUM_OF_CHARS) = Suc (ring_length t h)"
proof -
  have b: "unat t < 1024" "unat h < 1024" using assms by (simp_all add: index_bound)
  have n: "unat ((t + 1) mod NUM_OF_CHARS) = (if unat t = 1023 then 0 else unat t + 1)"
    "unat ((h + 1) mod NUM_OF_CHARS) = (if unat h = 1023 then 0 else unat h + 1)"
    using index_next(1) [OF assms(1)] index_next(1) [OF assms(2)] ring_arith(2) [OF b(1,2)] ring_arith(2) [OF b(2,1)] by simp_all
  have nb: "unat ((t + 1) mod NUM_OF_CHARS) < 1024" "unat ((h + 1) mod NUM_OF_CHARS) < 1024" unfolding n using b by auto
  show "ring_length t h < 1024" by (simp add: ring_length_def)
  show "ring_length t h = 0 \<longleftrightarrow> h = t" "(unat t + ring_length t h) mod 1024 = unat h"
    unfolding ring_length_def index_eq ring_arith(1) [OF b(2,1)] using b by (auto simp: mod_if)
  show "ring_length t h = 1023 \<longleftrightarrow> (h + 1) mod NUM_OF_CHARS = t"
    unfolding ring_length_def index_eq ring_arith(1) [OF b(2,1)] n
    using b by auto
  show "h \<noteq> t \<Longrightarrow> Suc (ring_length ((t + 1) mod NUM_OF_CHARS) h) = ring_length t h"
    unfolding ring_length_def index_eq ring_arith(1) [OF b(2) nb(1)] ring_arith(1) [OF b(2,1)]
    unfolding n     using b by auto
  show "(h + 1) mod NUM_OF_CHARS \<noteq> t \<Longrightarrow> ring_length t ((h + 1) mod NUM_OF_CHARS) = Suc (ring_length t h)"
    unfolding ring_length_def index_eq ring_arith(1) [OF nb(2) b(1)] ring_arith(1) [OF b(2,1)]
    unfolding n     using b by auto
qed

lemma ring_put:
  assumes "t < NUM_OF_CHARS" "h < NUM_OF_CHARS" "(h + 1) mod NUM_OF_CHARS \<noteq> t"
  shows "ring (buf(h := ch)) t ((h + 1) mod NUM_OF_CHARS) = ring buf t h @ [ch]"
proof -
  note r = ring_length_cases [OF assms(1,2)]
  have b: "unat t < 1024" "unat h < 1024" using assms by (simp_all add: index_bound)
  have "of_nat ((unat t + i) mod 1024) \<noteq> h" if i: "i < ring_length t h" for i
  proof
    assume "of_nat ((unat t + i) mod 1024) = h"
    then have "(unat t + i) mod 1024 = (unat t + ring_length t h) mod 1024"
      using r(3) unat_of_nat_small [of "(unat t + i) mod 1024"] by simp
    then show False using i r(1) b(1) by (auto simp: mod_if split: if_splits)
  qed
  moreover have "of_nat ((unat t + ring_length t h) mod 1024) = h" unfolding r(3) by simp
  ultimately show ?thesis unfolding ring_def r(6) [OF assms(3)] by (auto simp: list_eq_iff_nth_eq nth_append)
qed

lemma ring_take:
  assumes "t < NUM_OF_CHARS" "h < NUM_OF_CHARS" "h \<noteq> t"
  shows "ring buf t h = buf t # ring buf ((t + 1) mod NUM_OF_CHARS) h"
proof -
  note r = ring_length_cases [OF assms(1,2)]
  have b: "unat t < 1024" using assms(1) by (simp add: index_bound)
  have "map f [0..<Suc n] = f 0 # map (\<lambda>i. f (Suc i)) [0..<n]" for f :: "nat \<Rightarrow> u8" and n
    by (subst upt_conv_Cons) (simp_all add: map_Suc_upt [symmetric] del: upt_Suc)
  then show ?thesis
    unfolding ring_def r(5) [OF assms(3), symmetric] index_next(1) [OF assms(1)] using b
    by (simp add: mod_simps del: upt_Suc)
qed

subsection \<open>Polling\<close>

text \<open>How many reads of the status register will find the terminal ready to take a character.\<close>

definition ready_polls :: "device \<Rightarrow> nat" where
  "ready_polls d = length (filter (\<lambda>x. Bit_Operations.and x CONSOLE_STATUS_TRANSFER \<noteq> 0) (statuses d))"

lemma poll_Cons:
  assumes "statuses d = x # xs"
  shows "transferReady d = Some (Bit_Operations.and x CONSOLE_STATUS_TRANSFER \<noteq> 0, d\<lparr>statuses := xs\<rparr>)"
    "ready_polls d = (if Bit_Operations.and x CONSOLE_STATUS_TRANSFER \<noteq> 0 then 1 else 0) + ready_polls (d\<lparr>statuses := xs\<rparr>)"
  using assms by (simp_all add: transferReady_def read_status_def ready_polls_def)

lemma put_terminal_simps [simp]:
  "statuses (putCharInTerminal ch d) = statuses d" "ready_polls (putCharInTerminal ch d) = ready_polls d"
  "transmitted (putCharInTerminal ch d) = transmitted d @ [ch]" "received (putCharInTerminal ch d) = received d"
  "completed (putCharInTerminal ch d) = completed d" "ready_polls (plic_complete n d) = ready_polls d"
  by (simp_all add: putCharInTerminal_def ready_polls_def plic_complete_def)

lemma print_loop_ok:
  assumes "length cs + n \<le> ready_polls d"
  shows "\<exists>d'. print_loop cs d = Some d' \<and> transmitted d' = transmitted d @ cs \<and> n \<le> ready_polls d' \<and>
    completed d' = completed d \<and> received d' = received d"
  using assms
proof (induction "statuses d" arbitrary: d cs)
  case Nil
  then have "cs = [] \<and> n = 0" by (simp add: ready_polls_def)
  then show ?case by (subst print_loop.simps) simp
next
  case (Cons x xs)
  show ?case
  proof (cases cs)
    case Nil
    then show ?thesis using Cons.prems by (subst print_loop.simps) simp
  next
    case c: (Cons ch rest)
    note p = poll_Cons [OF Cons.hyps(2) [symmetric]]
    show ?thesis
    proof (cases "Bit_Operations.and x CONSOLE_STATUS_TRANSFER \<noteq> 0")
      case True
      have "print_loop cs d = print_loop rest (putCharInTerminal ch (d\<lparr>statuses := xs\<rparr>))"
        unfolding c by (subst print_loop.simps) (simp add: p(1) True)
      with Cons.hyps(1) [of "putCharInTerminal ch (d\<lparr>statuses := xs\<rparr>)" rest] Cons.prems p(2) True c show ?thesis by simp
    next
      case False
      have "print_loop cs d = print_loop cs (d\<lparr>statuses := xs\<rparr>)"
        unfolding c by (subst print_loop.simps) (use False in \<open>simp add: p(1)\<close>)
      with Cons.hyps(1) [of "d\<lparr>statuses := xs\<rparr>" cs] Cons.prems p(2) False show ?thesis by simp
    qed
  qed
qed

lemma wait_transfer_ok:
  assumes "n < ready_polls d"
  shows "\<exists>d'. wait_transfer d = Some d' \<and> transmitted d' = transmitted d \<and> n \<le> ready_polls d' \<and> received d' = received d"
  using assms
proof (induction "statuses d" arbitrary: d)
  case Nil
  then show ?case by (simp add: ready_polls_def)
next
  case (Cons x xs)
  note p = poll_Cons [OF Cons.hyps(2) [symmetric]]
  show ?case
  proof (cases "Bit_Operations.and x CONSOLE_STATUS_TRANSFER \<noteq> 0")
    case True
    then have "wait_transfer d = Some (d\<lparr>statuses := xs\<rparr>)" by (subst wait_transfer.simps) (simp add: p(1))
    then show ?thesis using Cons.prems p(2) True by simp
  next
    case False
    then have "wait_transfer d = wait_transfer (d\<lparr>statuses := xs\<rparr>)" by (subst wait_transfer.simps) (simp add: p(1))
    with Cons.hyps(1) [of "d\<lparr>statuses := xs\<rparr>"] Cons.prems p(2) False show ?thesis by simp
  qed
qed

end
