(* ===== verification/ConsoleProps.thy ===== *)
theory ConsoleProps
  imports ConsoleRing
begin

text \<open>Properties of the console's two rings and of the threads that fill and empty them.\<close>

subsection \<open>The print ring is a bounded queue\<close>

definition put_op :: "u8 \<Rightarrow> console \<Rightarrow> console option" where
  "put_op ch c = (let (r, c) = put_print ch c in if r = 0 then Some c else None)"

definition take_op :: "console \<Rightarrow> (u8 \<times> console) option" where
  "take_op c = (if headPrint c = tailPrint c then None else Some (take_print c))"

lemma print_length: "length (print_queue c) = ring_length (tailPrint c) (headPrint c)"
  by (simp add: print_queue_def ring_def)

interpretation pr: bounded_fifo put_op take_op print_queue indices_ok 1023
proof
  fix c :: console and x
  assume i: "indices_ok c"
  then have b: "tailPrint c < NUM_OF_CHARS" "headPrint c < NUM_OF_CHARS" by (simp_all add: indices_ok_def)
  note r = ring_length_cases [OF b] and n = index_next(2) [OF b(1)] index_next(2) [OF b(2)]
  show "length (print_queue c) \<le> 1023" using r(1) by (simp add: print_length)
  show "put_op x c = None" if "1023 \<le> length (print_queue c)"
    using that r(1,4) by (simp add: print_length put_op_def put_print_def)
  show "\<exists>c'. put_op x c = Some c' \<and> indices_ok c' \<and> print_queue c' = print_queue c @ [x]" if "length (print_queue c) < 1023"
  proof -
    have ne: "(headPrint c + 1) mod NUM_OF_CHARS \<noteq> tailPrint c" using that r(4) unfolding print_length by simp
    show ?thesis using i n ne ring_put [OF b ne] by (simp add: put_op_def put_print_def print_queue_def indices_ok_def)
  qed
  show "take_op c = None" if "print_queue c = []"
    using that r(2) print_length [of c] by (simp add: take_op_def)
  show "\<exists>c'. take_op c = Some (x, c') \<and> indices_ok c' \<and> print_queue c' = xs" if "print_queue c = x # xs" for xs
  proof -
    have ne: "headPrint c \<noteq> tailPrint c" using that r(2) print_length [of c] by auto
    show ?thesis using that ring_take [OF b ne] i n ne
      by (simp add: take_op_def take_print_def print_queue_def indices_ok_def)
  qed
qed

lemma take_print_ok:
  assumes "indices_ok c" "headPrint c \<noteq> tailPrint c"
  obtains ch c' where "take_print c = (ch, c')" "indices_ok c'" "print_queue c = ch # print_queue c'" "consoleInterrupt c' = consoleInterrupt c"
    "get_queue c' = get_queue c"
proof -
  obtain ch c' where t: "take_print c = (ch, c')" by force
  then have "take_op c = Some (ch, c')" using assms(2) by (simp add: take_op_def)
  then have "indices_ok c'" "print_queue c = ch # print_queue c'" using pr.deq_result [OF assms(1)] by simp_all
  moreover from t have "consoleInterrupt c' = consoleInterrupt c" "get_queue c' = get_queue c"
    by (auto simp: take_print_def get_queue_def)
  ultimately show ?thesis using t by (intro that)
qed

lemma queue_empty: "indices_ok c \<Longrightarrow> print_queue c = [] \<longleftrightarrow> headPrint c = tailPrint c"
  using print_length [of c] ring_length_cases(2) [of "tailPrint c" "headPrint c"] by (auto simp: indices_ok_def)

subsection \<open>Output\<close>

datatype out_op = Putc u8 | Putter_turn

text \<open>Calls of \<open>putc\<close> and turns of the putter thread in any order, with the characters \<open>putc\<close> accepted.\<close>

fun output_run :: "out_op list \<Rightarrow> device \<Rightarrow> console \<Rightarrow> (u8 list \<times> device \<times> console) option" where
  "output_run [] d c = Some ([], d, c)"
| "output_run (Putc ch # ops) d c = (let (r, c) = put_print ch c in do {
     (acc, d, c) \<leftarrow> output_run ops d c;
     Some (if r = 0 then ch # acc else acc, d, c)
   })"
| "output_run (Putter_turn # ops) d c = do { (d, c) \<leftarrow> putter_turn d c; output_run ops d c }"

lemma read_status_Some:
  assumes "n < length (statuses d)"
  obtains x d' where "read_status d = Some (x, d')" "n \<le> length (statuses d')" "transmitted d' = transmitted d" "received d' = received d"
    "completed d' = completed d"
  using assms by (cases "statuses d") (auto simp: read_status_def)

lemma ready_Some:
  assumes "n < length (statuses d)"
  shows "\<exists>b d'. transferReady d = Some (b, d') \<and> n \<le> length (statuses d') \<and> transmitted d' = transmitted d"
    "\<exists>b d'. receiveReady d = Some (b, d') \<and> n \<le> length (statuses d') \<and> transmitted d' = transmitted d"
  by (rule read_status_Some [OF assms]; simp add: transferReady_def receiveReady_def)+

lemma putter_loop_ok:
  assumes "indices_ok c" "length (print_queue c) + n < length (statuses d)"
  shows "\<exists>d' c'. putter_loop d c = Some (d', c') \<and> transmitted d' @ print_queue c' = transmitted d @ print_queue c \<and>
    indices_ok c' \<and> n \<le> length (statuses d')"
  using assms
proof (induction "length (print_queue c)" arbitrary: c d)
  case 0
  then have e: "headPrint c = tailPrint c" using queue_empty by auto
  obtain b d' where d': "transferReady d = Some (b, d')" "n \<le> length (statuses d')" "transmitted d' = transmitted d"
    using ready_Some(1) [of n d] 0 by auto
  have "putter_loop d c = Some (d', c)" by (subst putter_loop.simps) (simp add: d'(1) e)
  then show ?case using d' 0 by simp
next
  case (Suc k)
  then have ne: "headPrint c \<noteq> tailPrint c" using queue_empty by force
  obtain b d' where d': "transferReady d = Some (b, d')" "k + 1 + n \<le> length (statuses d')" "transmitted d' = transmitted d"
    using ready_Some(1) [of "k + 1 + n" d] Suc by auto
  show ?case
  proof (cases b)
    case False
    then have "putter_loop d c = Some (d', c)" by (subst putter_loop.simps) (simp add: d'(1))
    then show ?thesis using d' Suc by simp
  next
    case True
    obtain ch c' where c': "take_print c = (ch, c')" "indices_ok c'" "print_queue c = ch # print_queue c'"
      by (rule take_print_ok [OF Suc.prems(1) ne])
    have "putter_loop d c = putter_loop (putCharInTerminal ch d') c'"
      by (subst putter_loop.simps) (simp add: d'(1) True ne c'(1))
    moreover have "k = length (print_queue c')" using Suc.hyps(2) c'(3) by simp
    ultimately show ?thesis
      using Suc.hyps(1) [of c' "putCharInTerminal ch d'"] c'(2,3) d' by (auto simp: putCharInTerminal_def)
  qed
qed

lemma console_done_ok:
  assumes "n + 1 < length (statuses d)"
  shows "\<exists>d' c'. console_done d c = Some (d', c') \<and> transmitted d' = transmitted d \<and> print_queue c' = print_queue c \<and>
    (indices_ok c \<longrightarrow> indices_ok c') \<and> n \<le> length (statuses d')"
proof -
  obtain b d1 where 1: "receiveReady d = Some (b, d1)" "n + 1 \<le> length (statuses d1)" "transmitted d1 = transmitted d"
    using ready_Some(2) [OF assms] by auto
  then obtain t d2 where 2: "transferReady d1 = Some (t, d2)" "n \<le> length (statuses d2)" "transmitted d2 = transmitted d1"
    using ready_Some(1) [of n d1] by auto
  show ?thesis using 1 2 by (simp add: console_done_def plic_complete_def print_queue_def indices_ok_def)
qed

lemma putter_turn_ok:
  assumes "indices_ok c" "length (print_queue c) + n + 2 < length (statuses d)"
  shows "\<exists>d' c'. putter_turn d c = Some (d', c') \<and> transmitted d' @ print_queue c' = transmitted d @ print_queue c \<and>
    indices_ok c' \<and> n \<le> length (statuses d')"
proof -
  obtain d1 c1 where 1: "putter_loop d c = Some (d1, c1)" "transmitted d1 @ print_queue c1 = transmitted d @ print_queue c" "indices_ok c1"
    "n + 2 \<le> length (statuses d1)"
    using putter_loop_ok [OF assms(1), of "n + 2" d] assms(2) by (auto simp: add.assoc)
  then obtain d2 c2 where "console_done d1 c1 = Some (d2, c2)" "transmitted d2 = transmitted d1" "print_queue c2 = print_queue c1" "indices_ok c2"
    "n \<le> length (statuses d2)" using console_done_ok [of n d1 c1] by auto
  then show ?thesis using 1 by (simp add: putter_turn_def)
qed

text \<open>
  C17: However calls of \<open>putc\<close> and turns of the putter thread follow each other, and whatever the device answers, the
  characters that \<open>putc\<close> accepted are written to the terminal once each and in order: what has been
  written and what is still in the ring is what was there before and what was accepted. Every turn
  ends within 1026 reads of the status register, and the ring never holds more than 1023 characters.
\<close>

theorem console_output_fifo:
  assumes "indices_ok c" "1026 * length ops \<le> length (statuses d)"
  shows "\<exists>acc d' c'. output_run ops d c = Some (acc, d', c') \<and>
    transmitted d' @ print_queue c' = transmitted d @ print_queue c @ acc \<and> length (print_queue c') \<le> 1023"
  using assms
proof (induction ops d c rule: output_run.induct)
  case (1 d c)
  then show ?case using pr.bounded by simp
next
  case (2 ch ops d c)
  show ?case
  proof (cases "put_op ch c")
    case (Some c1)
    then have c1: "put_print ch c = (0, c1)" by (auto simp: put_op_def split_beta prod_eq_iff split: if_splits)
    have "indices_ok c1" "print_queue c1 = print_queue c @ [ch]" using pr.enq_result [OF 2(2), of ch] Some by simp_all
    with 2(1) [OF c1 [symmetric] refl] 2(3) c1 show ?thesis by auto
  next
    case None
    then obtain r where r: "put_print ch c = (r, c)" "r \<noteq> 0" by (auto simp: put_op_def put_print_def split: if_splits)
    with 2(1) [OF r(1) [symmetric] refl] 2(2,3) show ?thesis by auto
  qed
next
  case (3 ops d c)
  have "length (print_queue c) + 1026 * length ops + 2 < length (statuses d)" using pr.bounded [OF 3(2)] 3(3) by simp
  from putter_turn_ok [OF 3(2) this] obtain d1 c1 where 1: "putter_turn d c = Some (d1, c1)"
    "transmitted d1 @ print_queue c1 = transmitted d @ print_queue c" "indices_ok c1" "1026 * length ops \<le> length (statuses d1)" by blast
  have i: "\<exists>acc d' c'. output_run ops d1 c1 = Some (acc, d', c') \<and>
     transmitted d' @ print_queue c' = transmitted d1 @ print_queue c1 @ acc \<and> length (print_queue c') \<le> 1023"
    by (rule 3(1)) (use 1 in auto)
  have "transmitted d1 @ print_queue c1 @ acc = transmitted d @ print_queue c @ acc" for acc using 1(2) by (metis append.assoc)
  then show ?case using i 1(1) by auto
qed

definition device0 :: "u8 list \<Rightarrow> device" where
  "device0 xs = \<lparr>statuses = xs, received = [], transmitted = [], completed = []\<rparr>"

definition ring0 :: console where
  "ring0 = \<lparr>headPrint = 0, tailPrint = 0, bufferPrint = (\<lambda>_. 0), headGet = 0, tailGet = 0, bufferGet = (\<lambda>_. 0),
     characterReadyToGet = 0, consoleInterrupt = False, con_initialized = True\<rparr>"

lemma console_output_fifo_witness:
  "\<exists>acc d' c'. output_run [Putc 72, Putc 105, Putter_turn] (device0 (replicate 4000 0x20)) ring0 = Some (acc, d', c') \<and>
     transmitted d' @ print_queue c' = acc"
proof -
  have "print_queue ring0 = []" by (simp add: print_queue_def ring_def ring_length_def ring0_def)
  then show ?thesis using console_output_fifo [of ring0 "[Putc 72, Putc 105, Putter_turn]" "device0 (replicate 4000 0x20)"]
    by (auto simp: indices_ok_def ring0_def NUM_OF_CHARS_def device0_def)
qed

subsection \<open>Emptying the print ring\<close>

lemma print_all_loop_ok:
  assumes "indices_ok c" "length (print_queue c) + n \<le> ready_polls d"
  shows "\<exists>d' c'. print_all_loop d c = Some (d', c') \<and> transmitted d' = transmitted d @ print_queue c \<and> print_queue c' = [] \<and>
    indices_ok c' \<and> n \<le> ready_polls d' \<and> completed d' = completed d"
  using assms
proof (induction "statuses d" arbitrary: d c)
  case Nil
  then have "print_queue c = []" "n = 0" by (simp_all add: ready_polls_def)
  then show ?case using queue_empty [OF Nil.prems(1)] Nil.prems(1) by (subst print_all_loop.simps) simp
next
  case (Cons x xs)
  note p = poll_Cons [OF Cons.hyps(2) [symmetric]]
  show ?case
  proof (cases "headPrint c = tailPrint c")
    case True
    then show ?thesis using queue_empty [OF Cons.prems(1)] Cons.prems by (subst print_all_loop.simps) simp
  next
    case ne: False
    show ?thesis
    proof (cases "Bit_Operations.and x CONSOLE_STATUS_TRANSFER \<noteq> 0")
      case True
      obtain ch c1 where c1: "take_print c = (ch, c1)" "indices_ok c1" "print_queue c = ch # print_queue c1"
        by (rule take_print_ok [OF Cons.prems(1) ne])
      have "print_all_loop d c = print_all_loop (putCharInTerminal ch (d\<lparr>statuses := xs\<rparr>)) c1"
        by (subst print_all_loop.simps) (simp add: p(1) True ne c1(1))
      with Cons.hyps(1) [of "putCharInTerminal ch (d\<lparr>statuses := xs\<rparr>)" c1] Cons.prems p(2) True c1 show ?thesis by simp
    next
      case False
      then have "print_all_loop d c = print_all_loop (d\<lparr>statuses := xs\<rparr>) c"
        by (subst print_all_loop.simps) (simp add: p(1) ne)
      with Cons.hyps(1) [of "d\<lparr>statuses := xs\<rparr>" c] Cons.prems p(2) False show ?thesis by simp
    qed
  qed
qed

text \<open>
  C37: \<open>empty_console_print_all\<close>, with which the kernel ends, returns as soon as the terminal has been ready once
  for each character of the ring; it has then written exactly these characters, in order, the ring is
  empty, and the interrupt is completed.
\<close>

theorem flush_terminates:
  assumes "indices_ok c" "length (print_queue c) \<le> ready_polls d"
  shows "\<exists>d' c'. empty_console_print_all d c = Some (d', c') \<and> transmitted d' = transmitted d @ print_queue c \<and>
    headPrint c' = tailPrint c' \<and> completed d' = completed d @ [0xa]"
proof -
  obtain d' c' where "print_all_loop d c = Some (d', c')" "transmitted d' = transmitted d @ print_queue c" "print_queue c' = []"
    "indices_ok c'" "completed d' = completed d"
    using print_all_loop_ok [OF assms(1), of 0 d] assms(2) by auto
  then show ?thesis using queue_empty [of c'] by (simp add: empty_console_print_all_def plic_complete_def)
qed

lemma flush_terminates_witness:
  "\<exists>d' c'. empty_console_print_all (device0 [0, 0x20, 0, 0x20]) (snd (put_print 105 (snd (put_print 72 ring0)))) = Some (d', c') \<and>
     transmitted d' = [72, 105] \<and> headPrint c' = tailPrint c'"
proof -
  let ?c = "snd (put_print 105 (snd (put_print 72 ring0)))"
  have q: "print_queue ?c = [72, 105]"
    by (simp add: put_print_def ring0_def print_queue_def ring_def ring_length_def NUM_OF_CHARS_def upt_rec)
  have "indices_ok ?c" by (simp add: put_print_def ring0_def indices_ok_def NUM_OF_CHARS_def)
  moreover have "ready_polls (device0 [0, 0x20, 0, 0x20]) = 2" by (simp add: ready_polls_def device0_def CONSOLE_STATUS_TRANSFER_def)
  ultimately show ?thesis using flush_terminates [of ?c "device0 [0, 0x20, 0, 0x20]"] q by (auto simp: device0_def)
qed

subsection \<open>Input\<close>

lemma getCharFromTerminal_ok:
  assumes "received d = ch # rest" "33 \<le> ch \<and> ch \<le> 126 \<longrightarrow> 0 < ready_polls d"
  shows "\<exists>d'. getCharFromTerminal d = Some (ch, d') \<and> received d' = rest \<and>
    transmitted d' = transmitted d @ (if 33 \<le> ch \<and> ch \<le> 126 then [ch] else [])"
proof (cases "33 \<le> ch \<and> ch \<le> 126")
  case True
  then have "0 < ready_polls (d\<lparr>received := rest\<rparr>)" using assms(2) by (simp add: ready_polls_def)
  from wait_transfer_ok [OF this] True assms(1) show ?thesis by (auto simp: getCharFromTerminal_def)
next
  case False
  then show ?thesis using assms(1) by (auto simp: getCharFromTerminal_def)
qed

text \<open>
  C31: A turn of the getter's loop, with a character there and the interrupt flag set, takes the character from the
  device, writes a printing one back to the terminal, and appends it to the ring, unless the ring is full.
  The test for a full ring lacks the reduction modulo the size: when \<open>headGet\<close> is 1023 and \<open>tailGet\<close> is 0
  the ring holds 1023 characters, the test lets the character in, and the ring is empty afterwards.
\<close>

theorem getter_char_spec:
  assumes "indices_ok c" "consoleInterrupt c" "statuses d = x # xs" "Bit_Operations.and x CONSOLE_STATUS_RECEIVE \<noteq> 0"
    "received d = ch # rest" "33 \<le> ch \<and> ch \<le> 126 \<longrightarrow> 0 < ready_polls (d\<lparr>statuses := xs\<rparr>)"
  shows "if headGet c + 1 = tailGet c
    then length (get_queue c) = 1023 \<and> getter_char d c = Some (False, d\<lparr>statuses := xs\<rparr>, c)
    else \<exists>d' c'. getter_char d c = Some (True, d', c') \<and> received d' = rest \<and>
      transmitted d' = transmitted d @ (if 33 \<le> ch \<and> ch \<le> 126 then [ch] else []) \<and> indices_ok c' \<and>
      (if headGet c = 1023 \<and> tailGet c = 0 then length (get_queue c) = 1023 \<and> get_queue c' = []
       else get_queue c' = get_queue c @ [ch])"
proof -
  have b: "tailGet c < NUM_OF_CHARS" "headGet c < NUM_OF_CHARS" using assms(1) by (simp_all add: indices_ok_def)
  note r = ring_length_cases [OF b] and n = index_next [OF b(2)]
  have u: "unat (headGet c) < 1024" using b(2) index_bound by simp
  have l: "length (get_queue c) = ring_length (tailGet c) (headGet c)" by (simp add: get_queue_def ring_def)
  have rr: "receiveReady d = Some (True, d\<lparr>statuses := xs\<rparr>)" using assms(3,4) by (simp add: receiveReady_def read_status_def)
  show ?thesis
  proof (cases "headGet c + 1 = tailGet c")
    case True
    then have "unat (tailGet c) = unat (headGet c) + 1" using u unat_plus_small [of "headGet c" 1] by simp
    then have "(headGet c + 1) mod NUM_OF_CHARS = tailGet c" using b(1) unfolding index_eq n(1) index_bound by simp
    then show ?thesis using True r(4) l rr by (simp add: getter_char_def)
  next
    case False
    obtain d' where d': "getCharFromTerminal (d\<lparr>statuses := xs\<rparr>) = Some (ch, d')" "received d' = rest"
      "transmitted d' = transmitted d @ (if 33 \<le> ch \<and> ch \<le> 126 then [ch] else [])"
      using getCharFromTerminal_ok [of "d\<lparr>statuses := xs\<rparr>" ch rest] assms(5,6) by auto
    have g: "getter_char d c = Some (True, d', put_get ch c)" using rr d'(1) assms(2) False by (simp add: getter_char_def)
    have i: "indices_ok (put_get ch c)" using assms(1) n(2) by (simp add: put_get_def indices_ok_def)
    show ?thesis
    proof (cases "headGet c = 1023 \<and> tailGet c = 0")
      case True
      then have "get_queue (put_get ch c) = []" "length (get_queue c) = 1023"
        unfolding l by (simp_all add: put_get_def get_queue_def ring_def ring_length_def NUM_OF_CHARS_def)
      then show ?thesis using False True g d' i by simp
    next
      case nf: False
      have "(headGet c + 1) mod NUM_OF_CHARS \<noteq> tailGet c"
      proof
        assume e: "(headGet c + 1) mod NUM_OF_CHARS = tailGet c"
        show False
        proof (cases "unat (headGet c) = 1023")
          case True
          then have "unat (tailGet c) = 0" using n(1) e by simp
          then show ?thesis using nf True by (simp add: index_eq)
        next
          case neq: False
          then have "unat (headGet c + 1) = unat (tailGet c)" using u n(1) e unat_plus_small [of "headGet c" 1] by simp
          then show ?thesis using False by (simp add: index_eq)
        qed
      qed
      from ring_put [OF b this] have "get_queue (put_get ch c) = get_queue c @ [ch]" by (simp add: get_queue_def put_get_def)
      then show ?thesis using False nf g d' i by auto
    qed
  qed
qed

definition full_ring :: console where
  "full_ring = ring0\<lparr>headGet := 1023, consoleInterrupt := True\<rparr>"

lemma getter_char_spec_witness:
  "\<exists>d' c'. getter_char ((device0 [1, 0x20])\<lparr>received := [97]\<rparr>) full_ring = Some (True, d', c') \<and>
     length (get_queue full_ring) = 1023 \<and> get_queue c' = []"
proof -
  have "0 < ready_polls ((device0 [1, 0x20])\<lparr>received := [97], statuses := [0x20]\<rparr>)"
    by (simp add: ready_polls_def device0_def CONSOLE_STATUS_TRANSFER_def)
  then show ?thesis
    using getter_char_spec [of full_ring "(device0 [1, 0x20])\<lparr>received := [97]\<rparr>" 1 "[0x20]" 97 "[]"]
    by (auto simp: full_ring_def ring0_def indices_ok_def NUM_OF_CHARS_def device0_def CONSOLE_STATUS_RECEIVE_def)
qed


subsection \<open>The rings stay inside their arrays\<close>

datatype console_op = Put_print u8 | Turn | Flush | Input | Read

text \<open>The operations on the rings: \<open>putc\<close>, a turn of the putter, the last flush, a turn of the getter's loop, and
  the reading side of \<open>getc\<close>.\<close>

fun console_step :: "console_op \<Rightarrow> device \<Rightarrow> console \<Rightarrow> (device \<times> console) option" where
  "console_step (Put_print ch) d c = Some (d, snd (put_print ch c))"
| "console_step Turn d c = putter_turn d c"
| "console_step Flush d c = empty_console_print_all d c"
| "console_step Input d c = map_option snd (getter_char d c)"
| "console_step Read d c = Some (d, snd (take_get c))"

fun console_steps :: "console_op list \<Rightarrow> device \<Rightarrow> console \<Rightarrow> (device \<times> console) option" where
  "console_steps [] d c = Some (d, c)"
| "console_steps (x # xs) d c = do { (d, c) \<leftarrow> console_step x d c; console_steps xs d c }"

text \<open>The indices are below 1024 and the code has not written behind the arrays.\<close>

definition in_arrays :: "console \<Rightarrow> console \<Rightarrow> bool" where
  "in_arrays c c' \<longleftrightarrow> indices_ok c' \<and>
     (\<forall>i. \<not> i < NUM_OF_CHARS \<longrightarrow> bufferPrint c' i = bufferPrint c i \<and> bufferGet c' i = bufferGet c i)"

lemma in_arrays_trans: "in_arrays c c1 \<Longrightarrow> in_arrays c1 c2 \<Longrightarrow> in_arrays c c2"
  by (simp add: in_arrays_def)

lemma in_arrays_refl: "indices_ok c \<Longrightarrow> in_arrays c c"
  by (simp add: in_arrays_def)

lemma in_arrays_ok: "in_arrays c c' \<Longrightarrow> indices_ok c'"
  by (simp add: in_arrays_def)

lemma in_arrays_ops:
  assumes "indices_ok c"
  shows "in_arrays c (snd (put_print ch c))" "in_arrays c (snd (take_print c))" "in_arrays c (put_get ch c)" "in_arrays c (snd (take_get c))"
  using assms index_next(2)
  by (auto simp: in_arrays_def indices_ok_def put_print_def take_print_def put_get_def take_get_def)

lemma transferReady_shrinks: "transferReady d = Some (t, d1) \<Longrightarrow> length (statuses d1) < length (statuses d)"
  by (auto simp: transferReady_def read_status_def Option.bind_eq_Some_conv split: list.splits)

lemma in_arrays_take:
  assumes "take_print c = (ch, c1)" "indices_ok c" "indices_ok c1 \<Longrightarrow> in_arrays c1 c'"
  shows "in_arrays c c'"
  using in_arrays_ops(2) [OF assms(2)] assms(1,3) by (auto intro: in_arrays_trans dest: in_arrays_ok)

lemma in_arrays_putter_loop: "putter_loop d c = Some (d', c') \<Longrightarrow> indices_ok c \<Longrightarrow> in_arrays c c'"
proof (induction "length (statuses d)" arbitrary: d c rule: less_induct)
  case less
  obtain t d1 where t: "transferReady d = Some (t, d1)" using less.prems(1) by (subst (asm) putter_loop.simps) (auto simp: Option.bind_eq_Some_conv)
  obtain ch c1 where c1: "take_print c = (ch, c1)" by fastforce
  show ?case
  proof (cases "t \<and> headPrint c \<noteq> tailPrint c")
    case True
    then have "putter_loop (putCharInTerminal ch d1) c1 = Some (d', c')" using less.prems(1) t c1 by (subst (asm) putter_loop.simps) simp
    with less.hyps [OF _ this] transferReady_shrinks [OF t] have "indices_ok c1 \<Longrightarrow> in_arrays c1 c'" by simp
    then show ?thesis by (rule in_arrays_take [OF c1 less.prems(2)])
  next
    case False
    then have "c' = c" using less.prems(1) t by (subst (asm) putter_loop.simps) (auto split: if_splits)
    then show ?thesis using in_arrays_refl [OF less.prems(2)] by simp
  qed
qed

lemma in_arrays_print_all_loop: "print_all_loop d c = Some (d', c') \<Longrightarrow> indices_ok c \<Longrightarrow> in_arrays c c'"
proof (induction "length (statuses d)" arbitrary: d c rule: less_induct)
  case less
  show ?case
  proof (cases "headPrint c = tailPrint c")
    case True
    then have "c' = c" using less.prems(1) by (subst (asm) print_all_loop.simps) simp
    then show ?thesis using in_arrays_refl [OF less.prems(2)] by simp
  next
    case ne: False
    obtain t d1 where t: "transferReady d = Some (t, d1)"
      using less.prems(1) ne by (subst (asm) print_all_loop.simps) (auto simp: Option.bind_eq_Some_conv)
    obtain ch c1 where c1: "take_print c = (ch, c1)" by fastforce
    have l: "length (statuses d1) < length (statuses d)" by (rule transferReady_shrinks [OF t])
    show ?thesis
    proof (cases t)
      case True
      then have "print_all_loop (putCharInTerminal ch d1) c1 = Some (d', c')"
        using less.prems(1) ne t c1 by (subst (asm) print_all_loop.simps) simp
      with less.hyps [OF _ this] l have "indices_ok c1 \<Longrightarrow> in_arrays c1 c'" by simp
      then show ?thesis by (rule in_arrays_take [OF c1 less.prems(2)])
    next
      case False
      then have "print_all_loop d1 c = Some (d', c')" using less.prems(1) ne t by (subst (asm) print_all_loop.simps) simp
      from less.hyps [OF l this less.prems(2)] show ?thesis .
    qed
  qed
qed

lemma in_arrays_step: "console_step x d c = Some (d', c') \<Longrightarrow> indices_ok c \<Longrightarrow> in_arrays c c'"
proof (cases x)
  case Turn
  moreover have "in_arrays c1 c2" if "console_done d1 c1 = Some (d2, c2)" "indices_ok c1" for d1 c1 d2 c2
    using that by (auto simp: console_done_def in_arrays_def indices_ok_def Option.bind_eq_Some_conv split: if_splits)
  moreover assume "console_step x d c = Some (d', c')" "indices_ok c"
  ultimately show ?thesis
    by (auto simp: putter_turn_def Option.bind_eq_Some_conv) (meson in_arrays_trans in_arrays_putter_loop in_arrays_ok)
qed (auto simp: empty_console_print_all_def getter_char_def Option.bind_eq_Some_conv in_arrays_ops in_arrays_refl
    dest: in_arrays_print_all_loop split: if_splits)

text \<open>
  C35: In every sequence of operations the four indices of the rings stay below 1024, so that every access to the two
  buffers is inside its array, and nothing is written behind them.
\<close>

theorem console_indices:
  assumes "console_steps xs d c = Some (d', c')" "indices_ok c"
  shows "indices_ok c' \<and> (\<forall>i. \<not> i < NUM_OF_CHARS \<longrightarrow> bufferPrint c' i = bufferPrint c i \<and> bufferGet c' i = bufferGet c i)"
proof -
  have "in_arrays c c'" using assms
  proof (induction xs arbitrary: d c)
    case (Cons x xs)
    from Cons.prems(1) obtain d1 c1 where 1: "console_step x d c = Some (d1, c1)" "console_steps xs d1 c1 = Some (d', c')"
      by (auto simp: Option.bind_eq_Some_conv)
    from in_arrays_step [OF 1(1) Cons.prems(2)] have "in_arrays c c1" .
    from in_arrays_trans [OF this] Cons.IH [OF 1(2) in_arrays_ok [OF this]] show ?case .
  qed (simp add: in_arrays_refl)
  then show ?thesis by (simp add: in_arrays_def)
qed

lemma console_indices_witness:
  "\<exists>d' c'. console_steps [Put_print 72, Read, Turn] (device0 [0x20, 0, 0, 0]) ring0 = Some (d', c') \<and> indices_ok c'"
proof -
  have r: "console_steps [Put_print 72, Read, Turn] (device0 [0x20, 0, 0, 0]) ring0 \<noteq> None"
    by (simp add: putter_turn_def putter_loop.simps console_done_def transferReady_def receiveReady_def read_status_def put_print_def
        take_get_def take_print_def ring0_def device0_def CONSOLE_STATUS_TRANSFER_def CONSOLE_STATUS_RECEIVE_def NUM_OF_CHARS_def putCharInTerminal_def)
  have "indices_ok ring0" by (simp add: ring0_def indices_ok_def NUM_OF_CHARS_def)
  with r show ?thesis using console_indices [of "[Put_print 72, Read, Turn]" "device0 [0x20, 0, 0, 0]" ring0]
    by (metis option.exhaust surj_pair)
qed

end
