(* ===== verification/PrinterProps.thy ===== *)
theory PrinterProps
  imports ConsoleProps KernelExample
begin

text \<open>Properties of the printer of error messages and of the traps that end the kernel.\<close>

subsection \<open>Numbers\<close>

definition digit_value :: "u8 \<Rightarrow> nat" where
  "digit_value c = (if c < 58 then unat c - 48 else unat c - 87)"

text \<open>The number whose digits, lowest first, are \<open>cs\<close>.\<close>

definition number :: "nat \<Rightarrow> u8 list \<Rightarrow> nat" where
  "number b cs = foldr (\<lambda>c v. digit_value c + b * v) cs 0"

lemma digits_eq: "digits = [48, 49, 50, 51, 52, 53, 54, 55, 56, 57, 97, 98, 99, 100, 101, 102, 0]"
  by (simp add: digits_def bytes_def)

lemma digit_ok:
  assumes "unat n < 16"
  shows "\<exists>c. digit n = Some c \<and> digit_value c = unat n"
proof -
  have "\<forall>i\<in>set [0..<16]. digit_value (digits ! i) = i" by (simp add: upt_rec digits_eq digit_value_def)
  then have "digit_value (digits ! unat n) = unat n" using assms by simp
  then show ?thesis using assms by (simp add: digit_def digits_eq)
qed

lemma digit_loop_ok:
  assumes "2 \<le> unat base" "unat base \<le> 16" "0 < room"
  shows "if unat x < unat base ^ room
    then \<exists>cs. digit_loop room base x buf = Some (buf @ cs) \<and> length cs \<le> room \<and> number (unat base) cs = unat x
    else digit_loop room base x buf = None"
  using assms(3)
proof (induction room arbitrary: x buf)
  case (Suc room)
  have m: "unat (x mod base) = unat x mod unat base" "unat (x div base) = unat x div unat base" by (simp_all add: unat_mod unat_div)
  have "unat (x mod base) < 16" unfolding m using assms(1,2) by (metis mod_less_divisor order_less_le_trans zero_less_numeral order_trans neq0_conv not_numeral_le_zero)
  from digit_ok [OF this] obtain c where c: "digit (x mod base) = Some c" "digit_value c = unat x mod unat base" using m by auto
  have z: "x div base = 0 \<longleftrightarrow> unat x < unat base"
    using assms(1) m(2) by (metis div_eq_0_iff not_numeral_le_zero unat_eq_zero)
  show ?case
  proof (cases "x div base = 0")
    case True
    then have l: "unat x < unat base" using z by simp
    then have "unat x < unat base ^ Suc room" using assms(1) by (metis le_add1 le_trans less_le_trans one_le_numeral plus_1_eq_Suc power_increasing power_one_right)
    moreover have "digit_loop (Suc room) base x buf = Some (buf @ [c])" using c True by (simp add: Let_def)
    moreover have "number (unat base) [c] = unat x" using c(2) l by (simp add: number_def)
    ultimately show ?thesis by auto
  next
    case False
    have e: "digit_loop (Suc room) base x buf = digit_loop room base (x div base) (buf @ [c])" using c False by (simp add: Let_def)
    have b: "unat (x div base) < unat base ^ room \<longleftrightarrow> unat x < unat base ^ Suc room"
      unfolding m using assms(1) by (simp add: div_less_iff_less_mult mult.commute)
    show ?thesis
    proof (cases room)
      case 0
      have "\<not> unat x < unat base ^ Suc room" using False z 0 by simp
      then show ?thesis using e 0 by simp
    next
      case (Suc r)
      then have i: "if unat (x div base) < unat base ^ room
        then \<exists>cs. digit_loop room base (x div base) (buf @ [c]) = Some ((buf @ [c]) @ cs) \<and> length cs \<le> room \<and> number (unat base) cs = unat (x div base)
        else digit_loop room base (x div base) (buf @ [c]) = None" by (intro Suc.IH) simp
      show ?thesis
      proof (cases "unat x < unat base ^ Suc room")
        case True
        with i b obtain cs where cs: "digit_loop room base (x div base) (buf @ [c]) = Some ((buf @ [c]) @ cs)" "length cs \<le> room"
          "number (unat base) cs = unat (x div base)" by auto
        have "number (unat base) (c # cs) = unat x" using c(2) cs(3) m(2) by (simp add: number_def)
        then have "digit_loop (Suc room) base x buf = Some (buf @ c # cs) \<and> length (c # cs) \<le> Suc room \<and> number (unat base) (c # cs) = unat x"
          using e cs by simp
        then show ?thesis using True by auto
      next
        case False
        then show ?thesis using i b e by simp
      qed
    qed
  qed
qed simp

text \<open>
  C36: \<open>priority_print_int\<close> writes an unsigned number, in a base from 2 to 16, as digits from which the number can
  be read back, if it has at most 16 of them; a longer number, which exists only for small bases, is written
  beyond the end of \<open>buf\<close>.
\<close>

theorem int_chars_number:
  assumes "2 \<le> unat base" "unat base \<le> 16"
  shows "if unat x < unat base ^ 16
    then \<exists>cs. int_chars x base False = Some cs \<and> length cs \<le> 16 \<and> number (unat base) cs = unat x
    else int_chars x base False = None"
proof -
  have "base \<noteq> 0" using assms(1) by auto
  then show ?thesis using digit_loop_ok [OF assms, of 16 x "[]"] by (simp add: int_chars_def split: if_splits)
qed

lemma int_chars_number_witness:
  "int_chars 65536 2 False = None \<and> (\<exists>cs. int_chars 48879 16 False = Some cs \<and> number 16 cs = 48879)"
  using int_chars_number [of 2 65536] int_chars_number [of 16 48879] by auto

subsection \<open>Messages\<close>

text \<open>What the printer writes for a text, in red, and for a number.\<close>

definition red :: "u8 list \<Rightarrow> u8 list" where
  "red cs = cstring (ESC # ''[31m'') @ cs @ cstring (ESC # ''[0m'')"

function numeral_text :: "nat \<Rightarrow> nat \<Rightarrow> u8 list" where
  "numeral_text b n = (if b < 2 \<or> n < b then [digits ! n] else numeral_text b (n div b) @ [digits ! (n mod b)])"
  by pat_completeness auto
termination
  by (relation "measure snd") auto

declare numeral_text.simps [simp del]

lemma digit_loop_text:
  assumes "2 \<le> unat base" "unat base \<le> 16"
  shows "unat x < unat base ^ room \<Longrightarrow> 0 < room \<Longrightarrow> digit_loop room base x buf = Some (buf @ rev (numeral_text (unat base) (unat x)))"
proof (induction room arbitrary: x buf)
  case (Suc room)
  have m: "unat (x mod base) = unat x mod unat base" "unat (x div base) = unat x div unat base" by (simp_all add: unat_mod unat_div)
  have "unat x mod unat base < unat base" using assms(1) by simp
  then have d: "digit (x mod base) = Some (digits ! (unat x mod unat base))" using assms(2) by (simp add: digit_def m digits_eq)
  have z: "x div base = 0 \<longleftrightarrow> unat x < unat base"
    using assms(1) m(2) by (metis div_eq_0_iff not_numeral_le_zero unat_eq_zero)
  show ?case
  proof (cases "unat x < unat base")
    case True
    then show ?thesis using d z by (simp add: numeral_text.simps [of "unat base" "unat x"] Let_def)
  next
    case False
    have l: "unat (x div base) < unat base ^ room"
      unfolding m using Suc.prems(1) assms(1) by (simp add: div_less_iff_less_mult mult.commute)
    have "0 < room" using l False z by (cases room) (auto simp: unat_eq_0)
    from Suc.IH [OF l this] have "digit_loop room base (x div base) (buf @ [digits ! (unat x mod unat base)]) =
      Some ((buf @ [digits ! (unat x mod unat base)]) @ rev (numeral_text (unat base) (unat x div unat base)))" by (simp add: m)
    moreover have "numeral_text (unat base) (unat x) = numeral_text (unat base) (unat x div unat base) @ [digits ! (unat x mod unat base)]"
      using assms(1) False by (subst numeral_text.simps) simp
    ultimately show ?thesis using d z False by (simp add: Let_def)
  qed
qed simp

lemma int_chars_text:
  assumes "2 \<le> unat base" "unat base \<le> 16" "unat x < unat base ^ 16"
  shows "int_chars x base False = Some (rev (numeral_text (unat base) (unat x)))"
proof -
  have "base \<noteq> 0" using assms(1) by auto
  then show ?thesis using digit_loop_text [OF assms(1,2), of x 16 "[]"] assms(3) by (simp add: int_chars_def)
qed

text \<open>\<open>writes m m' out n\<close>: \<open>m'\<close> is \<open>m\<close> after the output \<open>out\<close>, with \<open>n\<close> polls left that find the terminal ready. A function
  that \<open>prints out\<close> returns when there are as many such polls as characters to write.\<close>

definition writes :: "machine \<Rightarrow> machine \<Rightarrow> u8 list \<Rightarrow> nat \<Rightarrow> bool" where
  "writes m m' out n \<longleftrightarrow> kern m' = kern m \<and> csr m' = csr m \<and> frames m' = frames m \<and> device_stores m' = device_stores m \<and>
     recursionCounter m' = recursionCounter m \<and> transmitted (dev m') = transmitted (dev m) @ out \<and> n \<le> ready_polls (dev m')"

definition prints :: "u8 list \<Rightarrow> (machine \<Rightarrow> machine option) \<Rightarrow> bool" where
  "prints out f \<longleftrightarrow> (\<forall>m n. length out + n \<le> ready_polls (dev m) \<longrightarrow> (\<exists>m'. f m = Some m' \<and> writes m m' out n))"

lemma printsD:
  assumes "prints out f" "length out + n \<le> ready_polls (dev m)"
  obtains m' where "f m = Some m'" "writes m m' out n"
  using assms unfolding prints_def by blast

lemma writes_trans: "writes m m1 out k \<Longrightarrow> writes m1 m2 out' n \<Longrightarrow> writes m m2 (out @ out') n"
  by (simp add: writes_def)

lemma prints_bind:
  assumes "prints out f" "prints out' g"
  shows "prints (out @ out') (\<lambda>m. f m \<bind> g)"
  unfolding prints_def
proof (intro allI impI)
  fix m :: machine and n assume "length (out @ out') + n \<le> ready_polls (dev m)"
  then have "length out + (length out' + n) \<le> ready_polls (dev m)" by simp
  from printsD [OF assms(1) this] obtain m1 where m1: "f m = Some m1" "writes m m1 out (length out' + n)" .
  then have "length out' + n \<le> ready_polls (dev m1)" by (simp add: writes_def)
  from printsD [OF assms(2) this] obtain m2 where "g m1 = Some m2" "writes m1 m2 out' n" .
  with m1 writes_trans [OF m1(2)] show "\<exists>m'. f m \<bind> g = Some m' \<and> writes m m' (out @ out') n" by auto
qed

lemma prints_silent: "prints [] (\<lambda>m. Some m)"
  by (simp add: prints_def writes_def)

lemma colour_ok:
  "5 + n \<le> ready_polls d \<Longrightarrow>
    \<exists>d'. changeTerminalToRed d = Some d' \<and> transmitted d' = transmitted d @ cstring (ESC # ''[31m'') \<and> n \<le> ready_polls d'"
  "4 + n \<le> ready_polls d \<Longrightarrow>
    \<exists>d'. changeTerminalToDef d = Some d' \<and> transmitted d' = transmitted d @ cstring (ESC # ''[0m'') \<and> n \<le> ready_polls d'"
proof -
  have l: "length (cstring (ESC # ''[31m'')) = 5" "length (cstring (ESC # ''[0m'')) = 4"
    by (simp_all add: cstring_def bytes_def ESC_def)
  have t: "transmitted (plic_complete k d) = transmitted d" for k d by (simp add: plic_complete_def)
  show "5 + n \<le> ready_polls d \<Longrightarrow>
    \<exists>d'. changeTerminalToRed d = Some d' \<and> transmitted d' = transmitted d @ cstring (ESC # ''[31m'') \<and> n \<le> ready_polls d'"
    using print_loop_ok [of "cstring (ESC # ''[31m'')" n d] l t by (auto simp: changeTerminalToRed_def)
  show "4 + n \<le> ready_polls d \<Longrightarrow>
    \<exists>d'. changeTerminalToDef d = Some d' \<and> transmitted d' = transmitted d @ cstring (ESC # ''[0m'') \<and> n \<le> ready_polls d'"
    using print_loop_ok [of "cstring (ESC # ''[0m'')" n d] l t by (auto simp: changeTerminalToDef_def)
qed

lemma length_red [simp]: "length (red cs) = length cs + 9"
  by (simp add: red_def cstring_def bytes_def ESC_def)

lemma priority_print_ok:
  assumes "length (red cs) + n \<le> ready_polls d"
  shows "\<exists>d'. priority_print cs d = Some d' \<and> transmitted d' = transmitted d @ red cs \<and> n \<le> ready_polls d'"
proof -
  obtain d1 where 1: "changeTerminalToRed d = Some d1" "transmitted d1 = transmitted d @ cstring (ESC # ''[31m'')" "length cs + (4 + n) \<le> ready_polls d1"
    using colour_ok(1) [of "length cs + (4 + n)" d] assms by auto
  then obtain d2 where 2: "print_loop cs d1 = Some d2" "transmitted d2 = transmitted d1 @ cs" "4 + n \<le> ready_polls d2"
    using print_loop_ok [of cs "4 + n" d1] by auto
  then have "4 + n \<le> ready_polls (plic_complete 0xa d2)" by simp
  from colour_ok(2) [OF this] 1 2 show ?thesis by (auto simp: priority_print_def plic_complete_def red_def)
qed

lemma fold_terminal: "transmitted (fold putCharInTerminal cs d) = transmitted d @ cs" "ready_polls (fold putCharInTerminal cs d) = ready_polls d"
  by (induction cs arbitrary: d) simp_all

lemma priority_print_int_ok:
  assumes "length (red (rev cs)) + n \<le> ready_polls d" "int_chars x base sg = Some cs"
  shows "\<exists>d'. priority_print_int x base sg d = Some d' \<and> transmitted d' = transmitted d @ red (rev cs) \<and> n \<le> ready_polls d'"
proof -
  obtain d1 where 1: "changeTerminalToRed d = Some d1" "transmitted d1 = transmitted d @ cstring (ESC # ''[31m'')" "4 + n \<le> ready_polls d1"
    using colour_ok(1) [of "4 + n" d] assms(1) by auto
  then have "4 + n \<le> ready_polls (plic_complete 0xa (fold putCharInTerminal (rev cs) d1))" by (simp add: fold_terminal)
  from colour_ok(2) [OF this] 1 assms(2) show ?thesis by (auto simp: priority_print_int_def plic_complete_def fold_terminal red_def)
qed

lemma prints_text: "prints (red (cstring s)) (print_text s)"
  unfolding prints_def using priority_print_ok by (fastforce simp: print_text_def on_dev_def writes_def)

lemma prints_int:
  assumes "2 \<le> unat base" "unat base \<le> 16" "unat x < unat base ^ 16"
  shows "prints (red (numeral_text (unat base) (unat x))) (on_dev (priority_print_int x base False))"
  unfolding prints_def using priority_print_int_ok [OF _ int_chars_text [OF assms]] by (fastforce simp: on_dev_def writes_def)

text \<open>The low 32 bits of an address in base 16 and of a code in base 10 have at most 16 digits.\<close>

definition hex_text :: "u64 \<Rightarrow> u8 list" where "hex_text a = numeral_text 16 (unat (ucast a :: u32))"
definition decimal_text :: "u64 \<Rightarrow> u8 list" where "decimal_text a = numeral_text 10 (unat (ucast a :: u32))"

lemma hex_length: "length (hex_text a) \<le> 16"
proof -
  have b: "unat (ucast a :: u32) < unat (16 :: u32) ^ 16" using unsigned_less [where ?'a = nat, of "ucast a :: u32"] by simp
  from digit_loop_ok [of 16 16 "ucast a" "[]"] b digit_loop_text [OF _ _ b, of "[]"] show ?thesis by (auto simp: hex_text_def)
qed

lemma prints_hex: "prints (red (hex_text a)) (print_hex a)"
proof -
  have "unat (ucast a :: u32) < unat (16 :: u32) ^ 16" using unsigned_less [where ?'a = nat, of "ucast a :: u32"] by simp
  from prints_int [OF _ _ this] show ?thesis by (simp add: print_hex_def [abs_def] hex_text_def)
qed

lemma prints_decimal: "prints (red (decimal_text a)) (on_dev (priority_print_int (ucast a) 10 False))"
proof -
  have "unat (ucast a :: u32) < unat (10 :: u32) ^ 16" using unsigned_less [where ?'a = nat, of "ucast a :: u32"] by simp
  from prints_int [OF _ _ this] show ?thesis by (simp add: decimal_text_def)
qed

text \<open>The stack trace: the return addresses of \<open>n\<close> frames, up to one that is null.\<close>

fun calls_text :: "nat \<Rightarrow> (u64 \<Rightarrow> u64) \<Rightarrow> u64 \<Rightarrow> u64 \<Rightarrow> u8 list" where
  "calls_text 0 ld fp ra = []"
| "calls_text (Suc n) ld fp ra = (if ra = 0 then []
     else red (cstring ''   Call address: 0x'') @ red (hex_text (ld (fp + 8))) @ red (cstring ('' (-4)'' @ [NL])) @
       calls_text n ld (ld fp) (ld (fp + 8)))"

definition trace_text :: "env \<Rightarrow> u64 \<Rightarrow> u8 list" where
  "trace_text e pc = red (cstring (''-'' @ [NL] @ ''-Stack trace :'' @ [NL] @ '' '')) @ red (cstring '' Current SEPC: 0x'') @ red (hex_text pc) @
     red (cstring [NL]) @ calls_text 2 (stack_memory e) (frame_pointer e) 1 @
     red (cstring (''---------------------------------------'' @ [NL]))"

text \<open>The last message of the kernel.\<close>

definition finished_text :: "u8 list" where
  "finished_text = red (cstring ([NL] @ ''Kernel finished! :)'' @ [NL, NL]))"

lemma length_cstring: "length (cstring s) \<le> length s"
  unfolding cstring_def using length_takeWhile_le [of "\<lambda>b. b \<noteq> 0" "bytes s"] by (simp add: bytes_def)

lemma calls_length: "length (calls_text n ld fp ra) \<le> n * 70"
proof (induction n arbitrary: fp ra)
  case (Suc n)
  show ?case using Suc.IH [of "ld fp" "ld (fp + 8)"] hex_length [of "ld (fp + 8)"] length_cstring [of "''   Call address: 0x''"]
      length_cstring [of "'' (-4)'' @ [NL]"] by simp
qed simp

lemma output_length: "length (trace_text e pc) \<le> 280" "length finished_text \<le> 40"
proof -
  show "length (trace_text e pc) \<le> 280"
    using calls_length [of 2 "stack_memory e" "frame_pointer e" 1] hex_length [of pc] length_cstring [of "[NL]"]
      length_cstring [of "''-'' @ [NL] @ ''-Stack trace :'' @ [NL] @ '' ''"] length_cstring [of "'' Current SEPC: 0x''"]
      length_cstring [of "''---------------------------------------'' @ [NL]"] by (simp add: trace_text_def)
  show "length finished_text \<le> 40"
    using length_cstring [of "[NL] @ ''Kernel finished! :)'' @ [NL, NL]"] by (simp add: finished_text_def)
qed

lemma prints_calls: "prints (calls_text n ld fp ra) (stack_trace_loop n ld fp ra)"
proof (induction n arbitrary: fp ra)
  case 0
  then show ?case by (simp add: prints_silent)
next
  case (Suc n)
  note p = prints_bind [OF prints_text prints_bind [OF prints_hex prints_bind [OF prints_text Suc.IH]]]
  show ?case using prints_silent p [of "''   Call address: 0x''" "ld (fp + 8)" "'' (-4)'' @ [NL]" "ld fp" "ld (fp + 8)"]
    by (simp add: Let_def)
qed

definition trace_steps :: "env \<Rightarrow> u64 \<Rightarrow> machine \<Rightarrow> machine option" where
  "trace_steps e pc m = do {
     m \<leftarrow> print_text (''-'' @ [NL] @ ''-Stack trace :'' @ [NL] @ '' '') m;
     m \<leftarrow> print_text '' Current SEPC: 0x'' m;
     m \<leftarrow> print_hex pc m;
     m \<leftarrow> print_text [NL] m;
     m \<leftarrow> stack_trace_loop STACK_TRACE_DEPTH (stack_memory e) (frame_pointer e) 1 m;
     print_text (''---------------------------------------'' @ [NL]) m
   }"

lemma prints_trace: "prints (trace_text e pc) (trace_steps e pc)"
  unfolding trace_text_def trace_steps_def [abs_def] STACK_TRACE_DEPTH_def
  by (rule prints_bind [OF prints_text prints_bind [OF prints_text prints_bind [OF prints_hex prints_bind [OF prints_text
      prints_bind [OF prints_calls prints_text]]]]])

text \<open>A trace inside of four others is not printed.\<close>

definition trace_output :: "env \<Rightarrow> u64 \<Rightarrow> machine \<Rightarrow> u8 list" where
  "trace_output e pc m = (if recursionCounter m > 3 then [] else trace_text e pc)"

lemma print_stack_trace_ok:
  assumes "length (trace_output e pc m) + n \<le> ready_polls (dev m)"
  shows "\<exists>m' c. print_stack_trace e STACK_TRACE_DEPTH pc m = Some m' \<and> writes (m\<lparr>recursionCounter := c\<rparr>) m' (trace_output e pc m) n"
proof (cases "recursionCounter m > 3")
  case True
  then show ?thesis using assms by (simp add: print_stack_trace_def trace_output_def writes_def Let_def)
next
  case False
  let ?m = "m\<lparr>recursionCounter := recursionCounter m + 1\<rparr>"
  have "length (trace_text e pc) + n \<le> ready_polls (dev ?m)" using assms False by (simp add: trace_output_def)
  from printsD [OF prints_trace this] obtain m1 where m1: "trace_steps e pc ?m = Some m1" "writes ?m m1 (trace_text e pc) n" .
  have "print_stack_trace e STACK_TRACE_DEPTH pc m = trace_steps e pc ?m \<bind> (\<lambda>m. Some (m\<lparr>recursionCounter := recursionCounter m - 1\<rparr>))"
    using False by (simp add: print_stack_trace_def trace_steps_def Let_def)
  then have p: "print_stack_trace e STACK_TRACE_DEPTH pc m = Some (m1\<lparr>recursionCounter := recursionCounter m1 - 1\<rparr>)" using m1(1) by simp
  have "writes (m\<lparr>recursionCounter := recursionCounter m\<rparr>) (m1\<lparr>recursionCounter := recursionCounter m1 - 1\<rparr>) (trace_output e pc m) n"
    using False m1(2) by (simp add: writes_def trace_output_def)
  then show ?thesis using p by blast
qed

text \<open>The end of the kernel: all that is in the print ring is written, then the last message, and the machine is switched off.\<close>

definition powered_off :: "machine \<Rightarrow> machine \<Rightarrow> u8 list \<Rightarrow> bool" where
  "powered_off m m' out \<longleftrightarrow> kern m' = (kern m)\<lparr>con := con (kern m')\<rparr> \<and> headPrint (con (kern m')) = tailPrint (con (kern m')) \<and>
     device_stores m' = device_stores m @ [(0x100000, 0x5555)] \<and>
     transmitted (dev m') = transmitted (dev m) @ out @ print_queue (con (kern m)) @ finished_text"

lemma powered_off_counter: "powered_off (m\<lparr>recursionCounter := c\<rparr>) m' out = powered_off m m' out"
  by (simp add: powered_off_def)

lemma powered_off_writes: "writes m m1 out n \<Longrightarrow> powered_off m1 m' out' \<Longrightarrow> powered_off m m' (out @ out')"
  by (simp add: writes_def powered_off_def)

lemma killQEMU_ok:
  assumes "indices_ok (con (kern m))" "length (print_queue (con (kern m))) + length finished_text \<le> ready_polls (dev m)"
  shows "\<exists>m'. killQEMU m = Some m' \<and> powered_off m m' []"
proof -
  obtain d1 c1 where 1: "print_all_loop (dev m) (con (kern m)) = Some (d1, c1)" "transmitted d1 = transmitted (dev m) @ print_queue (con (kern m))"
    "print_queue c1 = []" "indices_ok c1" "length finished_text \<le> ready_polls d1"
    using print_all_loop_ok [OF assms] by blast
  let ?m = "m\<lparr>dev := plic_complete 0xa d1, kern := (kern m)\<lparr>con := c1\<rparr>\<rparr>"
  have "length finished_text + 0 \<le> ready_polls (dev ?m)" using 1(5) by simp
  from printsD [OF prints_text this [unfolded finished_text_def]]
  obtain m1 where m1: "print_text ([NL] @ ''Kernel finished! :)'' @ [NL, NL]) ?m = Some m1" "writes ?m m1 finished_text 0"
    unfolding finished_text_def .
  let ?m' = "m1\<lparr>device_stores := device_stores m1 @ [(0x100000, 0x5555)]\<rparr>"
  have "killQEMU m = Some ?m'" using m1(1) 1(1) by (simp add: killQEMU_def empty_console_print_all_def)
  moreover have "powered_off m ?m' []"
    using m1(2) 1(2,3) queue_empty [OF 1(4)] by (simp add: powered_off_def writes_def plic_complete_def)
  ultimately show ?thesis by blast
qed

lemma error_msg_terminate_ok:
  assumes "indices_ok (con (kern m))"
    "length (red (cstring s)) + length (trace_output e pc m) + length (print_queue (con (kern m))) + length finished_text \<le> ready_polls (dev m)"
  shows "\<exists>m'. error_msg_terminate e s pc m = Some m' \<and> powered_off m m' (red (cstring s) @ trace_output e pc m)"
proof -
  let ?q = "length (print_queue (con (kern m))) + length finished_text"
  have "length (red (cstring s)) + (length (trace_output e pc m) + ?q) \<le> ready_polls (dev m)" using assms(2) by simp
  then obtain d1 where d1: "priority_print (cstring s) (dev m) = Some d1" "transmitted d1 = transmitted (dev m) @ red (cstring s)"
    "length (trace_output e pc m) + ?q \<le> ready_polls d1" using priority_print_ok by blast
  let ?m1 = "m\<lparr>dev := d1\<rparr>"
  have t: "print_text s m = Some ?m1" "trace_output e pc ?m1 = trace_output e pc m" using d1(1) by (simp_all add: print_text_def on_dev_def trace_output_def)
  have w: "writes m ?m1 (red (cstring s)) 0" using d1(2) by (simp add: writes_def)
  obtain m2 c where m2: "print_stack_trace e STACK_TRACE_DEPTH pc ?m1 = Some m2" "writes (?m1\<lparr>recursionCounter := c\<rparr>) m2 (trace_output e pc m) ?q"
    using print_stack_trace_ok [of e pc ?m1 ?q] d1(3) t(2) by auto
  then have "indices_ok (con (kern m2))" "length (print_queue (con (kern m2))) + length finished_text \<le> ready_polls (dev m2)"
    using assms(1) by (simp_all add: writes_def)
  from killQEMU_ok [OF this] obtain m' where m': "killQEMU m2 = Some m'" "powered_off m2 m' []" by blast
  have "powered_off m m' (red (cstring s) @ trace_output e pc m)"
    using powered_off_writes [OF w powered_off_writes [OF m2(2) m'(2), unfolded powered_off_counter]] by simp
  then show ?thesis using t(1) m2(1) m'(1) by (auto simp: error_msg_terminate_def)
qed

text \<open>The message for a cause that the handler does not handle; an unknown cause is printed in base 2.\<close>

definition fatal_text :: "u64 \<Rightarrow> u8 list" where
  "fatal_text cause =
     (if cause = ILLEGAL_INSTRUCTION then red (cstring (''Illegal instruction!'' @ [NL]))
      else if cause = ILLEGAL_RD_ADDR then red (cstring (''Illegal address for reading!'' @ [NL]))
      else if cause = ILLEGAL_WR_ADDR then red (cstring (''Illegal address for writing!'' @ [NL]))
      else red (cstring ''Scause = '') @ red (numeral_text 2 (unat (ucast cause :: u32))) @ red (cstring ([NL] @ ''Unknown interrupt'' @ [NL])))"

definition fatal_output :: "env \<Rightarrow> machine \<Rightarrow> u8 list" where
  "fatal_output e m = fatal_text (scause (csr m)) @ trace_output e (sepc (csr m)) m @ print_queue (con (kern m)) @ finished_text"

text \<open>
  C20: A trap with any other cause than a system call, the timer or the console ends the kernel. Its output is exactly this: in red,
  the message for the cause (for an unknown cause with its number in binary, if the low 32 bits are below \<open>2 ^ 16\<close>: a longer
  number does not fit into the printer's buffer of 16 digits), the stack trace with the program counter and two return
  addresses; then every character that threads have put into the print ring, in order, and the message that the
  kernel has finished. The ring is empty then, and the last thing the kernel does is the store that switches the machine
  off; nothing else of the kernel's state has changed. The condition on the terminal is that it is ready once for each of
  these characters.
\<close>

theorem fatal_trap_off:
  assumes "scause (csr m) \<notin> {ECALL_U, ECALL_S, TIMER, CONSOLE}"
    "unat (ucast (scause (csr m)) :: u32) < 2 ^ 16" "indices_ok (con (kern m))"
    "length (fatal_output e m) \<le> ready_polls (dev m)"
  shows "\<exists>m'. handleSupervisorTrap e a0 a1 a2 a3 a4 m = Some (Off, m') \<and>
    transmitted (dev m') = transmitted (dev m) @ fatal_output e m \<and>
    headPrint (con (kern m')) = tailPrint (con (kern m')) \<and> kern m' = (kern m)\<lparr>con := con (kern m')\<rparr> \<and>
    device_stores m' = device_stores m @ [(0x100000, 0x5555)]"
proof -
  let ?c = "scause (csr m)" and ?pc = "sepc (csr m)"
  let ?t = "trace_output e ?pc m"
  let ?q = "length ?t + length (print_queue (con (kern m))) + length finished_text"
  have off: ?thesis if "handleSupervisorTrap e a0 a1 a2 a3 a4 m = terminates y" "\<exists>m'. y = Some m' \<and> powered_off m m' (fatal_text ?c @ ?t)" for y
    using that unfolding terminates_def powered_off_def fatal_output_def by auto
  have err: "\<exists>m'. error_msg_terminate e s ?pc m = Some m' \<and> powered_off m m' (fatal_text ?c @ ?t)" if "fatal_text ?c = red (cstring s)" for s
    using error_msg_terminate_ok [OF assms(3), of s e ?pc] assms(4) that by (simp add: fatal_output_def)
  show ?thesis
  proof (cases "?c \<in> {ILLEGAL_INSTRUCTION, ILLEGAL_RD_ADDR, ILLEGAL_WR_ADDR}")
    case True
    then show ?thesis using assms(1) off [OF _ err]
      by (auto simp: handleSupervisorTrap_def r_scause_def r_sepc_def Let_def fatal_text_def ILLEGAL_INSTRUCTION_def ILLEGAL_RD_ADDR_def ILLEGAL_WR_ADDR_def)
  next
    case False
    let ?o = "red (cstring ''Scause = '') @ red (numeral_text 2 (unat (ucast ?c :: u32)))" and ?s = "[NL] @ ''Unknown interrupt'' @ [NL]"
    have ft: "fatal_text ?c = ?o @ red (cstring ?s)" using False by (simp add: fatal_text_def)
    have "prints ?o (\<lambda>m. print_text ''Scause = '' m \<bind> on_dev (priority_print_int (ucast ?c) 2 False))"
      using prints_bind [OF prints_text prints_int [of 2 "ucast ?c"], of "''Scause = ''"] assms(2) by simp
    moreover have "length ?o + (length (red (cstring ?s)) + ?q) \<le> ready_polls (dev m)" using assms(4) ft by (simp add: fatal_output_def)
    ultimately obtain m1 where m1: "print_text ''Scause = '' m \<bind> on_dev (priority_print_int (ucast ?c) 2 False) = Some m1"
      "writes m m1 ?o (length (red (cstring ?s)) + ?q)" by (rule printsD)
    have t1: "trace_output e ?pc m1 = ?t" "con (kern m1) = con (kern m)" using m1(2) by (simp_all add: writes_def trace_output_def)
    have "\<exists>m'. error_msg_terminate e ?s ?pc m1 = Some m' \<and> powered_off m1 m' (red (cstring ?s) @ ?t)"
      using error_msg_terminate_ok [of m1 ?s e ?pc] m1(2) assms(3) unfolding t1 by (simp add: writes_def)
    then obtain m' where m': "error_msg_terminate e ?s ?pc m1 = Some m'" "powered_off m1 m' (red (cstring ?s) @ ?t)" by blast
    have "powered_off m m' (fatal_text ?c @ ?t)" using powered_off_writes [OF m1(2) m'(2)] ft by simp
    moreover have "handleSupervisorTrap e a0 a1 a2 a3 a4 m = terminates (print_text ''Scause = '' m \<bind>
        (\<lambda>m. on_dev (priority_print_int (ucast ?c) 2 False) m \<bind> error_msg_terminate e ?s ?pc))"
      using assms(1) False by (simp add: handleSupervisorTrap_def r_scause_def r_sepc_def Let_def)
    moreover have "print_text ''Scause = '' m \<bind> (\<lambda>m. on_dev (priority_print_int (ucast ?c) 2 False) m \<bind> error_msg_terminate e ?s ?pc) = Some m'"
      using m1(1) m'(1) by (auto simp: Option.bind_eq_Some_conv)
    ultimately show ?thesis using off by blast
  qed
qed

definition ex_machine :: "kernel \<Rightarrow> u64 \<Rightarrow> machine" where
  "ex_machine s cause = \<lparr>kern = s, dev = device0 (replicate 500 0x20),
     csr = \<lparr>scause = cause, stvec = 0x80000000, stval = 0, sepc = 0x80001000, sstatus = 0x20\<rparr>, frames = Map.empty, recursionCounter = 0, device_stores = []\<rparr>"

definition ex_env :: env where
  "ex_env = \<lparr>claimed = 0xa, frame_pointer = 0x80020000, stack_memory = (\<lambda>_. 0x80001234), wrapper_address = 0x80000500\<rparr>"

text \<open>An illegal instruction with nothing in the print ring, and a cause that the handler does not know.\<close>

lemma fatal_trap_off_witness:
  "\<exists>m' m''. handleSupervisorTrap ex_env 0 0 0 0 0 (ex_machine (kernel0 ex_regs ex_heap) 2) = Some (Off, m') \<and> device_stores m' = [(0x100000, 0x5555)] \<and>
     handleSupervisorTrap ex_env 0 0 0 0 0 (ex_machine (kernel0 ex_regs ex_heap) 12) = Some (Off, m'') \<and>
     transmitted (dev m'') = red (cstring ''Scause = '') @ red (cstring ''1100'') @ red (cstring ([NL] @ ''Unknown interrupt'' @ [NL])) @
       trace_text ex_env 0x80001000 @ finished_text"
proof -
  let ?m = "\<lambda>c. ex_machine (kernel0 ex_regs ex_heap) c"
  have q: "print_queue console0 = []" by (simp add: print_queue_def ring_def ring_length_def console0_def)
  have p: "ready_polls (dev (?m c)) = 500" for c by (simp add: ex_machine_def ready_polls_def device0_def CONSOLE_STATUS_TRANSFER_def)
  have i: "indices_ok (con (kern (?m c)))" for c by (simp add: ex_machine_def kernel0_def indices_ok_def console0_def NUM_OF_CHARS_def)
  have c: "scause (csr (?m c)) = c" "sepc (csr (?m c)) = 0x80001000" "con (kern (?m c)) = console0" "transmitted (dev (?m c)) = []"
    "device_stores (?m c) = []" "recursionCounter (?m c) = 0" for c
    by (simp_all add: ex_machine_def kernel0_def device0_def)
  have o: "fatal_output ex_env (?m c) = fatal_text c @ trace_text ex_env 0x80001000 @ finished_text" for c
    by (simp add: fatal_output_def c q trace_output_def)
  have n: "numeral_text 2 12 = cstring ''1100''" by (simp add: numeral_text.simps digits_eq cstring_def bytes_def)
  then have f: "fatal_text 12 = red (cstring ''Scause = '') @ red (cstring ''1100'') @ red (cstring ([NL] @ ''Unknown interrupt'' @ [NL]))"
    "fatal_text 2 = red (cstring (''Illegal instruction!'' @ [NL]))"
    by (simp_all add: fatal_text_def ILLEGAL_INSTRUCTION_def ILLEGAL_RD_ADDR_def ILLEGAL_WR_ADDR_def)
  have l: "length (fatal_text 12) \<le> 100" "length (fatal_text 2) \<le> 100"
    unfolding f using length_cstring [of "''Scause = ''"] length_cstring [of "''1100''"] length_cstring [of "[NL] @ ''Unknown interrupt'' @ [NL]"]
      length_cstring [of "''Illegal instruction!'' @ [NL]"] by simp_all
  have k: "scause (csr (?m 12)) \<notin> {ECALL_U, ECALL_S, TIMER, CONSOLE}" "scause (csr (?m 2)) \<notin> {ECALL_U, ECALL_S, TIMER, CONSOLE}"
    by (simp_all add: c ECALL_U_def ECALL_S_def TIMER_def CONSOLE_def)
  have w: "length (fatal_output ex_env (?m 12)) \<le> ready_polls (dev (?m 12))" "length (fatal_output ex_env (?m 2)) \<le> ready_polls (dev (?m 2))"
    unfolding o p using l output_length(1) [of ex_env "0x80001000"] output_length(2) by simp_all
  from fatal_trap_off [OF k(2) _ i w(2)] fatal_trap_off [OF k(1) _ i w(1)]
  show ?thesis by (simp add: c o f) (metis append_assoc)
qed

end
