(* ===== verification/TrapProps.thy ===== *)
theory TrapProps
  imports TrapFrames PrinterProps
begin

text \<open>Properties of the trap handler.\<close>

text \<open>Every thread that is switched out inside the handler has its frame.\<close>

definition frames_ok :: "machine \<Rightarrow> bool" where
  "frames_ok m \<longleftrightarrow> (\<forall>t k. t \<noteq> running (kern m) \<longrightarrow> ctx (kern m) t = Some k \<longrightarrow> k \<noteq> In_threadWrapper \<longrightarrow> frames m t \<noteq> None)"

text \<open>The running thread of \<open>m'\<close> goes on with the registers of its own frame, \<open>f\<close> being that of the thread that
  has trapped; a new thread starts in user mode. The frames of other threads are as they were.\<close>

definition goes_on :: "env \<Rightarrow> frame \<Rightarrow> machine \<Rightarrow> trap_end \<Rightarrow> machine \<Rightarrow> bool" where
  "goes_on e f m r m' \<longleftrightarrow> (\<forall>t. t \<noteq> running (kern m) \<longrightarrow> frames m' t = frames m t) \<and>
     (case r of
        Back a0 \<Rightarrow> ((frames m)(running (kern m) \<mapsto> f)) (running (kern m')) =
          Some \<lparr>saved_sepc = sepc (csr m'), saved_sstatus = sstatus (csr m')\<rparr>
      | Start \<Rightarrow> sepc (csr m') = wrapper_address e \<and> \<not> bit (sstatus (csr m')) 8
      | Off \<Rightarrow> False)"

lemma frames_ok_ctx:
  assumes "frames_ok m" "moved sw (kern m) s" "pts s' = pts s" "sw \<or> running s = running (kern m)"
  shows "frames_ok (m'\<lparr>kern := s', frames := if sw then (frames m)(running (kern m) \<mapsto> f) else frames m\<rparr>)"
  unfolding frames_ok_def
proof (intro allI impI)
  fix t k
  let ?m = "m'\<lparr>kern := s', frames := if sw then (frames m)(running (kern m) \<mapsto> f) else frames m\<rparr>"
  assume t: "t \<noteq> running (kern ?m)" "ctx (kern ?m) t = Some k" "k \<noteq> In_threadWrapper"
  have e: "running s' = running s" "ctx s' = ctx s" using assms(3) by (simp_all add: pts_def)
  show "frames ?m t \<noteq> None"
  proof (cases "t = running (kern m)")
    case True
    then show ?thesis using t(1) assms(4) e by auto
  next
    case False
    then have "ctx (kern m) t = Some k" using assms(2) t(2,3) e by (auto simp: moved_def keeps_def)
    then have "frames m t \<noteq> None" using assms(1) False t(3) by (simp add: frames_ok_def)
    then show ?thesis by simp
  qed
qed

lemma frames_ok_csr: "frames_ok (m\<lparr>csr := c\<rparr>) = frames_ok m"
  by (simp add: frames_ok_def)

lemma trap_tail_ok:
  assumes ok: "frames_ok m" and mv: "moved sw (kern m) s1"
    and r: "(if sw then resume_running s1 else Some (a0, s1)) = Some (r, s')"
  shows "\<exists>o' m'. trap_tail e f sw a0 s1 m = Some (o', m') \<and> kern m' = s' \<and> frames_ok m' \<and> goes_on e f m o' m' \<and>
    (o' = Back r \<or> o' = Start) \<and> dev m' = dev m"
proof (cases sw)
  case False
  then have s': "s' = s1" "r = a0" "running s1 = running (kern m)" using r mv by (auto simp: moved_def)
  let ?m = "write_back f (m\<lparr>kern := s1\<rparr>)"
  have t: "trap_tail e f sw a0 s1 m = Some (Back a0, ?m)" using False by (simp add: trap_tail_def)
  have "frames_ok (m\<lparr>kern := s1, frames := frames m\<rparr>)" using frames_ok_ctx [OF ok mv refl, where m' = m] s' False by simp
  then have "frames_ok ?m" by (simp add: write_back_def frames_ok_csr)
  moreover have "goes_on e f m (Back a0) ?m" using s' by (simp add: goes_on_def write_back_def w_sepc_def w_sstatus_def)
  ultimately show ?thesis using t s' by (auto simp: write_back_def)
next
  case True
  let ?m1 = "m\<lparr>kern := s1, frames := (frames m)(running (kern m) \<mapsto> f)\<rparr>"
  have res: "resume_running s1 = Some (r, s')" using r True by simp
  then have p: "pts s' = pts s1" by (rule resume_running_same)
  from res obtain x where x: "threads s1 (running s1) = Some x" by (auto simp: resume_running_def Option.bind_eq_Some_conv)
  have t: "trap_tail e f sw a0 s1 m = after_switch e ?m1" using True by (simp add: trap_tail_def)
  have fr: "frames_ok (m\<lparr>kern := s', frames := (frames m)(running (kern m) \<mapsto> f)\<rparr>)"
    using frames_ok_ctx [OF ok mv p, where m' = m] True by simp
  show ?thesis
  proof (cases "saved_context x = In_threadWrapper")
    case w: True
    then have s': "s' = s1" using res x by (simp add: resume_running_def)
    let ?m = "?m1\<lparr>csr := popSppSpieChangeMod (wrapper_address e) (csr m)\<rparr>"
    have "after_switch e ?m1 = Some (Start, ?m)" using x w by (simp add: after_switch_def)
    moreover have "goes_on e f m Start ?m"
      by (simp add: goes_on_def popSppSpieChangeMod_def w_sepc_def mc_sstatus_def SSTATUS_SPP_def bit_and_iff bit_not_iff bit_push_bit_iff)
    moreover have "frames_ok ?m" using fr s' by (simp add: frames_ok_csr)
    ultimately show ?thesis using t s' by auto
  next
    case w: False
    have "frames ?m1 (running s1) \<noteq> None"
    proof (cases "running s1 = running (kern m)")
      case False
      have "ctx s1 (running s1) = Some (saved_context x)" using x by (simp add: ctx_def)
      then have "ctx (kern m) (running s1) = Some (saved_context x)" using mv False w by (auto simp: moved_def keeps_def)
      then show ?thesis using ok False w by (simp add: frames_ok_def)
    qed simp
    then obtain g where g: "frames ?m1 (running s1) = Some g" by blast
    let ?m = "write_back g (?m1\<lparr>kern := s'\<rparr>)"
    have "after_switch e ?m1 = Some (Back r, ?m)" using x w g res by (simp add: after_switch_def)
    moreover have "goes_on e f m (Back r) ?m" using g p
      by (simp add: goes_on_def write_back_def w_sepc_def w_sstatus_def pts_def)
    moreover have "frames_ok ?m" using fr unfolding frames_ok_def write_back_def by simp
    ultimately show ?thesis using t by (auto simp: write_back_def)
  qed
qed

lemma kernel_inv_running: "kernel_inv mt s U f \<Longrightarrow> running s \<noteq> 0"
  by (erule kernel_invD) (auto simp: kernel_inv_def ainv_def shape_def lists_ok_def)

text \<open>What a system call writes to the terminal: a message if it is made in supervisor mode by another thread than \<open>main\<close>'s, and one
  if its code is unknown.\<close>

definition nested_text :: "machine \<Rightarrow> u8 list" where
  "nested_text m = (if body (the (threads (kern m) (running (kern m)))) = 0 then []
     else red (cstring ''Nested system calls at: 0x'') @ red (hex_text (sepc (csr m))) @ red (cstring ('' !'' @ [NL])))"

definition unknown_text :: "u64 \<Rightarrow> u8 list" where
  "unknown_text c = (if known_code c then []
     else red (cstring ''ECALLs TrapCode : '') @ red (decimal_text c) @ red (cstring ('' unknown ecallCode'' @ [NL])))"

definition ecall_text :: "u64 \<Rightarrow> machine \<Rightarrow> u8 list" where
  "ecall_text c m = (if scause (csr m) = ECALL_S then nested_text m else []) @ unknown_text c"

lemma prints_unknown: "prints (unknown_text c) (unknown_code_message c)"
  using prints_silent prints_bind [OF prints_text prints_bind [OF prints_decimal prints_text]]
  by (simp add: unknown_text_def unknown_code_message_def [abs_def])

lemma nested_ok:
  assumes "kernel_inv mt (kern m) U f" "length (nested_text m) + n \<le> ready_polls (dev m)"
  obtains m1 where "checkForNestedSysCalls (sepc (csr m)) m = Some m1" "writes m m1 (nested_text m) n"
proof -
  obtain x where x: "threads (kern m) (running (kern m)) = Some x" by (rule kernel_invD [OF assms(1)])
  have r: "running (kern m) \<noteq> 0" by (rule kernel_inv_running [OF assms(1)])
  show ?thesis
  proof (cases "body x = 0")
    case True
    then show ?thesis using that [of m] x r assms(2) by (simp add: checkForNestedSysCalls_def nested_text_def writes_def)
  next
    case False
    let ?o = "red (cstring ''Nested system calls at: 0x'') @ red (hex_text (sepc (csr m))) @ red (cstring ('' !'' @ [NL]))"
    have "length ?o + n \<le> ready_polls (dev m)" using assms(2) x False by (simp add: nested_text_def)
    from printsD [OF prints_bind [OF prints_text prints_bind [OF prints_hex prints_text]] this] obtain m1 where
      m1: "print_text ''Nested system calls at: 0x'' m \<bind> (\<lambda>m'. print_hex (sepc (csr m)) m' \<bind> print_text ('' !'' @ [NL])) = Some m1"
        "writes m m1 ?o n" .
    show ?thesis by (rule that [of m1]) (use m1 x r False in \<open>simp_all add: checkForNestedSysCalls_def nested_text_def\<close>)
  qed
qed

lemma ecall_prefix_ok:
  assumes "kernel_inv mt (kern m) U f" "length (ecall_text c m) \<le> ready_polls (dev m)"
  obtains m1 m2 where "(if scause (csr m) = ECALL_S then checkForNestedSysCalls (sepc (csr m)) m else Some m) = Some m1"
    "unknown_code_message c m1 = Some m2" "writes m m2 (ecall_text c m) 0"
proof -
  let ?n = "if scause (csr m) = ECALL_S then nested_text m else []" and ?l = "length (unknown_text c)"
  have le: "length ?n + ?l \<le> ready_polls (dev m)" using assms(2) by (simp add: ecall_text_def)
  obtain m1 where m1: "(if scause (csr m) = ECALL_S then checkForNestedSysCalls (sepc (csr m)) m else Some m) = Some m1" "writes m m1 ?n ?l"
  proof (cases "scause (csr m) = ECALL_S")
    case True
    then show ?thesis using nested_ok [OF assms(1), of ?l] le that by auto
  next
    case False
    then show ?thesis using that [of m] le by (simp add: writes_def)
  qed
  then have "?l + 0 \<le> ready_polls (dev m1)" by (simp add: writes_def)
  from printsD [OF prints_unknown this] obtain m2 where m2: "unknown_code_message c m1 = Some m2" "writes m1 m2 (unknown_text c) 0" .
  show ?thesis by (rule that [OF m1(1) m2(1)]) (use writes_trans [OF m1(2) m2(2)] in \<open>simp add: ecall_text_def\<close>)
qed





end
