(* ===== verification/ApiProps.thy ===== *)
theory ApiProps
  imports CppApi SchedulerProps
begin

text \<open>Properties of the user's C and C++ interfaces, from the call in user mode to the kernel's state.\<close>

subsection \<open>Memory\<close>

lemma ecall_one [simp]: "ecall J c [a] s = syscall c a (J 2) (J 3) (J 4) s"
  by (simp add: ecall_def Let_def)

lemma ecall_none [simp]: "ecall J c [] s = syscall c (J 1) (J 2) (J 3) (J 4) s"
  by (simp add: ecall_def Let_def)

lemma ecall_two [simp]: "ecall J c [a, b] s = syscall c a b (J 3) (J 4) s"
  by (simp add: ecall_def Let_def)

lemma ecall_four [simp]: "ecall J c [a, b, d, e] s = syscall c a b d e s"
  by (simp add: ecall_def Let_def)

lemma mem_blocks_unat:
  "unat (mem_blocks n) = (if unat n + 79 < 2 ^ 64 then (unat n + 79) div 64 else (unat n + 79 - 2 ^ 64) div 64)"
proof -
  have l: "unat n < 2 ^ 64" using unsigned_less [where ?'a = nat, of n] by simp
  have "unat (n + 79) = (unat n + 79) mod 2 ^ 64" by (simp add: unat_word_ariths)
  also have "\<dots> = (if unat n + 79 < 2 ^ 64 then unat n + 79 else unat n + 79 - 2 ^ 64)" using l by (auto simp: mod_if)
  finally have "unat (n + 79) = (if unat n + 79 < 2 ^ 64 then unat n + 79 else unat n + 79 - 2 ^ 64)" .
  moreover have "mem_blocks n = (n + 79) div 64" by (simp add: mem_blocks_def SIZE_HEADER_def MEM_BLOCK_SIZE_def add.commute)
  ultimately show ?thesis by (simp add: unat_div split: if_splits)
qed

text \<open>
  C30: \<open>mem_alloc\<close> asks the kernel for the smallest number of 64-byte blocks that hold the requested bytes and the
  16 bytes of the header, and what it returns is a block of that size; unless the request is within 79 bytes of
  \<open>2 ^ 64\<close>: then the rounding overflows and at most two blocks are asked for.
\<close>

theorem mem_alloc_rounds:
  assumes "kernel_inv m s U f"
  shows "\<exists>p s' U'. mem_alloc J n s = Some (Some p, s') \<and> kernel_inv m s' U' (f - unat (mem_blocks n)) \<and>
    (p \<noteq> 0 \<longrightarrow> U p = None \<and> U' = U(p \<mapsto> unat (mem_blocks n))) \<and>
    (if unat n + 79 < 2 ^ 64
     then unat n + 16 \<le> 64 * unat (mem_blocks n) \<and> 64 * unat (mem_blocks n) < unat n + 80
     else unat (mem_blocks n) \<le> 1)"
proof -
  have b: "if unat n + 79 < 2 ^ 64 then unat n + 16 \<le> 64 * unat (mem_blocks n) \<and> 64 * unat (mem_blocks n) < unat n + 80
     else unat (mem_blocks n) \<le> 1"
    unfolding mem_blocks_unat using unsigned_less [where ?'a = nat, of n] by auto
  have i: "kernel_inv m s U (f - unat (mem_blocks n))" by (rule kernel_inv_mono [OF assms]) simp
  show ?thesis
  proof (cases "mem_blocks n = 0")
    case True
    obtain L g where "heap_live (kheap s) L g" using assms by (auto simp: kernel_inv_def kmem_def)
    then have "init (kheap s) = kheap s" by (rule heap_live_init)
    then have "mem_alloc J n s = Some (Some 0, s)"
      using True by (simp add: mem_alloc_def syscall_def ecall_handler_def mem_alloc_wrapper_def kmalloc_def)
    then show ?thesis using i b by auto
  next
    case False
    show ?thesis
    proof (rule syscall_mem_alloc [OF assms False, of "J 2" "J 3" "J 4"])
      fix p assume "p = 0" "runs m (syscall 0x01 (mem_blocks n) (J 2) (J 3) (J 4) s) U f (Some 0, abs s)"
      then obtain s' where "mem_alloc J n s = Some (Some 0, s')" "kernel_inv m s' U f" by (auto simp: mem_alloc_def elim: runsE)
      then show ?thesis using b kernel_inv_mono [of m s' U f] by (intro exI [of _ 0] exI [of _ s'] exI [of _ U]) simp
    next
      fix p assume "p \<noteq> 0" "U p = None"
        "runs m (syscall 0x01 (mem_blocks n) (J 2) (J 3) (J 4) s) (U(p \<mapsto> unat (mem_blocks n))) (f - unat (mem_blocks n)) (Some p, abs s)"
      then show ?thesis using b by (auto simp: mem_alloc_def elim!: runsE)
    qed
  qed
qed

lemma mem_alloc_rounds_witness:
  "\<exists>p s'. mem_alloc (\<lambda>_. 0) 4096 ex1 = Some (Some p, s') \<and> unat (mem_blocks 4096) = 65 \<and> unat (mem_blocks 0xFFFFFFFFFFFFFFF0) = 0"
proof -
  obtain U where "kernel_inv main_t ex1 U 200" using ex1(1) by blast
  from mem_alloc_rounds [OF this, of "\<lambda>_. 0" 4096] show ?thesis by (auto simp: mem_blocks_unat)
qed

subsection \<open>\<open>sem_trywait\<close> on a semaphore without units\<close>

text \<open>
  C38: \<open>sem_trywait\<close> on a semaphore of value 0, on which \<open>sem_wait\<close> would block, answers 1, that it would not wait, and
  leaves the value -1 with nobody in the queue; the next \<open>sem_signal\<close> then takes a thread out of the empty
  queue and follows the null pointer.
\<close>

theorem trywait_then_signal_faults:
  assumes "kernel_inv m s U f" "sems s p = Some x" "val x = 0"
  shows "\<exists>s'. syscall 0x26 p a2 a3 a4 s = Some (Some 1, s') \<and> sems s' p = Some (x\<lparr>val := -1\<rparr>) \<and> queueBlocked x = [] \<and>
    syscall 0x24 p b2 b3 b4 s' = None"
proof -
  have k: "lists_ok (abs s)" "sems_ok (abs s)" using assms(1) by (simp_all add: kernel_inv_def ainv_def shape_def)
  have q: "queueBlocked x = []" using sems_okD(1) [OF k(2), of p "abs_sem x"] assms(2,3) by simp
  have p0: "p \<noteq> 0" using k(2) assms(2) by (auto simp: sems_ok_def)
  have t0: "threads s 0 = None" using k(1) by (simp add: lists_ok_def)
  let ?s = "s\<lparr>sems := (sems s)(p \<mapsto> x\<lparr>val := -1\<rparr>)\<rparr>"
  have t: "syscall 0x26 p a2 a3 a4 s = Some (Some 1, ?s)"
    using assms(2,3) p0 by (simp add: syscall_def ecall_handler_def sem_trywait_wrapper_def tryWait_def upd_sem_def)
  have "signal p ?s = None"
    using t0 q by (simp add: signal_def upd_sem_def unblock_def)
  then have "syscall 0x24 p b2 b3 b4 ?s = None" using p0 by (simp add: syscall_def ecall_handler_def sem_signal_wrapper_def)
  then show ?thesis using t q by (intro exI [of _ ?s]) simp
qed

lemma trywait_then_signal_faults_witness:
  "\<exists>s'. syscall 0x26 ex_sem 0 0 0 ex3 = Some (Some 1, s') \<and> syscall 0x24 ex_sem 0 0 0 s' = None"
proof -
  obtain U where "kernel_inv main_t ex3 U 180" using ex3(1) by blast
  moreover obtain x where x: "sems ex3 ex_sem = Some x" "abs_sem x = \<lparr>aval = 0, awaiters = [], atimed = 0\<rparr>"
    using arg_cong [OF ex3_abs, of "\<lambda>a. asems a ex_sem"] by auto
  moreover have "val x = 0" using arg_cong [OF x(2), of aval] by simp
  ultimately show ?thesis using trywait_then_signal_faults [of main_t ex3 U 180 ex_sem x 0 0 0 0 0 0] by blast
qed

subsection \<open>Threads\<close>

text \<open>A live block does not reach the end of the address space.\<close>

lemma heap_live_end:
  assumes "heap_live h L f" "L p = Some n" "k \<le> 64 * n - 16"
  shows "unat (p + of_nat k) = unat p + k"
proof -
  from assms(1) obtain fs ts where r: "heap_rep h fs ts" "L = live_map (HEAP_START_ADDR h) ts" by (auto simp: heap_live_def)
  obtain i where i: "(i, n) \<in> set ts" "p = adr (HEAP_START_ADDR h) i 16" using live_map_Some assms(2) r(2) by blast
  have g: "geom (HEAP_START_ADDR h) (unat (totalBlocks h))" using r(1) by (simp add: heap_rep_def)
  have b: "0 < n" "i + n \<le> unat (totalBlocks h)" using rep_block [OF r(1), of i n] i(1) by auto
  have "unat p = unat (HEAP_START_ADDR h) + 64 * i + 16" unfolding i(2) by (rule unat_adr [OF g]) (use b in simp)
  moreover have "unat (HEAP_START_ADDR h) + 64 * unat (totalBlocks h) < 2 ^ 64" using g by (simp add: geom_def)
  ultimately have "unat p + k < 2 ^ 64" using b assms(3) by simp
  then show ?thesis by (rule unat_plus_small)
qed

text \<open>A stack of 65 blocks, allocated and handed to \<open>thread_create\<close>.\<close>

lemma stack_block:
  assumes i: "kernel_inv m s U (f + 65)" and k: "kmalloc 65 (kheap s) = Some (p, h)" "p \<noteq> 0"
  shows "mem_alloc J DEFAULT_STACK_SIZE s = Some (Some p, s\<lparr>kheap := h\<rparr>)" "U p = None"
    "kernel_inv m (s\<lparr>kheap := h\<rparr>) (U(p \<mapsto> 65)) f" "p + 4096 \<noteq> 0"
proof -
  have b: "mem_blocks DEFAULT_STACK_SIZE = 65" by (simp add: mem_blocks_def SIZE_HEADER_def MEM_BLOCK_SIZE_def DEFAULT_STACK_SIZE_def)
  have e: "syscall 0x01 65 (J 2) (J 3) (J 4) s = Some (Some p, s\<lparr>kheap := h\<rparr>)"
    using k(1) by (simp add: syscall_def ecall_handler_def mem_alloc_wrapper_def)
  then show "mem_alloc J DEFAULT_STACK_SIZE s = Some (Some p, s\<lparr>kheap := h\<rparr>)" by (simp add: mem_alloc_def b ecall_def Let_def)
  have n: "(65 :: u64) \<noteq> 0" by simp
  have "U p = None \<and> kernel_inv m (s\<lparr>kheap := h\<rparr>) (U(p \<mapsto> 65)) f"
  proof (rule syscall_mem_alloc [OF i n, of "J 2" "J 3" "J 4"])
    fix p' assume "p' = 0" "runs m (syscall 0x01 65 (J 2) (J 3) (J 4) s) U (f + 65) (Some 0, abs s)"
    then show ?thesis using e k(2) by (auto simp: runs_def returns_def)
  next
    fix p' assume "p' \<noteq> 0" "U p' = None"
      "runs m (syscall 0x01 65 (J 2) (J 3) (J 4) s) (U(p' \<mapsto> unat (65 :: u64))) (f + 65 - unat (65 :: u64)) (Some p', abs s)"
    then show ?thesis using e by (auto simp: runs_def returns_def kernel_inv_def)
  qed
  then show "U p = None" and ki: "kernel_inv m (s\<lparr>kheap := h\<rparr>) (U(p \<mapsto> 65)) f" by simp_all
  from ki obtain L g where "heap_live h L g" "U(p \<mapsto> 65) = L |` (- kptrs (lists (s\<lparr>kheap := h\<rparr>)) (stacks (s\<lparr>kheap := h\<rparr>)) (dom (sems s)))"
    by (auto simp: kernel_inv_def elim!: kmemE)
  moreover from this(2) have "L p = Some 65" by (metis fun_upd_same option.distinct(1) restrict_map_def)
  ultimately have "unat (p + 4096) = unat p + 4096" using heap_live_end [of h L g p 65 4096] by simp
  then show "p + 4096 \<noteq> 0" by auto
qed

lemma user_thread_create:
  assumes i: "kernel_inv m s U (f + 68)" and h: "handle \<noteq> 0" "bdy \<noteq> 0" and k: "kmalloc 65 (kheap s) = Some (p, h1)" "p \<noteq> 0"
    and q: "kmalloc 2 h1 = Some (q, h2)" "q \<noteq> 0"
  shows "\<exists>s' x y. thread_create J handle bdy ar s = Some (Some 0, s') \<and> kernel_inv m s' U f \<and> umem s' = (umem s)(handle := q) \<and>
    threads s (running s) = Some y \<and> threads s' (running s) = Some (y\<lparr>numOfChildren := numOfChildren y + 1\<rparr>) \<and>
    (\<forall>t. t \<noteq> q \<longrightarrow> t \<noteq> running s \<longrightarrow> threads s' t = threads s t) \<and> threads s q = None \<and>
    ready s' = ready s @ [q] \<and> running s' = running s \<and> threads s' q = Some x \<and> body x = bdy \<and> arg x = ar \<and> stack x = p \<and>
    parentThread x = running s \<and> threadState x = READY \<and> saved_context x = In_threadWrapper"
proof -
  let ?s = "s\<lparr>kheap := h1\<rparr>"
  have "kernel_inv m s U (f + 3 + 65)" using i by (simp add: add.assoc)
  note b = stack_block [OF this k]
  have "(U(p \<mapsto> 65)) (p + 4096 - 4096) = Some 65" by simp
  moreover have "kmalloc 2 (kheap ?s) = Some (q, h2)" using q(1) by simp
  ultimately obtain s' x y where s': "syscall 0x11 handle bdy ar (p + 4096) ?s = Some (Some 0, s')" "umem s' = (umem s)(handle := q)" "\<forall>t. t \<noteq> q \<longrightarrow> t \<noteq> running ?s \<longrightarrow> threads s' t = threads ?s t" "threads ?s q = None" "ready s' = ready ?s @ [q]"
    "running s' = running ?s" "threads s' q = Some x" "body x = bdy" "arg x = ar" "stack x = p + 4096 - 4096" "parentThread x = running ?s"
    "threadState x = READY" "saved_context x = In_threadWrapper" "threads s (running s) = Some y"
    "threads s' (running s) = Some (y\<lparr>numOfChildren := numOfChildren y + 1\<rparr>)" "kernel_inv m s' ((U(p \<mapsto> 65))(p + 4096 - 4096 := None)) f"
    using thread_created [OF b(3) h _ q(2) _ b(4), of h2 ar] by auto
  have "(U(p \<mapsto> 65))(p + 4096 - 4096 := None) = U" using b(2) by (simp add: fun_upd_idem)
  moreover have "thread_create J handle bdy ar s = Some (Some 0, s')"
    using b(1) k(2) s'(1) by (simp add: thread_create_def int_call_def int_result_def ecall_def Let_def DEFAULT_STACK_SIZE_def)
  ultimately show ?thesis using s' by auto
qed

text \<open>
  C29: \<open>Thread::start\<close> creates, once, a kernel thread with a stack of its own, from \<open>mem_alloc\<close>: it will call the body of
  the object with its argument, or, in an object without a body, \<open>run_wrapper\<close> with the object itself. The handle of the
  thread is stored in the object and the thread is last in the ready queue; a second \<open>start\<close> does nothing
  but return -1.
\<close>

theorem Thread_start_spec:
  assumes "kernel_inv m s U (f + 68)" "myHandle_at this \<noteq> 0" "umem s (myHandle_at this) = 0" "run_wrapper \<noteq> 0"
    "kmalloc 65 (kheap s) = Some (p, h1)" "p \<noteq> 0" "kmalloc 2 h1 = Some (q, h2)" "q \<noteq> 0"
  shows "\<exists>s' x. Thread_start J run_wrapper this s = Some (Some 0, s') \<and> kernel_inv m s' U f \<and> umem s' (myHandle_at this) = q \<and>
    threads s' q = Some x \<and> stack x = p \<and> parentThread x = running s \<and> ready s' = ready s @ [q] \<and> running s' = running s \<and>
    (if umem s (body_at this) \<noteq> 0 then body x = umem s (body_at this) \<and> arg x = umem s (arg_at this)
     else body x = run_wrapper \<and> arg x = this) \<and>
    Thread_start J run_wrapper this s' = Some (Some (-1), s')"
proof (cases "umem s (body_at this) = 0")
  case True
  from user_thread_create [OF assms(1,2,4-8), of J this] show ?thesis
    using True assms(3,8) by (fastforce simp: Thread_start_def)
next
  case False
  from user_thread_create [OF assms(1,2) False assms(5-8), of J "umem s (arg_at this)"] show ?thesis
    using False assms(3,8) by (fastforce simp: Thread_start_def)
qed

lemma Thread_start_spec_witness:
  "\<exists>s' x. Thread_start (\<lambda>_. 0) 0x80000700 0x80020000 ex1 = Some (Some 0, s') \<and> threads s' 0x800110d0 = Some x \<and>
     body x = 0x80000700 \<and> arg x = 0x80020000"
proof -
  obtain U where U: "kernel_inv main_t ex1 U (132 + 68)" using ex1(1) by auto
  have u: "umem ex1 = (\<lambda>_. 0)" using arg_cong [OF ex1(3), of aumem] by (simp add: a_create_def Let_def a_put_def a_thread_def kernel0_def)
  have m: "kmalloc 65 (kheap ex1) = Some (user_t, after 65 ex_h1)" unfolding ex1(2) by (rule ex_malloc [OF ex_heaps(1)]) simp_all
  have "one_free (after 65 ex_h1) 67" by (rule one_free_after(2) [OF ex_heaps(1)]) simp_all
  then have m2: "kmalloc 2 (after 65 ex_h1) = Some (0x800110d0, after 2 (after 65 ex_h1))" by (rule ex_malloc) simp_all
  show ?thesis using Thread_start_spec [OF U _ _ _ m _ m2, of "0x80020000" "0x80000700" "\<lambda>_. 0"] u by (auto simp: myHandle_at_def body_at_def)
qed

end
