(* ===== verification/BootProps.thy ===== *)
theory BootProps
  imports ApiProps SystemThreads PrinterProps
begin

text \<open>The start of the kernel: what \<open>main\<close> has set up when it enters its loop, and how the loop ends.\<close>

subsection \<open>A heap that is still in one piece\<close>

text \<open>\<open>fresh h i n\<close>: the first \<open>i\<close> of \<open>n\<close> blocks are taken, the others are one free block.\<close>

definition fresh :: "heap \<Rightarrow> nat \<Rightarrow> nat \<Rightarrow> bool" where
  "fresh h i n \<longleftrightarrow> (\<exists>ts. heap_rep h [(i, n - i)] ts)"

lemma fresh_malloc:
  assumes "fresh h i n" "0 < unat k" "i + unat k < n"
  obtains p h' where "kmalloc k h = Some (p, h')" "p \<noteq> 0" "fresh h' (i + unat k) n"
proof -
  from assms(1) obtain ts where r: "heap_rep h [(i, n - i)] ts" by (auto simp: fresh_def)
  have "k \<noteq> 0" using assms(2) by auto
  moreover have "afit (unat k) [(i, n - i)] = Some (i, [(i + unat k, n - (i + unat k))])" using assms(2,3) by (auto simp: afit_def)
  ultimately obtain h' where "kmalloc k h = Some (adr (HEAP_START_ADDR h) i 16, h')" "heap_rep h' [(i + unat k, n - (i + unat k))] ((i, unat k) # ts)"
    using kmalloc_fit [OF r] by metis
  moreover have "adr (HEAP_START_ADDR h) i 16 \<noteq> 0"
  proof -
    have g: "geom (HEAP_START_ADDR h) (unat (totalBlocks h))" using r by (simp add: heap_rep_def)
    have "i < unat (totalBlocks h)" using rep_block [OF r, of i "n - i"] by simp
    then have "unat (adr (HEAP_START_ADDR h) i 16) = unat (HEAP_START_ADDR h) + 64 * i + 16" by (intro unat_adr [OF g]) simp
    then show ?thesis by auto
  qed
  ultimately show ?thesis using that by (auto simp: fresh_def)
qed

lemma fresh_live: "fresh h i n \<Longrightarrow> \<exists>L. heap_live h L (n - i)"
  by (auto simp: fresh_def heap_live_def)

lemma fresh_inv:
  assumes "kernel_inv m s U g" "fresh (kheap s) i n"
  shows "kernel_inv m s U (n - i)"
proof -
  obtain L where L: "heap_live (kheap s) L (n - i)" using fresh_live [OF assms(2)] by blast
  have k: "kmem s U g" "ainv m (abs s)" using assms(1) by (simp_all add: kernel_inv_def)
  from k(1) obtain L' g' where h: "heap_live (kheap s) L' g'" "owned (lists s) (stacks s) (dom (sems s)) L'"
    "U = L' |` (- kptrs (lists s) (stacks s) (dom (sems s)))" by (rule kmemE)
  have "g' = n - i" by (rule heap_live_unique(2) [OF h(1) L])
  then have "kmem s U (n - i)" using h by (intro kmemI [OF h(1) _ h(2,3)]) simp_all
  then show ?thesis using k(2) by (simp add: kernel_inv_def)
qed

text \<open>The heap after \<open>thread_create\<close>: stack, thread and a cell of the ready queue.\<close>

lemma upd_thread_heap: "upd_thread p f s = Some s' \<Longrightarrow> kheap s' = kheap s"
  by (auto simp: upd_thread_def split: option.splits)

lemma bind_someE: "m \<bind> f = Some x \<Longrightarrow> (\<And>y. m = Some y \<Longrightarrow> f y = Some x \<Longrightarrow> P) \<Longrightarrow> P"
  by (cases m) auto

lemma createThread_heap:
  assumes "createThread bdy ar stk s = Some (r, s')" "bdy \<noteq> 0" "running s \<noteq> 0"
    "kmalloc 2 (kheap s) = Some (q, h2)" "q \<noteq> 0" "kmalloc 1 h2 = Some (c, h3)" "c \<noteq> 0"
  shows "kheap s' = h3"
proof -
  let ?s1 = "s\<lparr>kheap := h2, threads := (threads s)(q \<mapsto> new_thread bdy ar stk (s\<lparr>kheap := h2\<rparr>))\<rparr>"
  let ?s2 = "?s1\<lparr>queueThreads := queueThreads s @ [(c, q)], kheap := h3\<rparr>"
  have p: "put q ?s1 = Some ?s2" using assms(6,7) by (simp add: put_def k_addLast_def new_elem_def)
  have q0: "\<not> (running s = 0 \<and> bdy = 0)" using assms(2) by simp
  from assms(1-5) p have c: "do {
       s \<leftarrow> upd_thread (running s) (\<lambda>t. t\<lparr>numOfChildren := numOfChildren t + 1\<rparr>) ?s2;
       s \<leftarrow> upd_thread q (\<lambda>t. t\<lparr>myID := ID s + 1, myMagicNumber := THREAD_MAGIC_NUMBER\<rparr>) (s\<lparr>ID := ID s + 1\<rparr>);
       sys \<leftarrow> do { p \<leftarrow> threads s (running ?s1); Some (body p = 0) };
       Some (q, if sys then s\<lparr>numOfSystemThreads := numOfSystemThreads s + 1\<rparr> else s)
     } = Some (r, s')"
    by (simp add: createThread_def Let_def)
  then show ?thesis
    by (elim bind_someE) (auto dest!: upd_thread_heap split: if_splits)
qed

lemma thread_create_heap:
  assumes "thread_create J handle bdy ar s = Some (r, s')" "bdy \<noteq> 0" "running s \<noteq> 0"
    "kmalloc 65 (kheap s) = Some (p, h1)" "p \<noteq> 0" "kmalloc 2 h1 = Some (q, h2)" "q \<noteq> 0" "kmalloc 1 h2 = Some (c, h3)" "c \<noteq> 0"
  shows "kheap s' = h3"
proof -
  have b: "mem_blocks DEFAULT_STACK_SIZE = 65" by (simp add: mem_blocks_def SIZE_HEADER_def MEM_BLOCK_SIZE_def DEFAULT_STACK_SIZE_def)
  have "mem_alloc J DEFAULT_STACK_SIZE s = Some (Some p, s\<lparr>kheap := h1\<rparr>)"
    using assms(4) by (simp add: mem_alloc_def b syscall_def ecall_handler_def mem_alloc_wrapper_def)
  then obtain r' where "syscall 0x11 handle bdy ar (p + 4096) (s\<lparr>kheap := h1\<rparr>) = Some (r', s')"
    using assms(1,5) unfolding thread_create_def int_call_def
    by (simp add: DEFAULT_STACK_SIZE_def Option.bind_eq_Some_conv split_paired_Ex) blast
  then obtain q' s1 where s1: "createThread bdy ar (p + 4096) (s\<lparr>kheap := h1\<rparr>) = Some (q', s1)" "kheap s' = kheap s1"
    unfolding syscall_def ecall_handler_def thread_create_wrapper_def user_store_def
    by (simp split del: if_split) (elim bind_someE, auto split: if_splits elim!: bind_someE)
  show ?thesis using createThread_heap [OF s1(1) assms(2) _ _ assms(7) _ assms(9)] assms(3,6,8) s1(2) by simp
qed

subsection \<open>The first thread and the three system threads\<close>

lemma createThread_first_heap:
  assumes "createThread 0 ar stk s = Some (r, s')" "running s = 0" "kmalloc 2 (kheap s) = Some (q, h2)" "q \<noteq> 0"
  shows "kheap s' = h2"
  using assms by (simp add: createThread_def Let_def) (elim bind_someE, auto dest!: upd_thread_heap)

lemma boot_first:
  assumes h: "\<not> initialazed h0" "geom (HEAP_START_ADDR h0) n" "n = unat (HEAP_END_ADDR h0 - HEAP_START_ADDR h0) div 64" "68 \<le> n"
    and a: "handle \<noteq> 0"
  obtains m s U x where "thread_create J handle 0 0 (kernel0 rg h0) = Some (Some 0, s)" "kernel_inv m s U (n - 68)"
    "fresh (kheap s) 67 n" "umem s = (\<lambda>_. 0)(handle := m)" "running s = m" "ready s = []" "threads s m = Some x" "body x = 0"
    "m \<noteq> 0"
proof -
  have f0: "fresh (init h0) 0 n" using init_rep [OF h(1,2) _ h(3)] h(4) by (auto simp: fresh_def)
  have "initialazed (init h0)" using h(1) by (simp add: init_def Let_def store_def)
  then have ii: "init (init h0) = init h0" by (subst (1) init_def) simp
  obtain p h1 where p: "kmalloc 65 (init h0) = Some (p, h1)" "p \<noteq> 0" "fresh h1 (0 + unat (65 :: u64)) n"
    by (rule fresh_malloc [OF f0, of 65]) (use h(4) in auto)
  then have f1: "fresh h1 65 n" by simp
  obtain m h2 where m: "kmalloc 2 h1 = Some (m, h2)" "m \<noteq> 0" "fresh h2 (65 + unat (2 :: u64)) n"
    by (rule fresh_malloc [OF f1, of 2]) (use h(4) in auto)
  obtain L where "heap_live (init h0) L n" using fresh_live [OF f0] by auto
  from kh.malloc_law [OF this, of 65] p(1,2) have l1: "heap_live h1 (L(p \<mapsto> 65)) (n - 65)" and np: "L p = None" by auto
  have n3: "n - 65 = n - 68 + 3" using h(4) by simp
  have z: "(L(p \<mapsto> 65)) 0 = None" by (rule kh.null [OF l1])
  have "unat (p + of_nat 4096) = unat p + 4096" by (rule heap_live_end [OF l1]) auto
  then have e: "p + 4096 \<noteq> 0" by auto
  have k: "p = (if p + 4096 \<noteq> 0 then p + 4096 - STACK_SIZE * 8 else 0)" "p = 0 \<or> (L(p \<mapsto> 65)) p = Some 65"
    using e by (simp_all add: STACK_SIZE_def DEFAULT_STACK_SIZE_def)
  note b = boot_inv_stack [OF l1 [unfolded n3] m(1,2) k, of 0 rg]
  obtain s1 where s1: "createThread 0 0 (p + 4096) (kernel0 rg h1) = Some (m, s1)" using b(3,4) by force
  have i1: "kernel_inv m s1 ((L(p \<mapsto> 65))(p := None)) (n - 68)" "abs s1 = a_create m 0 0 p (abs (kernel0 rg h1))"
    using b(1,2) unfolding s1 by (simp_all only: option.sel snd_conv)
  let ?s = "s1\<lparr>umem := (umem s1)(handle := m)\<rparr>"
  have hp: "kheap s1 = h2" by (rule createThread_first_heap [OF s1]) (use m in \<open>simp_all add: kernel0_def\<close>)
  have ma: "mem_alloc J DEFAULT_STACK_SIZE (kernel0 rg h0) = Some (Some p, kernel0 rg h1)"
  proof -
    have "mem_blocks DEFAULT_STACK_SIZE = 65" by (simp add: mem_blocks_def SIZE_HEADER_def MEM_BLOCK_SIZE_def DEFAULT_STACK_SIZE_def)
    moreover have "kmalloc 65 h0 = Some (p, h1)" using p(1) by (simp add: kmalloc_def ii)
    ultimately show ?thesis by (simp add: mem_alloc_def syscall_def ecall_handler_def mem_alloc_wrapper_def kernel0_def)
  qed
  have "syscall 0x11 handle 0 0 (p + 4096) (kernel0 rg h1) = Some (Some 0, ?s)"
    using s1 m(2) a by (simp add: syscall_def ecall_handler_def thread_create_wrapper_def user_store_def)
  then have t: "thread_create J handle 0 0 (kernel0 rg h0) = Some (Some 0, ?s)"
    using ma p(2) by (simp add: thread_create_def int_call_def int_result_def DEFAULT_STACK_SIZE_def)
  have "abs ?s = (abs s1)\<lparr>aumem := (umem s1)(handle := m)\<rparr>" by simp
  moreover have "kmem ?s ((L(p \<mapsto> 65))(p := None)) (n - 68)"
    by (rule kmem_cong [OF i1(1) [unfolded kernel_inv_def, THEN conjunct1]]) simp_all
  ultimately have ki: "kernel_inv m ?s ((L(p \<mapsto> 65))(p := None)) (n - 68)" using i1(1) by (simp add: kernel_inv_def)
  have v: "umem s1 = (\<lambda>_. 0)" "running s1 = m" "ready s1 = []"
    using arg_cong [OF i1(2), of aumem] arg_cong [OF i1(2), of arunning] arg_cong [OF i1(2), of aready]
    by (simp_all add: a_create_def Let_def kernel0_def)
  have "\<exists>x. threads s1 m = Some x \<and> body x = 0"
    using arg_cong [OF i1(2), of "\<lambda>a. athreads a m"] by (simp add: a_create_def Let_def kernel0_def)
  then obtain x where x: "threads s1 m = Some x" "body x = 0" by blast
  show ?thesis
    proof (rule that [OF t ki])
    show "fresh (kheap ?s) 67 n" using hp m(3) by simp
  qed (use v x m(2) in simp_all)
qed

lemma boot_next:
  assumes i: "kernel_inv m s U (f + 68)" and h: "handle \<noteq> 0" "bdy \<noteq> 0" and r: "fresh (kheap s) i n" "i + 68 < n"
  obtains q s' x where "thread_create J handle bdy 0 s = Some (Some 0, s')" "kernel_inv m s' U f" "fresh (kheap s') (i + 68) n"
    "umem s' = (umem s)(handle := q)" "running s' = running s" "ready s' = ready s @ [q]" "threads s q = None" "threads s' q = Some x"
    "body x = bdy" "\<forall>t. t \<noteq> q \<longrightarrow> t \<noteq> running s \<longrightarrow> threads s' t = threads s t"
    "map_option body (threads s' (running s)) = map_option body (threads s (running s))"
proof -
  obtain p h1 where p: "kmalloc 65 (kheap s) = Some (p, h1)" "p \<noteq> 0" "fresh h1 (i + unat (65 :: u64)) n"
    by (rule fresh_malloc [OF r(1), of 65]) (use r(2) in auto)
  obtain q h2 where q: "kmalloc 2 h1 = Some (q, h2)" "q \<noteq> 0" "fresh h2 (i + unat (65 :: u64) + unat (2 :: u64)) n"
    by (rule fresh_malloc [OF p(3), of 2]) (use r(2) in auto)
  obtain c h3 where c: "kmalloc 1 h2 = Some (c, h3)" "c \<noteq> 0" "fresh h3 (i + unat (65 :: u64) + unat (2 :: u64) + unat (1 :: u64)) n"
    by (rule fresh_malloc [OF q(3), of 1]) (use r(2) in auto)
  have r0: "running s \<noteq> 0" using i kmem_null(1) [of s U "f + 68"] by (elim kernel_invD) auto
  from user_thread_create [OF i h p(1,2) q(1,2), of J 0] obtain s' x y where
    t: "thread_create J handle bdy 0 s = Some (Some 0, s')" "kernel_inv m s' U f"
    "umem s' = (umem s)(handle := q)" "running s' = running s" "ready s' = ready s @ [q]" "threads s q = None" "threads s' q = Some x"
    "body x = bdy" "\<forall>t. t \<noteq> q \<longrightarrow> t \<noteq> running s \<longrightarrow> threads s' t = threads s t"
    "threads s (running s) = Some y" "threads s' (running s) = Some (y\<lparr>numOfChildren := numOfChildren y + 1\<rparr>)"
    by (elim exE conjE) (rule that; assumption)
  have "kheap s' = h3" by (rule thread_create_heap [OF t(1) h(2) r0 p(1,2) q(1,2) c(1,2)])
  moreover have "i + unat (65 :: u64) + unat (2 :: u64) + unat (1 :: u64) = i + 68" by simp
  ultimately have "fresh (kheap s') (i + 68) n" using c(3) by (simp only:)
  moreover have "map_option body (threads s' (running s)) = map_option body (threads s (running s))" using t(10,11) by simp
  ultimately show ?thesis by (intro that [OF t(1,2) _ t(3-9)])
qed

subsection \<open>What \<open>main\<close> sets up\<close>

text \<open>The threads that exist, the running one first: their handles are at \<open>hs\<close>, their bodies are \<open>bs\<close>.\<close>

definition bodies :: "kernel \<Rightarrow> u64 list \<Rightarrow> u64 option list" where
  "bodies s ts = map (\<lambda>t. map_option body (threads s t)) ts"

definition booted :: "kernel \<Rightarrow> u64 list \<Rightarrow> u64 list \<Rightarrow> bool" where
  "booted s hs bs \<longleftrightarrow> running s # ready s = map (umem s) hs \<and> distinct (running s # ready s) \<and>
     bodies s (running s # ready s) = map Some bs"

lemma bodies_live:
  assumes "bodies s ts = map Some bs" "t \<in> set ts"
  shows "threads s t \<noteq> None"
proof
  assume "threads s t = None"
  then have "None \<in> set (bodies s ts)" using assms(2) by (force simp: bodies_def)
  then show False unfolding assms(1) by auto
qed

lemma booted_next:
  assumes i: "kernel_inv m s U (f + 68)" and h: "handle \<noteq> 0" "bdy \<noteq> 0" "handle \<notin> set hs" and r: "fresh (kheap s) i n" "i + 68 < n"
    and b: "booted s hs bs"
  obtains s' where "thread_create J handle bdy 0 s = Some (Some 0, s')" "kernel_inv m s' U f" "fresh (kheap s') (i + 68) n"
    "booted s' (hs @ [handle]) (bs @ [bdy])" "running s' = running s"
proof -
  let ?ts = "running s # ready s"
  obtain q s' x where n: "thread_create J handle bdy 0 s = Some (Some 0, s')" "kernel_inv m s' U f" "fresh (kheap s') (i + 68) n"
    "umem s' = (umem s)(handle := q)" "running s' = running s" "ready s' = ready s @ [q]" "threads s q = None" "threads s' q = Some x"
    "body x = bdy" "\<forall>t. t \<noteq> q \<longrightarrow> t \<noteq> running s \<longrightarrow> threads s' t = threads s t"
    "map_option body (threads s' (running s)) = map_option body (threads s (running s))"
    by (rule boot_next [OF i h(1,2) r])
  have bs: "bodies s ?ts = map Some bs" using b unfolding booted_def by blast
  have q: "q \<notin> set ?ts" using bodies_live [OF bs] n(7) by blast
  have "map_option body (threads s' t) = map_option body (threads s t)" if "t \<in> set ?ts" for t
    using n(10,11) q that by (cases "t = running s") (auto simp del: list.set)
  then have "bodies s' ?ts = bodies s ?ts" unfolding bodies_def by (rule map_cong [OF refl])
  then have "bodies s' ?ts = map Some bs" by (simp only: bs)
  then have "bodies s' (?ts @ [q]) = map Some (bs @ [bdy])" using n(8,9) unfolding bodies_def map_append by simp
  moreover have "map (umem s') hs = ?ts" using b h(3) unfolding n(4) booted_def by (metis map_fun_upd)
  then have "?ts @ [q] = map (umem s') (hs @ [handle])" by (simp add: n(4))
  moreover have "distinct ?ts" using b unfolding booted_def by blast
  then have "distinct (?ts @ [q])" using q unfolding distinct_append by simp
  moreover have "running s' # ready s' = ?ts @ [q]" by (simp add: n(5,6))
  ultimately have "booted s' (hs @ [handle]) (bs @ [bdy])" by (simp only: booted_def)
  from that [OF n(1-3) this n(5)] show ?thesis .
qed

text \<open>
  C21: From the static state of the kernel, on a heap of at least 272 blocks, \<open>main\<close> reaches its loop with the kernel's
  invariant in force. Exactly the first 271 blocks are in use, 67 for the stack and the object of \<open>main\<close>'s thread and 68 for
  each of the other three, which also have a cell in the ready queue; the rest of the heap is one free block. \<open>main\<close> runs, as the
  thread with the null body, the two console threads and the idle thread are ready, in this order, each with its own function as
  body, the four local variables hold the four threads, and traps lead to \<open>supervisorTrap\<close>.
\<close>

theorem boot_spec:
  assumes "kern M = kernel0 rg (static_heap W b e)" "geom b n" "n = unat (e - b) div 64" "272 \<le> n"
    "distinct [0, main_thread v, putc_thread v, getc_thread v, idle_thread v]"
    "putter_at k \<noteq> 0" "getter_at k \<noteq> 0" "idle_at k \<noteq> 0"
  shows "\<exists>s U. main_start J v k M = Some (M\<lparr>csr := w_stvec (supervisorTrap_at k) (csr M), kern := s\<rparr>) \<and>
    kernel_inv (running s) s U (n - 271) \<and> fresh (kheap s) 271 n \<and>
    running s # ready s = map (umem s) [main_thread v, putc_thread v, getc_thread v, idle_thread v] \<and>
    distinct (running s # ready s) \<and>
    bodies s (running s # ready s) = map Some [0, putter_at k, getter_at k, idle_at k]"
proof -
  have h: "main_thread v \<noteq> 0" "putc_thread v \<noteq> 0" "getc_thread v \<noteq> 0" "idle_thread v \<noteq> 0" and n: "68 \<le> n" using assms(4,5) by auto
  have g: "\<not> initialazed (static_heap W b e)" "geom (HEAP_START_ADDR (static_heap W b e)) n"
    "n = unat (HEAP_END_ADDR (static_heap W b e) - HEAP_START_ADDR (static_heap W b e)) div 64"
    using assms(2,3) by (simp_all add: static_heap_def)
  obtain m s1 U x1 where 1: "thread_create J (main_thread v) 0 0 (kernel0 rg (static_heap W b e)) = Some (Some 0, s1)" "kernel_inv m s1 U (n - 68)"
    "fresh (kheap s1) 67 n" "umem s1 = (\<lambda>_. 0)(main_thread v := m)" "running s1 = m" "ready s1 = []" "threads s1 m = Some x1" "body x1 = 0"
    by (rule boot_first [OF g n h(1)])
  have b1: "booted s1 [main_thread v] [0]" using 1 by (simp add: booted_def bodies_def)
  have i1: "kernel_inv m s1 U (n - 136 + 68)" by (rule kernel_inv_mono [OF 1(2)]) (use assms(4) in simp)
  obtain s2 where 2: "thread_create J (putc_thread v) (putter_at k) 0 s1 = Some (Some 0, s2)" "kernel_inv m s2 U (n - 136)"
    "fresh (kheap s2) (67 + 68) n" "booted s2 ([main_thread v] @ [putc_thread v]) ([0] @ [putter_at k])" "running s2 = running s1"
    by (rule booted_next [OF i1 h(2) assms(6) _ 1(3) _ b1]) (use assms(4,5) in auto)
  have i2: "kernel_inv m s2 U (n - 204 + 68)" by (rule kernel_inv_mono [OF 2(2)]) (use assms(4) in simp)
  obtain s3 where 3: "thread_create J (getc_thread v) (getter_at k) 0 s2 = Some (Some 0, s3)" "kernel_inv m s3 U (n - 204)"
    "fresh (kheap s3) (67 + 68 + 68) n"
    "booted s3 (([main_thread v] @ [putc_thread v]) @ [getc_thread v]) (([0] @ [putter_at k]) @ [getter_at k])" "running s3 = running s2"
    by (rule booted_next [OF i2 h(3) assms(7) _ 2(3) _ 2(4)]) (use assms(4,5) in auto)
  have i3: "kernel_inv m s3 U (n - 272 + 68)" by (rule kernel_inv_mono [OF 3(2)]) (use assms(4) in simp)
  obtain s4 where 4: "thread_create J (idle_thread v) (idle_at k) 0 s3 = Some (Some 0, s4)" "kernel_inv m s4 U (n - 272)"
    "fresh (kheap s4) (67 + 68 + 68 + 68) n"
    "booted s4 ((([main_thread v] @ [putc_thread v]) @ [getc_thread v]) @ [idle_thread v])
       ((([0] @ [putter_at k]) @ [getter_at k]) @ [idle_at k])" "running s4 = running s3"
    by (rule booted_next [OF i3 h(4) assms(8) _ 3(3) _ 3(4)]) (use assms(4,5) in auto)
  have "main_start J v k M = Some (M\<lparr>csr := w_stvec (supervisorTrap_at k) (csr M), kern := s4\<rparr>)"
    using assms(1) 1(1) 2(1) 3(1) 4(1) by (simp add: main_start_def Let_def)
  moreover have "running s4 = m" using 1(5) 2(5) 3(5) 4(5) by simp
  moreover have f: "fresh (kheap s4) 271 n" using 4(3) by simp
  moreover have "kernel_inv m s4 U (n - 271)" by (rule fresh_inv [OF 4(2) f])
  ultimately show ?thesis using 4(4) [unfolded booted_def append.simps] by metis
qed

definition ex_locals :: main_locals where
  "ex_locals = \<lparr>main_thread = 0x80030000, putc_thread = 0x80030008, getc_thread = 0x80030010, idle_thread = 0x80030018\<rparr>"

definition ex_addresses :: code_addresses where
  "ex_addresses = \<lparr>supervisorTrap_at = 0x80001000, putter_at = 0x80001100, getter_at = 0x80001200, idle_at = 0x80001300\<rparr>"

definition ex_static :: machine where
  "ex_static = ex_machine (kernel0 ex_regs (static_heap (\<lambda>_. 0) 0x80010000 0x80020000)) 0"

lemma boot_spec_witness:
  "\<exists>s U. main_start (\<lambda>_. 0) ex_locals ex_addresses ex_static = Some (ex_static\<lparr>csr := w_stvec 0x80001000 (csr ex_static), kern := s\<rparr>) \<and>
     kernel_inv (running s) s U 753 \<and> bodies s (running s # ready s) = [Some 0, Some 0x80001100, Some 0x80001200, Some 0x80001300]"
proof -
  have "kern ex_static = kernel0 ex_regs (static_heap (\<lambda>_. 0) 0x80010000 0x80020000)" by (simp add: ex_static_def ex_machine_def)
  moreover have "geom 0x80010000 1024" "1024 = unat (0x80020000 - 0x80010000 :: u64) div 64" by (simp_all add: geom_def)
  moreover have "distinct [0, main_thread ex_locals, putc_thread ex_locals, getc_thread ex_locals, idle_thread ex_locals]"
    by (simp add: ex_locals_def)
  moreover have "(272 :: nat) \<le> 1024" by simp
  moreover have "putter_at ex_addresses \<noteq> 0" "getter_at ex_addresses \<noteq> 0" "idle_at ex_addresses \<noteq> 0" by (simp_all add: ex_addresses_def)
  ultimately obtain s U where "main_start (\<lambda>_. 0) ex_locals ex_addresses ex_static =
      Some (ex_static\<lparr>csr := w_stvec (supervisorTrap_at ex_addresses) (csr ex_static), kern := s\<rparr>)"
    "kernel_inv (running s) s U (1024 - 271)"
    "bodies s (running s # ready s) = map Some [0, putter_at ex_addresses, getter_at ex_addresses, idle_at ex_addresses]"
    using boot_spec by blast
  then show ?thesis by (intro exI [of _ s] exI [of _ U]) (simp add: ex_addresses_def)
qed

subsection \<open>How the loop of \<open>main\<close> ends\<close>

text \<open>
  C39: When the idle thread exits and it is \<open>main\<close>'s turn, \<open>main\<close> asks whether \<open>idle_thread\<close> is finished of an
  object that the dispatcher has already deleted: in the model, where that is a fault, the test of its loop fails.
\<close>

theorem main_reads_freed_thread:
  assumes "kernel_inv m s U (Suc f)" "running s = umem s (idle_thread v)" "threads s (running s) = Some x" "parentThread x = m"
    "m \<noteq> running s" "hd (ready s) = m"
  shows "\<exists>r s'. syscall 0x12 a1 a2 a3 a4 s = Some (r, s') \<and> running s' = m \<and> umem s' = umem s \<and> main_continue v s' = None"
proof -
  have k: "kmem s U (Suc f)" "ainv m (abs s)" using assms(1) by (simp_all add: kernel_inv_def)
  have "m \<in> set (aready (abs s))" using k(2) assms(5) by (auto simp: ainv_def)
  then obtain y where y: "threads s m = Some y" using k(2) by (auto simp: ainv_def shape_def lists_ok_def)
  have "m \<noteq> 0" "running s \<noteq> 0" using y assms(3) kmem_null(1) [OF k(1)] by auto
  with thread_exits [OF assms(1,5,3)] assms(4-6) y obtain r s' z where
    "syscall 0x12 a1 a2 a3 a4 s = Some (r, s')" "threads s' (running s) = None" "running s' = m" "umem s' = umem s" by metis
  then show ?thesis
    using assms(2) \<open>running s \<noteq> 0\<close>
    by (intro exI [of _ r] exI [of _ s']) (simp add: main_continue_def isFinished_def isThreadValid_def)
qed

lemma main_reads_freed_thread_witness:
  "\<exists>r s'. syscall 0x12 0 0 0 0 (ex4\<lparr>umem := (\<lambda>_. 0)(0x80030018 := user_t)\<rparr>) = Some (r, s') \<and> running s' = main_t \<and>
     main_continue ex_locals s' = None"
proof -
  let ?s = "ex4\<lparr>umem := (\<lambda>_. 0)(0x80030018 := user_t)\<rparr>"
  obtain U where i: "kernel_inv main_t ex4 U (Suc 169)" using ex4(1) by auto
  have a: "arunning (abs ex4) = user_t" "aready (abs ex4) = [main_t]" "athreads (abs ex4) user_t = Some (ex_user\<lparr>threadState := RUNNING\<rparr>)"
    unfolding ex4(2) by simp_all
  have "kmem ?s U (Suc 169)" by (rule kmem_cong [OF i [unfolded kernel_inv_def, THEN conjunct1]]) simp_all
  moreover have "ainv main_t (abs ?s)" using i by (simp add: kernel_inv_def)
  ultimately have k: "kernel_inv main_t ?s U (Suc 169)" by (simp add: kernel_inv_def)
  have b: "parentThread (ex_user\<lparr>threadState := RUNNING\<rparr>) = main_t" by (simp add: ex_user_def)
  show ?thesis
    using main_reads_freed_thread [OF k _ _ b, of ex_locals 0 0 0 0] a by (auto simp: ex_locals_def)
qed

end
