(* ===== verification/Deadlines.thy ===== *)
theory Deadlines
  imports TimeProps
begin

text \<open>
  Waking times through all operations of the abstract kernel: which operations leave the sleeping threads
  alone (\<open>calm\<close>), that those that put a thread to sleep give it a waking time that is not in the past, and
  what a tick does.
\<close>

subsection \<open>Operations that leave the sleeping threads alone\<close>

lemma in_set_remove1D: "x \<in> set (remove1 t xs) \<Longrightarrow> x \<in> set xs"
  using set_remove1_subset by fastforce

named_theorems calm "operations that neither put threads to sleep nor change waking times"

definition wakes :: "akernel \<Rightarrow> u64 \<Rightarrow> u64 option" where
  "wakes a t = map_option timeForWakingUp (athreads a t)"

definition ontime :: "akernel \<Rightarrow> bool" where
  "ontime a \<longleftrightarrow> (\<forall>t\<in>set (aasleep a). \<forall>w. wakes a t = Some w \<longrightarrow> atime a \<le> w)"

definition calm :: "akernel \<Rightarrow> akernel \<Rightarrow> bool" where
  "calm a b \<longleftrightarrow> atime b = atime a \<and> set (aasleep b) \<subseteq> set (aasleep a) \<and> (\<forall>t\<in>set (aasleep b). wakes b t = wakes a t \<or> wakes b t = None)"

lemma calm_ontime: "calm a b \<Longrightarrow> ontime a \<Longrightarrow> ontime b"
  by (force simp: calm_def ontime_def)

lemma calm_refl [calm]: "calm a a"
  by (simp add: calm_def)

lemma calm_trans: "calm a b \<Longrightarrow> calm b c \<Longrightarrow> calm a c"
  by (fastforce simp: calm_def)

lemma calm_fields [simp]:
  "calm c (a\<lparr>aready := q\<rparr>) = calm c a" "calm c (a\<lparr>arunning := t\<rparr>) = calm c a" "calm c (a\<lparr>asems := m\<rparr>) = calm c a"
  "calm c (a\<lparr>aallsems := q\<rparr>) = calm c a" "calm c (a\<lparr>anumsems := n\<rparr>) = calm c a" "calm c (a\<lparr>aID := n\<rparr>) = calm c a"
  "calm c (a\<lparr>asystem := n\<rparr>) = calm c a" "calm c (a\<lparr>acpu := n\<rparr>) = calm c a" "calm c (a\<lparr>anumasleep := n\<rparr>) = calm c a"
  "calm c (a\<lparr>acon := k\<rparr>) = calm c a" "calm c (a\<lparr>aumem := f\<rparr>) = calm c a"
  by (simp_all add: calm_def wakes_def)

lemma calm_thread [calm]: "calm c a \<Longrightarrow> (\<And>x. timeForWakingUp (f x) = timeForWakingUp x) \<Longrightarrow> calm c (a_thread t f a)"
  by (auto simp: calm_def wakes_def a_thread_def option.map_comp comp_def)

lemma calm_more [calm]:
  "calm c a \<Longrightarrow> calm c (a_sem p g a)" "calm c a \<Longrightarrow> calm c (a_put t a)" "calm c a \<Longrightarrow> calm c (a_status t st a)"
  "calm c a \<Longrightarrow> set xs \<subseteq> set (aasleep a) \<Longrightarrow> calm c (a\<lparr>aasleep := xs\<rparr>)"
  "calm c a \<Longrightarrow> (\<And>t. m t = athreads a t \<or> m t = None) \<Longrightarrow> calm c (a\<lparr>athreads := m\<rparr>)"
proof -
  show "calm c a \<Longrightarrow> calm c (a_sem p g a)" "calm c a \<Longrightarrow> calm c (a_put t a)" "calm c a \<Longrightarrow> calm c (a_status t st a)"
    by (auto simp: calm_def wakes_def a_sem_def a_put_def a_status_def a_thread_def option.map_comp comp_def)
  show "calm c a \<Longrightarrow> set xs \<subseteq> set (aasleep a) \<Longrightarrow> calm c (a\<lparr>aasleep := xs\<rparr>)" by (auto simp: calm_def wakes_def)
  show "calm c (a\<lparr>athreads := m\<rparr>)" if "calm c a" "\<And>t. m t = athreads a t \<or> m t = None"
    unfolding calm_def
  proof (intro conjI ballI)
    fix t assume "t \<in> set (aasleep (a\<lparr>athreads := m\<rparr>))"
    then show "wakes (a\<lparr>athreads := m\<rparr>) t = wakes c t \<or> wakes (a\<lparr>athreads := m\<rparr>) t = None"
      using that(1) that(2) [of t] by (auto simp: calm_def wakes_def)
  qed (use that(1) in \<open>auto simp: calm_def\<close>)
qed

lemma calm_leave [calm]: "calm c a \<Longrightarrow> calm c (a_leave a)"
  unfolding a_leave_def Let_def by (auto intro!: calm split: if_splits)

lemma calm_purge [calm]: "calm c a \<Longrightarrow> calm c (a_purge a)"
  unfolding a_purge_def by (auto intro!: calm simp: restrict_map_def split: if_splits)

lemma calm_enter [calm]: "calm c a \<Longrightarrow> calm c (a_enter a)"
  unfolding a_enter_def by (auto intro!: calm)

lemma calm_dispatch [calm]: "calm c a \<Longrightarrow> calm c (a_dispatch k a)"
  unfolding a_dispatch_def by (intro calm) simp_all

lemma calm_exit [calm]: "calm c a \<Longrightarrow> calm c (a_exit a)"
  unfolding a_exit_def a_finish_def Let_def by (auto intro!: calm)

lemma calm_create: "calm c a \<Longrightarrow> p \<notin> set (aasleep a) \<Longrightarrow> calm c (a_create p bdy ar stk a)"
  unfolding a_create_def a_put_def Let_def by (auto simp: calm_def wakes_def a_thread_def option.map_comp comp_def)

lemma calm_block [calm]: "calm c a \<Longrightarrow> calm c (a_block p a)"
  unfolding a_block_def Let_def by (auto intro!: calm)

lemma calm_unblock [calm]: "calm c a \<Longrightarrow> calm c (a_unblock cause p a)"
  unfolding a_unblock_def a_release_def Let_def by (auto intro!: calm dest: in_set_remove1D)

lemma calm_units [calm]: "calm c a \<Longrightarrow> calm c (a_inc p a)" "calm c a \<Longrightarrow> calm c (a_dec p a)"
  unfolding a_inc_def a_dec_def by (auto intro!: calm)

lemma calm_unblockAll [calm]: "calm c a \<Longrightarrow> calm c (a_unblockAll cause p n a)"
  by (induction n arbitrary: a) (simp_all add: calm_units calm_unblock)

lemma calm_close [calm]: "calm c a \<Longrightarrow> calm c (a_close p a)"
  unfolding a_close_def Let_def by (auto intro!: calm)

lemma calm_open [calm]: "calm c a \<Longrightarrow> calm c (a_open p v a)"
  by (simp add: a_open_def)

lemma calm_signal [calm]: "calm c a \<Longrightarrow> calm c (snd (a_signal p a))"
  unfolding a_signal_def Let_def by (auto intro!: calm)

lemma calm_wait [calm]: "calm c a \<Longrightarrow> calm c (snd (a_wait k p a))"
  unfolding a_wait_def Let_def by (auto intro!: calm)

lemma calm_con_init [calm]: "calm c a \<Longrightarrow> calm c (a_con_init p a)"
  unfolding a_con_init_def by (auto intro!: calm)

text \<open>The rest of a call changes the waking time of the running thread, which is awake.\<close>

lemma resume_asleep:
  "aasleep (snd (a_resume a)) = aasleep a \<and> arunning (snd (a_resume a)) = arunning a \<and> atime (snd (a_resume a)) = atime a"
  using same_lists_resume [of a] by (simp add: same_lists_def)

lemma calm_resume:
  assumes "calm c a" "arunning a \<notin> set (aasleep a)"
  shows "calm c (snd (a_resume a))"
proof -
  have "wakes (snd (a_resume a)) t = wakes a t" if "t \<in> set (aasleep a)" for t
  proof -
    have "t \<noteq> arunning a" using assms(2) that by auto
    then show ?thesis using same_lists_resume [of a] unfolding same_lists_def wakes_def by metis
  qed
  then have "calm a (snd (a_resume a))" using resume_asleep [of a] by (simp add: calm_def)
  with assms(1) show ?thesis by (rule calm_trans)
qed

subsection \<open>Falling asleep\<close>

lemma ontime_asleep:
  assumes "ontime a" "unat (atime a) + unat d < 2 ^ 64" "set (aasleep b) = insert (arunning a) (set (aasleep a))"
    "atime b = atime a" "wakes b = (wakes a)(arunning a := Some (atime a + d))"
  shows "ontime b"
proof -
  have "atime a \<le> atime a + d" using assms(2) by (simp add: word_le_nat_alt unat_word_ariths)
  then show ?thesis using assms(1,3-5) by (auto simp: ontime_def)
qed

lemma wakes_thread: "wakes (a_thread t f a) = (wakes a)(t := map_option (\<lambda>x. timeForWakingUp (f x)) (athreads a t))"
  by (auto simp: wakes_def a_thread_def fun_eq_iff option.map_comp comp_def)

lemma wakes_fields [simp]:
  "wakes (a\<lparr>aasleep := xs\<rparr>) = wakes a" "wakes (a\<lparr>anumasleep := n\<rparr>) = wakes a" "wakes (a_sem p g a) = wakes a"
  "wakes (a_insert_asleep t a) = wakes a" "wakes (a_status t st a) = wakes a"
  by (auto simp: wakes_def fun_eq_iff a_sem_def a_insert_asleep_def a_status_def a_thread_def option.map_comp comp_def)

lemma ontime_sleep:
  assumes "ontime a" "unat (atime a) + unat d < 2 ^ 64" "athreads a (arunning a) \<noteq> None"
  shows "ontime (a_sleep d a)"
  by (rule ontime_asleep [OF assms(1,2)]) (use assms(3) in \<open>auto simp: a_sleep_def Let_def wakes_thread set_insort_key\<close>)

lemma ontime_timedBlock:
  assumes "ontime a" "unat (atime a) + unat d < 2 ^ 64" "athreads a (arunning a) \<noteq> None"
  shows "ontime (a_timedBlock p d a)"
  by (rule ontime_asleep [OF assms(1,2)])
    (use assms(3) in \<open>auto simp: a_timedBlock_def Let_def wakes_thread a_status_def add.commute set_insort_key\<close>)

text \<open>After any call the time is the same and nobody has overslept.\<close>

definition kept :: "akernel \<Rightarrow> akernel \<Rightarrow> bool" where
  "kept a b \<longleftrightarrow> atime b = atime a \<and> (ontime a \<longrightarrow> ontime b)"

lemma calm_kept: "calm a b \<Longrightarrow> kept a b"
  using calm_ontime by (auto simp: kept_def calm_def)

lemma kept_trans: "kept a b \<Longrightarrow> kept b c \<Longrightarrow> kept a c"
  by (auto simp: kept_def)

lemma kept_resume:
  assumes "kept a b" "ainv m (snd (a_resume b))"
  shows "kept a (snd (a_resume b))"
proof -
  have "arunning b \<notin> set (aasleep b)" using assms(2) resume_asleep [of b] by (auto simp: ainv_def stands_def)
  from calm_kept [OF calm_resume [OF calm_refl this]] show ?thesis by (rule kept_trans [OF assms(1)])
qed

lemma kept_sleep:
  assumes "athreads a (arunning a) \<noteq> None" "unat (atime a) + unat d < 2 ^ 64"
  shows "kept a (a_dispatch k (a_sleep d a))" "kept a (a_dispatch k (a_timedBlock p d a))"
proof -
  have "kept a (a_sleep d a)" "kept a (a_timedBlock p d a)"
    using ontime_sleep [OF _ assms(2,1)] ontime_timedBlock [OF _ assms(2,1)]
    by (auto simp: kept_def a_sleep_def a_timedBlock_def Let_def a_status_def)
  then show "kept a (a_dispatch k (a_sleep d a))" "kept a (a_dispatch k (a_timedBlock p d a))"
    using kept_trans calm_kept [OF calm_dispatch [OF calm_refl]] by blast+
qed

lemma kept_timedWait:
  assumes "athreads a (arunning a) \<noteq> None" "unat (atime a) + unat d < 2 ^ 64"
  shows "kept a (snd (a_timedWait p d a))"
proof -
  have "kept a (a_dec p a)" by (rule calm_kept) (intro calm)
  moreover have "kept (a_dec p a) (a_dispatch (In_timedWait p) (a_timedBlock p d (a_dec p a)))"
    by (rule kept_sleep) (use assms in \<open>simp_all add: a_dec_def\<close>)
  ultimately show ?thesis using kept_trans by (auto simp: a_timedWait_def Let_def)
qed

lemma kept_continue:
  assumes "kept a (snd x)" "ainv m (snd (a_continue x))"
  shows "kept a (snd (a_continue x))"
proof -
  obtain r b where x: "x = (r, b)" by force
  show ?thesis using assms kept_resume [of a b m] unfolding x by (cases r) auto
qed

lemma kept_getc:
  assumes "ainv m (snd (a_getc a))"
  shows "kept a (snd (a_getc a))"
proof -
  obtain r b where x: "a_wait In_getChar (characterReadyToGet (acon a)) a = (r, b)" by force
  have b: "calm a b" using calm_wait [OF calm_refl, of a In_getChar "characterReadyToGet (acon a)"] unfolding x by simp
  show ?thesis
  proof (cases r)
    case None
    then show ?thesis using kept_resume [OF calm_kept [OF b], of m] assms by (simp add: a_getc_def x)
  next
    case (Some i)
    then have "snd (a_getc a) = snd (a_read_get b)" by (simp add: a_getc_def x case_prod_unfold Let_def)
    then have "calm a (snd (a_getc a))" using b by (simp add: a_read_get_def case_prod_unfold Let_def)
    then show ?thesis by (rule calm_kept)
  qed
qed

text \<open>A delay that may be added to the time without overflow.\<close>

definition fits :: "u64 \<Rightarrow> u64 \<Rightarrow> u64 \<Rightarrow> u64 \<Rightarrow> bool" where
  "fits c a1 a2 now \<longleftrightarrow> (c = 0x25 \<longrightarrow> unat now + unat a2 < 2 ^ 64) \<and> (c = 0x31 \<longrightarrow> unat now + unat (clamp_sleep a1) < 2 ^ 64)"

lemma kept_call:
  assumes "a_call c a1 a2 a3 a4 a (r, b)" "ainv m a" "ainv m b" "fits c a1 a2 (atime a)"
  shows "kept a b"
proof -
  have sub: "set (aasleep a) \<subseteq> dom (athreads a)" using assms(2) unfolding ainv_def shape_def lists_ok_def Un_subset_iff by blast
  have run: "athreads a (arunning a) \<noteq> None" using assms(2) by (auto simp: ainv_def)
  have inert: "kept a a" by (rule calm_kept [OF calm_refl])
  from assms(1) show ?thesis
  proof (cases rule: a_callE)
    case (create p)
    then have "p \<notin> set (aasleep a)" using sub by auto
    then have "calm a b" using create calm_create [OF calm_refl] by simp
    then show ?thesis by (rule calm_kept)
  next
    case exit
    have "kept a (a_exit a)" by (rule calm_kept) (intro calm)
    then show ?thesis using kept_resume [of a "a_exit a" m] assms(3) exit by (metis snd_conv)
  next
    case yield
    have "kept a (a_dispatch In_dispatch_wrapper a)" by (rule calm_kept) (intro calm)
    then show ?thesis using kept_resume [of a _ m] assms(3) yield by (metis snd_conv)
  next
    case (sem_open p)
    then show ?thesis using calm_open [OF calm_refl] by (auto intro: calm_kept)
  next
    case sem_close
    then show ?thesis using calm_close [OF calm_refl] by (auto intro: calm_kept)
  next
    case sem_wait
    have "kept a (snd (a_wait In_wait a1 a))" by (rule calm_kept) (intro calm)
    then show ?thesis using kept_continue [of a _ m] assms(3) sem_wait by (metis snd_conv)
  next
    case sem_signal
    then show ?thesis using calm_signal [OF calm_refl] by (auto intro: calm_kept)
  next
    case sem_timedwait
    then have "kept a (snd (a_timedWait a1 a2 a))" using kept_timedWait [OF run, of a2 a1] assms(4) by (simp add: fits_def)
    then show ?thesis using kept_continue [of a _ m] assms(3) sem_timedwait by (metis snd_conv)
  next
    case sem_trywait
    then show ?thesis using calm_units(2) [OF calm_refl] by (auto intro: calm_kept)
  next
    case sleep
    then have "kept a (a_dispatch In_sleep (a_sleep (clamp_sleep a1) a))" using kept_sleep(1) [OF run] assms(4) by (simp add: fits_def)
    then show ?thesis using kept_resume [of a _ m] assms(3) sleep by (metis snd_conv)
  next
    case (getc p)
    have i: "kept a (a_con_init p a)" by (rule calm_kept) (intro calm)
    have "snd (a_getc (a_con_init p a)) = b" using getc(2) by (metis snd_conv)
    then show ?thesis using kept_trans [OF i kept_getc [of m]] assms(3) by metis
  next
    case (putc p r' c')
    then show ?thesis using calm_con_init [OF calm_refl] by (auto intro: calm_kept)
  qed (simp_all add: inert)
qed

lemma calm_wake_list [calm]: "calm c a \<Longrightarrow> calm c (a_wake_list xs a)"
proof (induction xs arbitrary: a)
  case (Cons t xs)
  have "calm c (a_wake t a)" using Cons.prems
    unfolding a_wake_def a_timeout_def a_release_def Let_def by (auto intro!: calm dest: in_set_remove1D)
  then show ?case using Cons by simp
qed simp

text \<open>After a tick every thread that is still asleep has a later waking time.\<close>

lemma wakes_asleep:
  assumes "ainv m (abs s)" "t \<in> set (asleep s)"
  shows "wakes (abs s) t = Some (wake_time s t)"
proof -
  have "t \<in> dom (threads s)" using assms unfolding ainv_def shape_def lists_ok_def Un_subset_iff abs_sel by blast
  then show ?thesis by (auto simp: wakes_def wake_time_def)
qed

lemma ontime_kernel: "ainv m (abs s) \<Longrightarrow> ontime (abs s) \<longleftrightarrow> (\<forall>t\<in>set (asleep s). SYS_TIME s \<le> wake_time s t)"
  using wakes_asleep by (auto simp: ontime_def)

lemma tick_time:
  assumes "kernel_inv m s U (Suc f)" "timer_trap s = Some (r, s')"
  shows "kernel_inv m s' U (Suc f)" "a_timer (abs s) = (r, abs s')" "SYS_TIME s' = SYS_TIME s + 1"
    "\<forall>t\<in>set (asleep s'). SYS_TIME s' < wake_time s' t"
proof -
  have k: "ainv m (abs s)" using assms(1) by (simp add: kernel_inv_def)
  then obtain x where x: "threads s (running s) = Some x" by (auto simp: ainv_def)
  note w = a_woken_ok [OF k x]
  from timer_trap_runs [OF assms(1)] show i: "kernel_inv m s' U (Suc f)" and a: "a_timer (abs s) = (r, abs s')"
    using assms(2) by (auto elim!: runsE simp: prod_eq_iff)
  let ?w = "a_woken (abs s)"
  let ?c = "(abs s)\<lparr>asip := Bit_Operations.and (sip s) (Bit_Operations.not SIP_SSIP), atime := SYS_TIME s + 1, acpu := runningThread_CPU_time s + 1\<rparr>"
  have b: "abs s' = snd (a_resume (a_dispatch In_timer ?w)) \<or> abs s' = ?w"
    using arg_cong [OF a, of snd] by (auto simp: a_timer_def a_tick_def a_woken_def Let_def split: if_splits)
  have cw: "calm ?c ?w" by (simp add: a_woken_def calm)
  have "running s' \<notin> set (asleep s')" using i by (simp add: kernel_inv_def ainv_def stands_def)
  then have cs: "calm ?w (abs s')" using b calm_resume [OF calm_dispatch [OF calm_refl]] resume_asleep [of "a_dispatch In_timer ?w"] calm_refl
    by (metis abs_sel(3,5))
  show t: "SYS_TIME s' = SYS_TIME s + 1" using cs w(6) by (simp add: calm_def)
  show "\<forall>t\<in>set (asleep s'). SYS_TIME s' < wake_time s' t"
  proof
    fix t assume m: "t \<in> set (asleep s')"
    then have "t \<in> set (asleep s)" "\<not> wake_time s t \<le> SYS_TIME s + 1" using cs w(2) by (auto simp: calm_def)
    moreover have "wakes (abs s') t = wakes (abs s) t"
      using calm_trans [OF cw cs] m wakes_asleep [of m s' t] i by (auto simp: calm_def wakes_def kernel_inv_def)
    ultimately show "SYS_TIME s' < wake_time s' t"
      using wakes_asleep [OF k] wakes_asleep [of _ s' t] i m t by (auto simp: kernel_inv_def)
  qed
qed

end
