(* ===== verification/Traces.thy ===== *)
theory Traces
  imports Deadlines
begin

text \<open>
  What holds of the runs of the kernel (\<open>kernel_trace\<close>: admissible calls, memory left), as sequences of their events: each is a run of the abstract
  kernel with the same answers, and, while the time does not wrap, no thread sleeps longer than it should.
\<close>

definition a_kernel0 :: akernel where
  "a_kernel0 = \<lparr>athreads = Map.empty, asems = Map.empty, arunning = 0, aready = [], aasleep = [], aallsems = [], anumsems = 0, aID = 0,
     asystem = 0, atime = 0, acpu = 0, anumasleep = 0, acon = console0, asip = 0, aumem = (\<lambda>_. 0)\<rparr>"

inductive a_trace :: "u64 \<Rightarrow> event list \<Rightarrow> akernel \<Rightarrow> bool" for m where
  boot: "m \<noteq> 0 \<Longrightarrow> a_trace m [] (a_create m 0 0 0 a_kernel0)"
| call: "a_trace m es a \<Longrightarrow> a_call c a1 a2 a3 a4 a (r, b) \<Longrightarrow> a_trace m (es @ [Call c a1 a2 a3 a4 r]) b"
| tick: "a_trace m es a \<Longrightarrow> a_timer a = (r, b) \<Longrightarrow> a_trace m (es @ [Tick r]) b"

lemma abs_kernel0: "abs (kernel0 rg h) = a_kernel0"
  by (simp add: abs_def kernel0_def a_kernel0_def fun_eq_iff)

lemma boot_abs:
  assumes "heap_live h U (f + 7)" "kmalloc 2 h = Some (m, h')" "m \<noteq> 0" "createThread 0 0 0 (kernel0 rg h) = Some (m, s)"
  shows "abs s = a_create m 0 0 0 a_kernel0"
proof -
  have "heap_live h U (f + 4 + 3)" using assms(1) by (simp add: add.assoc)
  from boot_inv(2) [OF this assms(2,3), of rg] show ?thesis by (simp add: assms(4) abs_kernel0)
qed

lemma call_abs:
  assumes "kernel_trace m es s U" "kmem s U 4" "call_ok m U s c a1 a2 a4" "syscall c a1 a2 a3 a4 s = Some (r, s')"
  shows "a_call c a1 a2 a3 a4 (abs s) (r, abs s')" "ainv m (abs s)" "ainv m (abs s')"
proof -
  have k: "kernel_inv m s U (0 + 4)" using kernel_trace_inv [OF assms(1)] assms(2) by (simp add: kernel_inv_def)
  from every_call_safe [OF k assms(3), of a3] assms(4) show "a_call c a1 a2 a3 a4 (abs s) (r, abs s')" "ainv m (abs s')"
    by (auto simp: kernel_inv_def)
  show "ainv m (abs s)" using k by (simp add: kernel_inv_def)
qed

text \<open>
  C4: Every run of the kernel whose system calls satisfy \<open>call_ok\<close> and whose steps are made with four blocks of memory free is a run of the
  abstract kernel, with the same system calls in the same order, interleaved
  with the same timer interrupts, and the same answers; the queues of threads, the semaphores' values, all fields of the threads,
  the time and the console are those of the abstract kernel, in which there is no memory and no pointer.
\<close>

theorem traces_refine:
  assumes "kernel_trace m es s U"
  shows "a_trace m es (abs s)"
  using assms
proof (induction rule: kernel_trace.induct)
  case (boot h U f h' rg s)
  then show ?case using boot_abs [OF boot] a_trace.boot by simp
next
  case (call es s U c a1 a2 a4 a3 r s' U')
  show ?case by (rule a_trace.call [OF call.IH call_abs(1) [OF call.hyps(1-4)]])
next
  case (tick es s U r s')
  have "kernel_inv m s U (Suc 3)" using kernel_trace_inv [OF tick.hyps(1)] tick.hyps(2) by (simp add: kernel_inv_def numeral_eq_Suc)
  from a_trace.tick [OF tick.IH tick_time(2) [OF this tick.hyps(3)]] show ?case .
qed

lemma traces_refine_witness:
  "\<exists>r s U. kernel_trace main_t [Call 0x13 0 0 0 0 r] s U \<and> a_trace main_t [Call 0x13 0 0 0 0 r] (abs s)"
proof -
  obtain U where U: "kernel_trace main_t [] ex1 U" "kmem ex1 U 200" using ex1_trace by blast
  have i: "kernel_inv main_t ex1 U (196 + 4)" using kernel_trace_inv [OF U(1)] U(2) by (simp add: kernel_inv_def)
  have ok: "call_ok main_t U ex1 0x13 0 0 0" by (simp add: call_ok_def)
  obtain r s' U' where c: "syscall 0x13 0 0 0 0 ex1 = Some (r, s')" "kernel_inv main_t s' U' 196" "user_blocks 0x13 0 0 U U'"
    using every_call_safe [OF i ok, of 0] by auto
  have "kernel_trace main_t ([] @ [Call 0x13 0 0 0 0 r]) s' U'"
    by (rule kernel_trace.call [OF U(1) _ ok c(1,3)]) (use U(2) c(2) kmem_mono in \<open>auto simp: kernel_inv_def\<close>)
  then have "kernel_trace main_t [Call 0x13 0 0 0 0 r] s' U'" by simp
  with traces_refine [OF this] show ?thesis by blast
qed

definition is_tick :: "event \<Rightarrow> bool" where
  "is_tick e = (case e of Tick _ \<Rightarrow> True | Call _ _ _ _ _ _ \<Rightarrow> False)"

definition timeout_ok :: "event \<Rightarrow> bool" where
  "timeout_ok e = (case e of Call c p d _ _ _ \<Rightarrow> c = 0x25 \<longrightarrow> unat d \<le> 2 ^ 63 | Tick _ \<Rightarrow> True)"

definition ticks :: "event list \<Rightarrow> nat" where "ticks es = length (filter is_tick es)"

text \<open>
  C14: Nobody oversleeps while the time does not wrap. In every run (of calls that satisfy \<open>call_ok\<close>, with four blocks free at each step) with less
  than \<open>2 ^ 63\<close> timer interrupts, in which no timeout of a \<open>sem_timedwait\<close> exceeds \<open>2 ^ 63\<close>, the system's time is the number of interrupts, no thread sleeps (or waits with a timeout) beyond
  its waking time, and after an interrupt the waking times of all that still sleep lie ahead.
  The bound on the timeouts is needed: \<open>time_sleep\<close> halves a time beyond \<open>2 ^ 63\<close>, but \<open>sem_timedwait\<close> adds what it is given to the time, modulo \<open>2 ^ 64\<close>,
  so that a thread with a greater timeout can have a waking time that has already passed.
\<close>

theorem nobody_oversleeps:
  assumes "kernel_trace m es s U" "ticks es < 2 ^ 63" "list_all timeout_ok es"
  shows "unat (SYS_TIME s) = ticks es \<and> (\<forall>t\<in>set (asleep s). SYS_TIME s \<le> wake_time s t) \<and>
    (es \<noteq> [] \<and> is_tick (last es) \<longrightarrow> (\<forall>t\<in>set (asleep s). SYS_TIME s < wake_time s t))"
  using assms
proof (induction rule: kernel_trace.induct)
  case (boot h U f h' rg s)
  have "SYS_TIME s = 0" "asleep s = []"
    using arg_cong [OF boot_abs [OF boot(1-4)], of atime] arg_cong [OF boot_abs [OF boot(1-4)], of aasleep]
    by (simp_all add: a_create_def Let_def a_kernel0_def)
  then show ?case by (simp add: ticks_def)
next
  case (call es s U c a1 a2 a4 a3 r s' U')
  note ca = call_abs [OF call.hyps(1-4)]
  have t: "ticks (es @ [Call c a1 a2 a3 a4 r]) = ticks es" by (simp add: ticks_def is_tick_def)
  have IH: "unat (SYS_TIME s) = ticks es" "\<forall>t\<in>set (asleep s). SYS_TIME s \<le> wake_time s t"
    using call.IH call.prems by (auto simp: t)
  have "unat (SYS_TIME s) < 2 ^ 63" using IH(1) call.prems(1) by (simp add: t)
  moreover have "c = 0x25 \<longrightarrow> unat a2 \<le> 2 ^ 63" using call.prems(2) by (simp add: timeout_ok_def)
  moreover have "unat (clamp_sleep a1) \<le> 2 ^ 63" by (rule clamp_small)
  ultimately have "fits c a1 a2 (atime (abs s))" by (auto simp: fits_def)
  from kept_call [OF ca this] have "SYS_TIME s' = SYS_TIME s" "ontime (abs s) \<longrightarrow> ontime (abs s')" by (simp_all add: kept_def)
  then show ?case using IH by (simp add: t ontime_kernel [OF ca(2)] ontime_kernel [OF ca(3)] is_tick_def)
next
  case (tick es s U r s')
  have t: "ticks (es @ [Tick r]) = Suc (ticks es)" by (simp add: ticks_def is_tick_def)
  have "unat (SYS_TIME s) = ticks es" "ticks es < 2 ^ 63" using tick.IH tick.prems by (auto simp: t)
  moreover have "kernel_inv m s U (Suc 3)"
    using kernel_trace_inv [OF tick.hyps(1)] tick.hyps(2) by (simp add: kernel_inv_def numeral_eq_Suc)
  note tt = tick_time [OF this tick.hyps(3)]
  ultimately have "unat (SYS_TIME s') = Suc (ticks es)" unfolding tt(3) by (simp add: unat_word_ariths)
  then show ?case using tt(4) by (auto simp: t intro: less_imp_le)
qed

lemma nobody_oversleeps_witness:
  "\<exists>r s U. kernel_trace main_t [Tick r] s U \<and> SYS_TIME s = 1 \<and> (\<forall>t\<in>set (asleep s). 1 < wake_time s t)"
proof -
  obtain U where U: "kernel_trace main_t [] ex1 U" "kmem ex1 U 200" using ex1_trace by blast
  have "kernel_inv main_t ex1 U (Suc 199)" using kernel_trace_inv [OF U(1)] U(2) by (simp add: kernel_inv_def)
  then obtain r s' where t: "timer_trap ex1 = Some (r, s')" by (rule runsE [OF timer_trap_runs])
  have "kernel_trace main_t ([] @ [Tick r]) s' U"
    by (rule kernel_trace.tick [OF U(1) _ t]) (use U(2) kmem_mono [of ex1 U 200 4] in simp)
  then have k: "kernel_trace main_t [Tick r] s' U" by simp
  have "unat (SYS_TIME s') = 1 \<and> (\<forall>t\<in>set (asleep s'). SYS_TIME s' < wake_time s' t)"
    using nobody_oversleeps [OF k] by (simp add: ticks_def is_tick_def timeout_ok_def)
  then have "SYS_TIME s' = 1 \<and> (\<forall>t\<in>set (asleep s'). 1 < wake_time s' t)" by (metis unat_1 word_unat_eq_iff)
  then show ?thesis using k by blast
qed

end
