(* ===== verification/Registers.thy ===== *)
theory Registers
  imports Prelude
begin

text \<open>
  The registers of a thread: what \<open>supervisorTrap\<close> (\<open>src/supervisorTrap.S\<close>), \<open>pushRegisters\<close> and \<open>popRegisters\<close> (\<open>h/_riscV.hpp\<close>)
  and \<open>contextSwitch\<close> (\<open>src/_context.cpp\<close>) do with them, instruction by instruction. All stores are of
  aligned double words; the memory is a function from their addresses. The compiler is taken to call
  \<open>contextSwitch\<close> as it is written, without a stack frame of its own.
\<close>

subsection \<open>Instructions\<close>

record core =
  xregs :: "nat \<Rightarrow> u64"
  dram :: "u64 \<Rightarrow> u64"

abbreviation RA :: nat where "RA \<equiv> 1"
abbreviation SP :: nat where "SP \<equiv> 2"

definition reg :: "nat \<Rightarrow> core \<Rightarrow> u64" where
  "reg i c = (if i = 0 then 0 else xregs c i)"

definition set_reg :: "nat \<Rightarrow> u64 \<Rightarrow> core \<Rightarrow> core" where
  "set_reg i v c = c\<lparr>xregs := (xregs c)(i := v)\<rparr>"

definition addi_sp :: "u64 \<Rightarrow> core \<Rightarrow> core" where
  "addi_sp d c = set_reg SP (reg SP c + d) c"

definition slot :: "u64 \<Rightarrow> nat \<Rightarrow> u64" where
  "slot sp i = sp + of_nat i * 8"

text \<open>\<open>sd xi, i * 8(sp)\<close> and \<open>ld xi, i * 8(sp)\<close>.\<close>

definition sd :: "nat \<Rightarrow> core \<Rightarrow> core" where
  "sd i c = c\<lparr>dram := (dram c)(slot (reg SP c) i := reg i c)\<rparr>"

definition ld :: "nat \<Rightarrow> core \<Rightarrow> core" where
  "ld i c = set_reg i (dram c (slot (reg SP c) i)) c"

subsection \<open>Saving and restoring\<close>

definition pushRegisters :: "bool \<Rightarrow> core \<Rightarrow> core" where
  "pushRegisters saveRAandSP c =
     (let c = addi_sp (- 256) c;
          c = fold sd [3..<32] c
      in if saveRAandSP then fold sd [1, 2] c else c)"

definition popRegisters :: "bool \<Rightarrow> core \<Rightarrow> core" where
  "popRegisters RAandSPwereSaved c =
     (let c = (if RAandSPwereSaved then fold ld [1, 2] c else c);
          c = fold ld [3..<32] c
      in addi_sp 256 c)"

text \<open>The halves of \<open>contextSwitch\<close>; a \<open>_context\<close> is \<open>ra\<close> and, behind it, \<open>sp\<close>.\<close>

definition save_context :: "u64 \<Rightarrow> core \<Rightarrow> core" where
  "save_context p c = c\<lparr>dram := (dram c)(p := reg RA c, p + 8 := reg SP c)\<rparr>"

definition load_context :: "u64 \<Rightarrow> core \<Rightarrow> core" where
  "load_context p c = (let c = set_reg RA (dram c p) c in set_reg SP (dram c (p + 8)) c)"

definition switch_registers :: "u64 \<Rightarrow> u64 \<Rightarrow> core \<Rightarrow> core" where
  "switch_registers old new c = load_context new (save_context old c)"

text \<open>The end of \<open>dispatch\<close>: \<open>pushRegisters\<close>, the call of \<open>contextSwitch\<close>, which leaves the address \<open>k\<close> behind it in
  \<open>ra\<close>, and, in the thread that goes on, \<open>popRegisters\<close>.\<close>

definition switch_away :: "u64 \<Rightarrow> u64 \<Rightarrow> u64 \<Rightarrow> core \<Rightarrow> core" where
  "switch_away k old new c = switch_registers old new (set_reg RA k (pushRegisters False c))"

text \<open>\<open>supervisorTrap\<close>, before and after the call of the handler.\<close>

definition trap_entry :: "core \<Rightarrow> core" where
  "trap_entry c = fold sd [0..<32] (addi_sp (- 256) c)"

definition trap_exit :: "core \<Rightarrow> core" where
  "trap_exit c = addi_sp 256 (fold ld [0..<32] c)"


subsection \<open>Frames on the stack\<close>

lemma slot_inj: "i < 32 \<Longrightarrow> j < 32 \<Longrightarrow> slot b i = slot b j \<longleftrightarrow> i = j"
proof -
  assume "i < 32" "j < 32"
  then have "unat (of_nat i * 8 :: u64) = i * 8" "unat (of_nat j * 8 :: u64) = j * 8"
    by (simp_all add: unat_word_ariths unat_of_nat take_bit_nat_eq_self)
  then have "of_nat i * 8 = (of_nat j * 8 :: u64) \<longleftrightarrow> i = j" by (metis mult_cancel2 zero_neq_numeral)
  then show ?thesis by (simp add: slot_def)
qed

lemma reg_simps [simp]: "reg 0 c = 0"
  "reg i (set_reg j v c) = (if i = 0 then 0 else if i = j then v else reg i c)" "dram (set_reg j v c) = dram c"
  "reg i (sd j c) = reg i c" "dram (sd j c) = (dram c)(slot (reg SP c) j := reg j c)"
  "dram (ld j c) = dram c" "reg i (ld j c) = (if i = 0 then 0 else if i = j then dram c (slot (reg SP c) j) else reg i c)"
  "reg i (addi_sp d c) = (if i = SP then reg SP c + d else reg i c)" "dram (addi_sp d c) = dram c"
  "reg i (save_context p c) = reg i c" "dram (save_context p c) = (dram c)(p := reg RA c, p + 8 := reg SP c)"
  "dram (load_context p c) = dram c"
  "reg i (load_context p c) = (if i = RA then dram c p else if i = SP then dram c (p + 8) else reg i c)"
  by (auto simp: reg_def set_reg_def sd_def ld_def addi_sp_def save_context_def load_context_def Let_def)

lemma fold_sd:
  assumes "set is \<subseteq> {..<32}"
  shows "reg j (fold sd is c) = reg j c" "i \<in> set is \<Longrightarrow> dram (fold sd is c) (slot (reg SP c) i) = reg i c"
    "(\<And>i. i \<in> set is \<Longrightarrow> a \<noteq> slot (reg SP c) i) \<Longrightarrow> dram (fold sd is c) a = dram c a"
proof -
  have "(\<forall>j. reg j (fold sd is c) = reg j c) \<and> (\<forall>i<32. i \<in> set is \<or> dram c (slot (reg SP c) i) = reg i c \<longrightarrow> dram (fold sd is c) (slot (reg SP c) i) = reg i c) \<and>
    (\<forall>a. (\<forall>i\<in>set is. a \<noteq> slot (reg SP c) i) \<longrightarrow> dram (fold sd is c) a = dram c a)"
    using assms
  proof (induction "is" arbitrary: c)
    case (Cons j "is")
    then show ?case using Cons.IH [of "sd j c"] by (auto simp: slot_inj)
  qed simp
  then show "reg j (fold sd is c) = reg j c" "i \<in> set is \<Longrightarrow> dram (fold sd is c) (slot (reg SP c) i) = reg i c"
    "(\<And>i. i \<in> set is \<Longrightarrow> a \<noteq> slot (reg SP c) i) \<Longrightarrow> dram (fold sd is c) a = dram c a" using assms by auto
qed

text \<open>The loads go through \<open>sp\<close>; a load of \<open>sp\<close> itself must find its value.\<close>

lemma fold_ld:
  assumes "SP \<in> set is \<Longrightarrow> dram c (slot (reg SP c) SP) = reg SP c"
  shows "dram (fold ld is c) = dram c"
    "reg i (fold ld is c) = (if i = 0 then 0 else if i \<in> set is then dram c (slot (reg SP c) i) else reg i c)"
proof -
  have "dram (fold ld is c) = dram c \<and> (\<forall>i. reg i (fold ld is c) = (if i = 0 then 0 else if i \<in> set is then dram c (slot (reg SP c) i) else reg i c))"
    using assms
  proof (induction "is" arbitrary: c)
    case (Cons j "is")
    have sp: "reg SP (ld j c) = reg SP c" using Cons.prems by simp
    have "SP \<in> set is \<Longrightarrow> dram (ld j c) (slot (reg SP (ld j c)) SP) = reg SP (ld j c)" using Cons.prems sp by simp
    from Cons.IH [OF this] show ?case unfolding sp by auto
  qed (simp add: reg_def)
  then show "dram (fold ld is c) = dram c"
    "reg i (fold ld is c) = (if i = 0 then 0 else if i \<in> set is then dram c (slot (reg SP c) i) else reg i c)" by blast+
qed

lemma push_regs: "reg i (pushRegisters False c) = (if i = SP then reg SP c - 256 else reg i c)"
  by (simp add: pushRegisters_def fold_sd subset_eq del: upt_rec_numeral)

lemma push_frame: "i \<in> {3..<32} \<Longrightarrow> dram (pushRegisters False c) (slot (reg SP c - 256) i) = reg i c"
  using fold_sd(2) [of "[3..<32]" i "addi_sp (- 256) c"] by (simp add: pushRegisters_def subset_eq del: upt_rec_numeral)

lemma pop_regs:
  "reg i (popRegisters False c) = (if i \<in> {3..<32} then dram c (slot (reg SP c) i) else if i = SP then reg SP c + 256 else reg i c)"
  using fold_ld(2) [of "[3..<32]" c] by (auto simp: popRegisters_def simp del: upt_rec_numeral)

subsection \<open>Context switches and traps\<close>

text \<open>
  C6: A context switch keeps the registers of the thread that is switched out. Whatever the machine does until the thread's
  context is loaded again, as long as it does not write into the frame on the thread's stack or into its context: the thread
  goes on behind its call of \<open>contextSwitch\<close>, and after \<open>popRegisters\<close> it has the registers, \<open>sp\<close> included, that it had before.
\<close>

theorem switch_restores:
  assumes "c1 = switch_away k old new c"
    "\<forall>i\<in>{3..<32}. dram c2 (slot (reg SP c - 256) i) = dram c1 (slot (reg SP c - 256) i)"
    "dram c2 old = dram c1 old" "dram c2 (old + 8) = dram c1 (old + 8)"
    "\<forall>i\<in>{3..<32}. old \<noteq> slot (reg SP c - 256) i \<and> old + 8 \<noteq> slot (reg SP c - 256) i"
  shows "reg RA (load_context old c2) = k \<and> (\<forall>i\<in>{2..<32}. reg i (popRegisters False (load_context old c2)) = reg i c)"
proof -
  have d: "dram c1 = (dram (pushRegisters False c))(old := k, old + 8 := reg SP c - 256)"
    by (simp add: assms(1) switch_away_def switch_registers_def push_regs)
  have o: "dram c2 old = k" "dram c2 (old + 8) = reg SP c - 256" using assms(3,4) by (simp_all add: d)
  have "dram c2 (slot (reg SP c - 256) i) = reg i c" if "i \<in> {3..<32}" for i
    using assms(2,5) that push_frame [OF that, of c] by (metis d fun_upd_other)
  moreover have "{2..<32} = insert SP {3..<32}" by auto
  ultimately have "\<forall>i\<in>{2..<32}. reg i (popRegisters False (load_context old c2)) = reg i c"
    by (auto simp: pop_regs o)
  then show ?thesis by (simp add: o)
qed

lemma trap_entry_frame:
  "i < 32 \<Longrightarrow> dram (trap_entry c) (slot (reg SP c - 256) i) = (if i = SP then reg SP c - 256 else reg i c)"
  "reg i (trap_entry c) = (if i = SP then reg SP c - 256 else reg i c)"
  using fold_sd(1,2) [of "[0..<32]" i "addi_sp (- 256) c"] by (simp_all add: trap_entry_def subset_eq del: upt_rec_numeral)

text \<open>
  C7: \<open>supervisorTrap\<close> gives all registers back, whatever the handler does, if it returns with the stack pointer it was called
  with and has written to no slot of the frame but that of \<open>a0\<close>: the thread finds there what is in that slot, and all else
  as it was when it was trapped.
\<close>

theorem trap_restores:
  assumes "reg SP c2 = reg SP (trap_entry c)"
    "\<forall>i\<in>{0..<32} - {10}. dram c2 (slot (reg SP c - 256) i) = dram (trap_entry c) (slot (reg SP c - 256) i)"
  shows "\<forall>i<32. reg i (trap_exit c2) = (if i = 10 then dram c2 (slot (reg SP c - 256) 10) else reg i c)"
proof -
  have sp: "reg SP c2 = reg SP c - 256" by (simp add: assms(1) trap_entry_frame)
  have f: "dram c2 (slot (reg SP c2) i) = (if i = SP then reg SP c - 256 else reg i c)" if "i < 32" "i \<noteq> 10" for i
    using assms(2) trap_entry_frame(1) [OF that(1), of c] that unfolding sp by simp
  then have "dram c2 (slot (reg SP c2) SP) = reg SP c2" by (simp add: sp)
  from fold_ld(2) [of "[0..<32]", OF this] f show ?thesis unfolding trap_exit_def by (auto simp: sp simp del: upt_rec_numeral)
qed

text \<open>A thread whose stack ends at \<open>0x2000\<close>, with its number in each register; its context is at \<open>0x4000\<close>.\<close>

definition example_core :: core where
  "example_core = \<lparr>xregs = (\<lambda>i. if i = SP then 0x2000 else of_nat i), dram = (\<lambda>_. 0)\<rparr>"

lemma slot_range: "i < 32 \<Longrightarrow> unat (slot 0x1F00 i) < 0x2000"
  by (simp add: slot_def unat_word_ariths unat_of_nat take_bit_nat_eq_self)

lemma switch_restores_witness:
  "reg RA (load_context 0x4000 (switch_away 0x800 0x4000 0x6000 example_core)) = 0x800 \<and>
   reg 9 (popRegisters False (load_context 0x4000 (switch_away 0x800 0x4000 0x6000 example_core))) = 9"
proof -
  have "\<forall>i\<in>{3..<32}. 0x4000 \<noteq> slot (reg SP example_core - 256) i \<and> 0x4000 + 8 \<noteq> slot (reg SP example_core - 256) i"
    using slot_range by (force simp: example_core_def reg_def)
  from switch_restores [OF refl _ _ _ this, where ?c2.0 = "switch_away 0x800 0x4000 0x6000 example_core" and k = "0x800" and new = "0x6000"]
  have r: "reg RA (load_context 0x4000 (switch_away 0x800 0x4000 0x6000 example_core)) = 0x800"
    "\<forall>i\<in>{2..<32}. reg i (popRegisters False (load_context 0x4000 (switch_away 0x800 0x4000 0x6000 example_core))) = reg i example_core"
    by simp_all
  have "reg 9 example_core = 9" by (simp add: example_core_def reg_def)
  then show ?thesis using r(1) bspec [OF r(2), of 9] by simp
qed

lemma trap_restores_witness:
  "reg 9 (trap_exit (trap_entry example_core)) = 9 \<and> reg SP (trap_exit (trap_entry example_core)) = 0x2000"
proof -
  have "reg SP example_core = 0x2000" "reg 9 example_core = 9" by (simp_all add: example_core_def reg_def)
  then show ?thesis using trap_restores [of "trap_entry example_core" example_core] by simp
qed

end
