(* ===== verification/BoundedBuffer.thy ===== *)
theory BoundedBuffer
  imports Prelude
begin

text \<open>
  \<open>test/buffer.cpp\<close>: the bounded buffer that the user's producers and consumers share. Its synchronization is
  four semaphores of the kernel; a thread can be interrupted between any two statements. A method is its sequence
  of statements, each a transition of the thread that executes it; a thread that waits at a semaphore stays where
  it is until a signal hands it the unit.
\<close>

subsection \<open>Semaphores as their users see them\<close>

text \<open>The value (the number of waiters if it is negative) and the queue of the threads that wait.
  \<open>BufferProps\<close> shows that the kernel's semaphores are these.\<close>

record semaphore_view =
  sval :: int
  squeue :: "u64 list"

definition sem_down :: "u64 \<Rightarrow> semaphore_view \<Rightarrow> bool \<times> semaphore_view" where
  "sem_down t x = (let x = x\<lparr>sval := sval x - 1\<rparr> in
     if 0 \<le> sval x then (True, x) else (False, x\<lparr>squeue := squeue x @ [t]\<rparr>))"

definition sem_up :: "semaphore_view \<Rightarrow> u64 option \<times> semaphore_view" where
  "sem_up x = (let x = x\<lparr>sval := sval x + 1\<rparr> in
     if 0 < sval x then (None, x) else (Some (hd (squeue x)), x\<lparr>squeue := tl (squeue x)\<rparr>))"

subsection \<open>The buffer\<close>

text \<open>The members of \<open>Buffer\<close> without the handles of the semaphores. The \<open>int\<close>s \<open>cap\<close>, \<open>head\<close> and \<open>tail\<close> are natural numbers
  here: this is the buffer made with a capacity from 0 to below \<open>INT_MAX\<close>, for which \<open>_cap + 1\<close> and the sums of indices stay in
  range or are reduced at once.\<close>

record cbuffer =
  bcap :: nat
  slots :: "int list"
  bhead :: nat
  btail :: nat

datatype semaphores = SpaceAvailable | ItemAvailable | MutexHead | MutexTail

text \<open>The statement that a thread executes next: \<open>Put0\<close> to \<open>Put5\<close> are those of \<open>put\<close>, with the argument, \<open>Get0\<close> to \<open>Get5\<close>
  those of \<open>get\<close>, with \<open>ret\<close> once it is set, \<open>Cnt0\<close> to \<open>Cnt4\<close> those of \<open>getCnt\<close>.\<close>

datatype point = Out
  | Put0 int | Put1 int | Put2 int | Put3 int | Put4 | Put5
  | Get0 | Get1 | Get2 | Get3 int | Get4 int | Get5 int
  | Cnt0 | Cnt1 | Cnt2 | Cnt3 nat | Cnt4 nat

datatype label = Stored int | Taken int | Counted nat

datatype statement = Wait semaphores point | Signal semaphores point | Compute "cbuffer \<Rightarrow> cbuffer \<times> point \<times> label list"

definition cnt_value :: "cbuffer \<Rightarrow> nat" where
  "cnt_value b = (if bhead b \<le> btail b then btail b - bhead b else bcap b - bhead b + btail b)"

fun statement_at :: "point \<Rightarrow> statement option" where
  "statement_at Out = None"
| "statement_at (Put0 v) = Some (Wait SpaceAvailable (Put1 v))"
| "statement_at (Put1 v) = Some (Wait MutexTail (Put2 v))"
| "statement_at (Put2 v) = Some (Compute (\<lambda>b. (b\<lparr>slots := (slots b)[btail b := v]\<rparr>, Put3 v, [])))"
| "statement_at (Put3 v) = Some (Compute (\<lambda>b. (b\<lparr>btail := (btail b + 1) mod bcap b\<rparr>, Put4, [Stored v])))"
| "statement_at Put4 = Some (Signal MutexTail Put5)"
| "statement_at Put5 = Some (Signal ItemAvailable Out)"
| "statement_at Get0 = Some (Wait ItemAvailable Get1)"
| "statement_at Get1 = Some (Wait MutexHead Get2)"
| "statement_at Get2 = Some (Compute (\<lambda>b. (b, Get3 (slots b ! bhead b), [])))"
| "statement_at (Get3 r) = Some (Compute (\<lambda>b. (b\<lparr>bhead := (bhead b + 1) mod bcap b\<rparr>, Get4 r, [Taken r])))"
| "statement_at (Get4 r) = Some (Signal MutexHead (Get5 r))"
| "statement_at (Get5 r) = Some (Signal SpaceAvailable Out)"
| "statement_at Cnt0 = Some (Wait MutexHead Cnt1)"
| "statement_at Cnt1 = Some (Wait MutexTail Cnt2)"
| "statement_at Cnt2 = Some (Compute (\<lambda>b. (b, Cnt3 (cnt_value b), [Counted (cnt_value b)])))"
| "statement_at (Cnt3 r) = Some (Signal MutexTail (Cnt4 r))"
| "statement_at (Cnt4 r) = Some (Signal MutexHead Out)"

datatype place_of = At point | Waits point

record buffer_sys =
  bbuf :: cbuffer
  bsem :: "semaphores \<Rightarrow> semaphore_view"
  at :: "u64 \<Rightarrow> place_of"

text \<open>The constructor, where its \<open>mem_alloc\<close> and its four calls of \<open>sem_open\<close> succeed; \<open>mem\<close> is the memory it got. (The code does not
  look at their answers.)\<close>

definition Buffer_init :: "nat \<Rightarrow> int list \<Rightarrow> buffer_sys" where
  "Buffer_init n mem = \<lparr>bbuf = \<lparr>bcap = n + 1, slots = mem, bhead = 0, btail = 0\<rparr>,
     bsem = (\<lambda>k. \<lparr>sval = (case k of SpaceAvailable \<Rightarrow> int n | ItemAvailable \<Rightarrow> 0 | MutexHead \<Rightarrow> 1 | MutexTail \<Rightarrow> 1), squeue = []\<rparr>),
     at = (\<lambda>t. At Out)\<rparr>"

text \<open>A thread that a signal hands a unit goes on after its wait.\<close>

definition let_go :: "u64 option \<Rightarrow> (u64 \<Rightarrow> place_of) \<Rightarrow> u64 \<Rightarrow> place_of" where
  "let_go w a = (case w of None \<Rightarrow> a | Some u \<Rightarrow> (case a u of Waits q \<Rightarrow> a(u := At q) | At q \<Rightarrow> a))"

definition exec :: "u64 \<Rightarrow> statement \<Rightarrow> buffer_sys \<Rightarrow> label list \<times> buffer_sys" where
  "exec t c s = (case c of
     Wait k q \<Rightarrow> (case sem_down t (bsem s k) of (ok, x) \<Rightarrow>
       ([], s\<lparr>bsem := (bsem s)(k := x), at := (at s)(t := if ok then At q else Waits q)\<rparr>))
   | Signal k q \<Rightarrow> (case sem_up (bsem s k) of (w, x) \<Rightarrow>
       ([], s\<lparr>bsem := (bsem s)(k := x), at := let_go w ((at s)(t := At q))\<rparr>))
   | Compute f \<Rightarrow> (case f (bbuf s) of (b, q, l) \<Rightarrow> (l, s\<lparr>bbuf := b, at := (at s)(t := At q)\<rparr>)))"

definition stmt :: "u64 \<Rightarrow> buffer_sys \<Rightarrow> (label list \<times> buffer_sys) option" where
  "stmt t s = (case at s t of Waits q \<Rightarrow> None | At p \<Rightarrow> map_option (\<lambda>c. exec t c s) (statement_at p))"

text \<open>The runs of any threads on a buffer for \<open>n\<close> items: a thread outside calls a method, or a thread inside executes its
  next statement.\<close>

inductive buffer_run :: "nat \<Rightarrow> label list \<Rightarrow> buffer_sys \<Rightarrow> bool" for n where
  start: "length mem = n + 1 \<Longrightarrow> buffer_run n [] (Buffer_init n mem)"
| call: "buffer_run n ls s \<Longrightarrow> at s t = At Out \<Longrightarrow> p \<in> range Put0 \<union> {Get0, Cnt0} \<Longrightarrow> buffer_run n ls (s\<lparr>at := (at s)(t := At p)\<rparr>)"
| exec: "buffer_run n ls s \<Longrightarrow> stmt t s = Some (l, s') \<Longrightarrow> buffer_run n (ls @ l) s'"

text \<open>The destructor, when no other thread uses the buffer: the loop writes what is left, as characters.\<close>

partial_function (option) drain :: "cbuffer \<Rightarrow> u8 list option" where
  "drain b = (if 0 < cnt_value b
     then do { rest \<leftarrow> drain (b\<lparr>bhead := (bhead b + 1) mod bcap b\<rparr>); Some (of_int (slots b ! bhead b) # rest) }
     else Some [])"

declare drain.simps [code]

end
