(* ===== verification/BufferInvariant.thy ===== *)
theory BufferInvariant
  imports BoundedBuffer
begin

text \<open>
  The invariant of the bounded buffer under any interleaving of its users. The units of a semaphore are counted over
  the semaphore and the threads that hold them; an item in the ring is a unit of \<open>itemAvailable\<close>, a free place one of
  \<open>spaceAvailable\<close>.
\<close>

subsection \<open>Who holds a unit\<close>

text \<open>The wait that a thread has just passed at a point, and the semaphores of which it holds a unit there.\<close>

fun passed :: "point \<Rightarrow> semaphores option" where
  "passed (Put1 v) = Some SpaceAvailable"
| "passed (Put2 v) = Some MutexTail"
| "passed Get1 = Some ItemAvailable"
| "passed Get2 = Some MutexHead"
| "passed Cnt1 = Some MutexHead"
| "passed Cnt2 = Some MutexTail"
| "passed _ = None"

fun holds :: "point \<Rightarrow> semaphores set" where
  "holds (Put1 v) = {SpaceAvailable}"
| "holds (Put2 v) = {SpaceAvailable, MutexTail}"
| "holds (Put3 v) = {SpaceAvailable, MutexTail}"
| "holds Put4 = {ItemAvailable, MutexTail}"
| "holds Put5 = {ItemAvailable}"
| "holds Get1 = {ItemAvailable}"
| "holds Get2 = {ItemAvailable, MutexHead}"
| "holds (Get3 r) = {ItemAvailable, MutexHead}"
| "holds (Get4 r) = {SpaceAvailable, MutexHead}"
| "holds (Get5 r) = {SpaceAvailable}"
| "holds Cnt1 = {MutexHead}"
| "holds Cnt2 = {MutexHead, MutexTail}"
| "holds (Cnt3 r) = {MutexHead, MutexTail}"
| "holds (Cnt4 r) = {MutexHead}"
| "holds _ = {}"

lemma wait_holds:
  "statement_at p = Some (Wait k q) \<Longrightarrow> passed q = Some k \<and> k \<notin> holds p \<and> holds q = insert k (holds p)"
  by (cases p) auto

lemma signal_holds:
  "statement_at p = Some (Signal k q) \<Longrightarrow> k \<in> holds p \<and> holds q = holds p - {k}"
  by (cases p) auto

lemma passed_holds: "passed q = Some k \<Longrightarrow> k \<in> holds q"
  by (cases q) auto

text \<open>A thread that waits does not hold the unit it waits for.\<close>

fun units_of :: "place_of \<Rightarrow> semaphores set" where
  "units_of (At p) = holds p"
| "units_of (Waits q) = holds q - set_option (passed q)"

definition users :: "semaphores \<Rightarrow> (u64 \<Rightarrow> place_of) \<Rightarrow> u64 set" where
  "users k a = {t. k \<in> units_of (a t)}"

definition units :: "semaphores \<Rightarrow> buffer_sys \<Rightarrow> int" where
  "units k s = max 0 (sval (bsem s k)) + int (card (users k (at s)))"

lemma users_upd: "users k (a(t := x)) = (if k \<in> units_of x then insert t (users k a) else users k a - {t})"
  by (auto simp: users_def)

lemma card_users_upd:
  "int (card (users k (a(t := x)))) = int (card (users k a)) + of_bool (k \<in> units_of x) - of_bool (k \<in> units_of (a t))"
proof -
  have f: "finite (users k a)" by simp
  have m: "t \<in> users k a \<longleftrightarrow> k \<in> units_of (a t)" by (simp add: users_def)
  have "k \<in> units_of (a t) \<Longrightarrow> 0 < card (users k a)" using m f card_gt_0_iff by blast
  then show ?thesis unfolding users_upd using m f by (auto simp: card_insert_if card_Diff_singleton insert_absorb)
qed

lemma one_user:
  assumes "units k s \<le> 1" "k \<in> units_of (at s t)" "k \<in> units_of (at s u)"
  shows "t = u"
proof -
  have "card (users k (at s)) \<le> 1" using assms(1) by (simp add: units_def)
  moreover have "finite (users k (at s))" by simp
  moreover have "t \<in> users k (at s)" "u \<in> users k (at s)" using assms(2,3) by (simp_all add: users_def)
  ultimately show ?thesis by (auto simp: card_le_Suc0_iff_eq)
qed

lemma unit_counts:
  assumes "k \<in> units_of (at s t)"
  shows "1 \<le> units k s"
proof -
  have "finite (users k (at s))" "t \<in> users k (at s)" using assms by (simp_all add: users_def)
  then have "0 < card (users k (at s))" using card_gt_0_iff by blast
  then show ?thesis by (simp add: units_def)
qed

subsection \<open>The queues\<close>

definition waiting :: "semaphores \<Rightarrow> (u64 \<Rightarrow> place_of) \<Rightarrow> u64 set" where
  "waiting k a = {u. \<exists>q. a u = Waits q \<and> passed q = Some k}"

definition queues_ok :: "buffer_sys \<Rightarrow> bool" where
  "queues_ok s \<longleftrightarrow> (\<forall>u q. at s u = Waits q \<longrightarrow> passed q \<noteq> None) \<and>
     (\<forall>k. distinct (squeue (bsem s k)) \<and> set (squeue (bsem s k)) = waiting k (at s) \<and>
       int (length (squeue (bsem s k))) = max 0 (- sval (bsem s k)))"

lemma queues_okI:
  assumes "\<And>u q. at s u = Waits q \<Longrightarrow> passed q \<noteq> None"
    "\<And>k. distinct (squeue (bsem s k)) \<and> set (squeue (bsem s k)) = waiting k (at s) \<and>
       int (length (squeue (bsem s k))) = max 0 (- sval (bsem s k))"
  shows "queues_ok s"
  using assms by (simp add: queues_ok_def)

lemma exec_wait:
  assumes q: "queues_ok s" and p: "at s t = At p" "statement_at p = Some (Wait k r)" and e: "exec t (Wait k r) s = (l, s')"
  shows "queues_ok s'" "units j s' = units j s" "l = []" "bbuf s' = bbuf s"
    "at s' = (at s)(t := At r) \<or> at s' = (at s)(t := Waits r)"
proof -
  note h = wait_holds [OF p(2)]
  let ?x = "bsem s k"
  have nt: "t \<notin> waiting i (at s)" for i using p(1) by (simp add: waiting_def)
  have qk: "distinct (squeue (bsem s i))" "set (squeue (bsem s i)) = waiting i (at s)"
    "int (length (squeue (bsem s i))) = max 0 (- sval (bsem s i))" "at s u = Waits v \<Longrightarrow> passed v \<noteq> None" for i u v
    using q by (simp_all add: queues_ok_def)
  have "queues_ok s' \<and> units j s' = units j s \<and> l = [] \<and> bbuf s' = bbuf s \<and>
    (at s' = (at s)(t := At r) \<or> at s' = (at s)(t := Waits r))"
  proof (cases "0 < sval ?x")
    case True
    then have s': "l = []" "s' = s\<lparr>bsem := (bsem s)(k := ?x\<lparr>sval := sval ?x - 1\<rparr>), at := (at s)(t := At r)\<rparr>"
      using e by (auto simp: exec_def sem_down_def)
    have w: "waiting i ((at s)(t := At r)) = waiting i (at s)" for i using p(1) by (auto simp: waiting_def)
    have "queues_ok s'"
      by (rule queues_okI) (use True qk qk(3) [of k] w p(1) in \<open>auto simp: s' split: if_splits\<close>)
    moreover have "units j s' = units j s"
      using True h p(1) by (auto simp: units_def s' card_users_upd)
    ultimately show ?thesis using s' by simp
  next
    case False
    then have s': "l = []" "s' = s\<lparr>bsem := (bsem s)(k := ?x\<lparr>sval := sval ?x - 1, squeue := squeue ?x @ [t]\<rparr>), at := (at s)(t := Waits r)\<rparr>"
      using e by (auto simp: exec_def sem_down_def)
    have w: "waiting i ((at s)(t := Waits r)) = (if i = k then insert t (waiting i (at s)) else waiting i (at s))" for i
      using p(1) h by (auto simp: waiting_def)
    have "queues_ok s'"
      by (rule queues_okI) (use False qk qk(3) [of k] w nt h in \<open>auto simp: s' split: if_splits\<close>)
    moreover have "units j s' = units j s"
      using False h p(1) by (auto simp: units_def s' card_users_upd)
    ultimately show ?thesis using s' by simp
  qed
  then show "queues_ok s'" "units j s' = units j s" "l = []" "bbuf s' = bbuf s"
    "at s' = (at s)(t := At r) \<or> at s' = (at s)(t := Waits r)" by simp_all
qed


lemma exec_signal:
  assumes q: "queues_ok s" and p: "at s t = At p" "statement_at p = Some (Signal k r)" and e: "exec t (Signal k r) s = (l, s')"
  shows "queues_ok s'" "units j s' = units j s" "l = []" "bbuf s' = bbuf s"
    "at s' = (at s)(t := At r) \<or> (\<exists>u v. at s u = Waits v \<and> passed v = Some k \<and> at s' = (at s)(t := At r, u := At v))"
proof -
  note h = signal_holds [OF p(2)]
  let ?x = "bsem s k"
  have nt: "t \<notin> waiting i (at s)" for i using p(1) by (simp add: waiting_def)
  have qk: "distinct (squeue (bsem s i))" "set (squeue (bsem s i)) = waiting i (at s)"
    "int (length (squeue (bsem s i))) = max 0 (- sval (bsem s i))" "at s u = Waits v \<Longrightarrow> passed v \<noteq> None" for i u v
    using q by (simp_all add: queues_ok_def)
  have "queues_ok s' \<and> units j s' = units j s \<and> l = [] \<and> bbuf s' = bbuf s \<and>
    (at s' = (at s)(t := At r) \<or> (\<exists>u v. at s u = Waits v \<and> passed v = Some k \<and> at s' = (at s)(t := At r, u := At v)))"
  proof (cases "0 \<le> sval ?x")
    case True
    then have s': "l = []" "s' = s\<lparr>bsem := (bsem s)(k := ?x\<lparr>sval := sval ?x + 1\<rparr>), at := (at s)(t := At r)\<rparr>"
      using e by (auto simp: exec_def sem_up_def let_go_def)
    have w: "waiting i ((at s)(t := At r)) = waiting i (at s)" for i using p(1) by (auto simp: waiting_def)
    have "queues_ok s'"
      by (rule queues_okI) (use True qk qk(3) [of k] w p(1) in \<open>auto simp: s' split: if_splits\<close>)
    moreover have "units j s' = units j s"
      using True h p(1) by (auto simp: units_def s' card_users_upd)
    ultimately show ?thesis using s' by simp
  next
    case False
    then obtain u us where us: "squeue ?x = u # us" using qk(3) [of k] by (cases "squeue ?x") auto
    then have "u \<in> waiting k (at s)" using qk(2) [of k] by auto
    then obtain v where v: "at s u = Waits v" "passed v = Some k" by (auto simp: waiting_def)
    have ut: "u \<noteq> t" using v(1) p(1) by auto
    have s': "l = []" "s' = s\<lparr>bsem := (bsem s)(k := ?x\<lparr>sval := sval ?x + 1, squeue := us\<rparr>), at := (at s)(t := At r, u := At v)\<rparr>"
      using e False us v(1) ut by (auto simp: exec_def sem_up_def let_go_def)
    have w: "waiting i ((at s)(t := At r, u := At v)) = waiting i (at s) - (if i = k then {u} else {})" for i
      using p(1) v by (auto simp: waiting_def)
    have "queues_ok s'"
      by (rule queues_okI) (use False us qk qk(1,2,3) [of k] w p(1) in \<open>auto simp: s' split: if_splits\<close>)
    moreover have "units j s' = units j s"
      using False h p(1) v ut passed_holds [OF v(2)] by (auto simp: units_def s' card_users_upd)
    moreover have "\<exists>u v. at s u = Waits v \<and> passed v = Some k \<and> at s' = (at s)(t := At r, u := At v)"
      by (intro exI [of _ u] exI [of _ v]) (use v s'(2) in simp)
    ultimately show ?thesis using s' by simp
  qed
  then show "queues_ok s'" "units j s' = units j s" "l = []" "bbuf s' = bbuf s"
    "at s' = (at s)(t := At r) \<or> (\<exists>u v. at s u = Waits v \<and> passed v = Some k \<and> at s' = (at s)(t := At r, u := At v))" by simp_all
qed


subsection \<open>The ring\<close>

text \<open>The items from \<open>head\<close> up to, and without, \<open>tail\<close>.\<close>

definition items :: "cbuffer \<Rightarrow> int list" where
  "items b = map (\<lambda>i. slots b ! ((bhead b + i) mod bcap b)) [0..<cnt_value b]"

definition ring_ok :: "nat \<Rightarrow> cbuffer \<Rightarrow> bool" where
  "ring_ok n b \<longleftrightarrow> bcap b = n + 1 \<and> length (slots b) = n + 1 \<and> bhead b \<le> n \<and> btail b \<le> n"

lemma length_items: "length (items b) = cnt_value b"
  by (simp add: items_def)

lemma Suc_mod_cap: "h \<le> n \<Longrightarrow> Suc h mod Suc n = (if h = n then 0 else Suc h)" for n :: nat
  by (simp add: mod_if)

lemma Suc_add_mod: "t \<le> n \<Longrightarrow> Suc (n + t) mod Suc n = t" for n :: nat
  using mod_add_self1 [of "Suc n" t] by simp

lemma ring_cnt:
  assumes "ring_ok n b"
  shows "cnt_value b \<le> n" "cnt_value b = 0 \<longleftrightarrow> bhead b = btail b" "(bhead b + cnt_value b) mod bcap b = btail b"
    "cnt_value b < n \<Longrightarrow> cnt_value (b\<lparr>btail := (btail b + 1) mod bcap b\<rparr>) = Suc (cnt_value b)"
    "0 < cnt_value b \<Longrightarrow> Suc (cnt_value (b\<lparr>bhead := (bhead b + 1) mod bcap b\<rparr>)) = cnt_value b"
  using assms by (auto simp: ring_ok_def cnt_value_def Suc_mod_cap Suc_add_mod split: if_splits)

lemma ring_slots_differ:
  assumes "i < j" "j < (c :: nat)"
  shows "(h + i) mod c \<noteq> (h + j) mod c"
proof
  assume e: "(h + i) mod c = (h + j) mod c"
  have "c dvd (h + j) - (h + i)" by (rule mod_eq_dvd_iff_nat [THEN iffD1]) (use assms(1) e in simp_all)
  then have "c dvd j - i" by simp
  then show False using assms by (auto dest!: dvd_imp_le)
qed

lemma cnt_write [simp]: "cnt_value (b\<lparr>slots := x\<rparr>) = cnt_value b"
  by (simp add: cnt_value_def)

lemma items_write:
  assumes "ring_ok n b"
  shows "items (b\<lparr>slots := (slots b)[btail b := v]\<rparr>) = items b"
proof -
  have "(slots b)[btail b := v] ! ((bhead b + i) mod bcap b) = slots b ! ((bhead b + i) mod bcap b)" if "i < cnt_value b" for i
    using ring_slots_differ [OF that, of "bcap b" "bhead b"] ring_cnt(1,3) [OF assms] assms by (simp add: ring_ok_def)
  then show ?thesis by (simp add: items_def cnt_value_def)
qed

lemma items_store:
  assumes "ring_ok n b" "cnt_value b < n"
  shows "items (b\<lparr>btail := (btail b + 1) mod bcap b\<rparr>) = items b @ [slots b ! btail b]"
  using ring_cnt(3,4) [OF assms(1)] assms(2) by (simp add: items_def)

lemma items_take:
  assumes "ring_ok n b" "0 < cnt_value b"
  shows "items b = slots b ! bhead b # items (b\<lparr>bhead := (bhead b + 1) mod bcap b\<rparr>)"
proof -
  let ?b = "b\<lparr>bhead := (bhead b + 1) mod bcap b\<rparr>"
  have c: "cnt_value b = Suc (cnt_value ?b)" using ring_cnt(5) [OF assms(1)] assms(2) by simp
  have "items b = map (\<lambda>i. slots b ! ((bhead b + i) mod bcap b)) (0 # map Suc [0..<cnt_value ?b])"
    unfolding items_def c by (simp only: upt_conv_Cons zero_less_Suc map_Suc_upt)
  then show ?thesis using assms(1) by (simp add: items_def ring_ok_def mod_add_left_eq [of "Suc _", simplified] mod_simps)
qed

lemma ring_ok_moves:
  assumes "ring_ok n b"
  shows "ring_ok n (b\<lparr>slots := (slots b)[btail b := v]\<rparr>)" "ring_ok n (b\<lparr>btail := (btail b + 1) mod bcap b\<rparr>)"
    "ring_ok n (b\<lparr>bhead := (bhead b + 1) mod bcap b\<rparr>)"
  using assms by (auto simp: ring_ok_def less_Suc_eq_le [symmetric])


subsection \<open>The invariant\<close>

text \<open>The specification: a queue of at most \<open>n\<close> items, and which sequences of labels it allows.\<close>

fun queue_step :: "nat \<Rightarrow> label \<Rightarrow> int list \<Rightarrow> int list option" where
  "queue_step n (Stored v) q = (if length q < n then Some (q @ [v]) else None)"
| "queue_step n (Taken v) q = (case q of [] \<Rightarrow> None | x # q' \<Rightarrow> if x = v then Some q' else None)"
| "queue_step n (Counted r) q = (if r = length q then Some q else None)"

fun queue_spec :: "nat \<Rightarrow> label list \<Rightarrow> int list \<Rightarrow> int list option" where
  "queue_spec n [] q = Some q"
| "queue_spec n (l # ls) q = queue_step n l q \<bind> queue_spec n ls"

lemma queue_spec_append: "queue_spec n (ls @ ms) q = queue_spec n ls q \<bind> queue_spec n ms"
  by (induction ls arbitrary: q) (auto split: bind_splits)

text \<open>Between the two statements of the critical section the slot is the one that belongs to the thread.\<close>

definition slots_ok :: "cbuffer \<Rightarrow> (u64 \<Rightarrow> place_of) \<Rightarrow> bool" where
  "slots_ok b a \<longleftrightarrow> (\<forall>t v. a t = At (Put3 v) \<longrightarrow> slots b ! btail b = v) \<and> (\<forall>t v. a t = At (Get3 v) \<longrightarrow> slots b ! bhead b = v)"

definition accounts :: "nat \<Rightarrow> buffer_sys \<Rightarrow> bool" where
  "accounts n s \<longleftrightarrow> units SpaceAvailable s + int (cnt_value (bbuf s)) = int n \<and> units ItemAvailable s = int (cnt_value (bbuf s)) \<and>
     units MutexHead s = 1 \<and> units MutexTail s = 1"

definition buffer_inv :: "nat \<Rightarrow> label list \<Rightarrow> buffer_sys \<Rightarrow> bool" where
  "buffer_inv n ls s \<longleftrightarrow> queues_ok s \<and> ring_ok n (bbuf s) \<and> accounts n s \<and> slots_ok (bbuf s) (at s) \<and>
     queue_spec n ls [] = Some (items (bbuf s))"

fun critical :: "place_of \<Rightarrow> bool" where
  "critical (At (Put3 v)) = True"
| "critical (At (Get3 r)) = True"
| "critical _ = False"

lemma slots_ok_upd:
  "slots_ok b a \<Longrightarrow> \<not> critical x \<Longrightarrow> slots_ok b (a(t := x))"
  by (auto simp: slots_ok_def)

lemma wait_target: "statement_at p = Some (Wait k q) \<Longrightarrow> \<not> critical (At q)"
  by (cases p) auto

lemma signal_target: "statement_at p = Some (Signal k q) \<Longrightarrow> \<not> critical (At q)"
  by (cases p) auto

lemma passed_target: "passed q = Some k \<Longrightarrow> \<not> critical (At q)"
  by (cases q) auto

lemma inv_moves:
  assumes "buffer_inv n ls s" "queues_ok s'" "\<And>k. units k s' = units k s" "bbuf s' = bbuf s" "slots_ok (bbuf s) (at s')"
  shows "buffer_inv n ls s'"
  using assms by (simp add: buffer_inv_def accounts_def)

lemma inv_wait:
  assumes "buffer_inv n ls s" "at s t = At p" "statement_at p = Some (Wait k q)" "exec t (Wait k q) s = (l, s')"
  shows "buffer_inv n (ls @ l) s'"
proof -
  have "queues_ok s" "slots_ok (bbuf s) (at s)" using assms(1) by (simp_all add: buffer_inv_def)
  note e = exec_wait [OF this(1) assms(2-4)] and o = slots_ok_upd [OF this(2)]
  have "slots_ok (bbuf s) (at s')" using e(5) o wait_target [OF assms(3)] by auto
  from inv_moves [OF assms(1) e(1,2,4) this] show ?thesis by (simp add: e(3))
qed

lemma inv_signal:
  assumes "buffer_inv n ls s" "at s t = At p" "statement_at p = Some (Signal k q)" "exec t (Signal k q) s = (l, s')"
  shows "buffer_inv n (ls @ l) s'"
proof -
  have "queues_ok s" and o: "slots_ok (bbuf s) (at s)" using assms(1) by (simp_all add: buffer_inv_def)
  note e = exec_signal [OF this(1) assms(2-4)]
  have q: "slots_ok (bbuf s) ((at s)(t := At q))" by (rule slots_ok_upd [OF o signal_target [OF assms(3)]])
  have "slots_ok (bbuf s) (at s')" using e(5) q slots_ok_upd [OF q passed_target] by auto
  from inv_moves [OF assms(1) e(1,2,4) this] show ?thesis by (simp add: e(3))
qed

text \<open>A thread that computes keeps the queues and takes its units along.\<close>

lemma goto_queues:
  assumes "queues_ok s" "at s t = At p"
  shows "queues_ok (s\<lparr>at := (at s)(t := At q)\<rparr>)"
    "units k (s\<lparr>at := (at s)(t := At q)\<rparr>) = units k s + of_bool (k \<in> holds q) - of_bool (k \<in> holds p)"
proof -
  have "waiting k ((at s)(t := At q)) = waiting k (at s)" for k using assms(2) by (auto simp: waiting_def)
  then show "queues_ok (s\<lparr>at := (at s)(t := At q)\<rparr>)" using assms by (simp add: queues_ok_def)
  show "units k (s\<lparr>at := (at s)(t := At q)\<rparr>) = units k s + of_bool (k \<in> holds q) - of_bool (k \<in> holds p)"
    using assms(2) by (simp add: units_def card_users_upd)
qed

lemma compute_queues:
  assumes "queues_ok s" "at s t = At p"
  shows "queues_ok (s\<lparr>bbuf := b, at := (at s)(t := At q)\<rparr>)"
    "units k (s\<lparr>bbuf := b, at := (at s)(t := At q)\<rparr>) = units k s + of_bool (k \<in> holds q) - of_bool (k \<in> holds p)"
  using goto_queues(1) [OF assms, where q = q] goto_queues(2) [OF assms, where k = k and q = q] by (simp_all add: queues_ok_def units_def)

lemma inv_holders:
  assumes "buffer_inv n ls s" "at s t = At p"
  shows "SpaceAvailable \<in> holds p \<Longrightarrow> cnt_value (bbuf s) < n" "ItemAvailable \<in> holds p \<Longrightarrow> 0 < cnt_value (bbuf s)"
    "MutexTail \<in> holds p \<Longrightarrow> at s u = At q \<Longrightarrow> MutexTail \<in> holds q \<Longrightarrow> u = t"
    "MutexHead \<in> holds p \<Longrightarrow> at s u = At q \<Longrightarrow> MutexHead \<in> holds q \<Longrightarrow> u = t"
proof -
  have a: "accounts n s" using assms(1) by (simp add: buffer_inv_def)
  show "SpaceAvailable \<in> holds p \<Longrightarrow> cnt_value (bbuf s) < n" "ItemAvailable \<in> holds p \<Longrightarrow> 0 < cnt_value (bbuf s)"
    using a assms(2) unit_counts [of _ s t] by (force simp: accounts_def)+
  show "MutexTail \<in> holds p \<Longrightarrow> at s u = At q \<Longrightarrow> MutexTail \<in> holds q \<Longrightarrow> u = t"
    "MutexHead \<in> holds p \<Longrightarrow> at s u = At q \<Longrightarrow> MutexHead \<in> holds q \<Longrightarrow> u = t"
    using a assms(2) one_user [of MutexTail s u t] one_user [of MutexHead s u t] by (simp_all add: accounts_def)
qed


lemma slots_ok_write:
  assumes "buffer_inv n ls s" "at s t = At (Put2 v)"
  shows "slots_ok (bbuf s\<lparr>slots := (slots (bbuf s))[btail (bbuf s) := v]\<rparr>) ((at s)(t := At (Put3 v)))"
proof -
  let ?b = "bbuf s" and ?a = "(at s)(t := At (Put3 v))"
  have i: "ring_ok n ?b" "slots_ok ?b (at s)" using assms(1) by (simp_all add: buffer_inv_def)
  have "w = v" if "?a u = At (Put3 w)" for u w
    using that inv_holders(3) [OF assms, of u "Put3 w"] by (auto split: if_splits)
  moreover have "(slots ?b)[btail ?b := v] ! bhead ?b = w" if "?a u = At (Get3 w)" for u w
  proof -
    have u: "at s u = At (Get3 w)" using that by (auto split: if_splits)
    have "bhead ?b \<noteq> btail ?b" using inv_holders(2) [OF assms(1) u] ring_cnt(2) [OF i(1)] by simp
    then show ?thesis using u i(2) by (simp add: slots_ok_def)
  qed
  moreover have "(slots ?b)[btail ?b := v] ! btail ?b = v" using i(1) by (simp add: ring_ok_def)
  ultimately show ?thesis unfolding slots_ok_def by (simp del: fun_upd_apply) blast
qed

lemma inv_compute:
  assumes "buffer_inv n ls s" "at s t = At p" "statement_at p = Some (Compute f)" "exec t (Compute f) s = (l, s')"
  shows "buffer_inv n (ls @ l) s'"
proof -
  let ?b = "bbuf s"
  have i: "queues_ok s" "ring_ok n ?b" "accounts n s" "slots_ok ?b (at s)" "queue_spec n ls [] = Some (items ?b)"
    using assms(1) by (simp_all add: buffer_inv_def)
  note q = compute_queues [OF i(1) assms(2)] and q0 = goto_queues [OF i(1) assms(2)] and h = inv_holders [OF assms(1,2)] and m = ring_ok_moves [OF i(2)] and c = ring_cnt [OF i(2)]
  show ?thesis
  proof (cases p)
    case (Put2 v)
    have s': "l = []" "s' = s\<lparr>bbuf := ?b\<lparr>slots := (slots ?b)[btail ?b := v]\<rparr>, at := (at s)(t := At (Put3 v))\<rparr>"
      using assms(3,4) Put2 by (auto simp: exec_def)
    have "slots_ok (bbuf s') (at s')" using slots_ok_write [OF assms(1)] assms(2) Put2 by (simp add: s')
    then show ?thesis
      using i q items_write [OF i(2), of v] m(1) [of v] Put2 by (simp add: buffer_inv_def s' accounts_def queue_spec_append length_items)
  next
    case (Put3 v)
    have s': "l = [Stored v]" "s' = s\<lparr>bbuf := ?b\<lparr>btail := (btail ?b + 1) mod bcap ?b\<rparr>, at := (at s)(t := At Put4)\<rparr>"
      using assms(3,4) Put3 by (auto simp: exec_def)
    have v: "slots ?b ! btail ?b = v" "cnt_value ?b < n" using i(4) assms(2) h(1) Put3 by (simp_all add: slots_ok_def)
    have "slots_ok (bbuf s') (at s')"
      using i(4) h(3) Put3 by (force simp: slots_ok_def s' split: if_splits)
    then show ?thesis
      using i q v items_store [OF i(2) v(2)] m(2) c(4) Put3 by (simp add: buffer_inv_def s' accounts_def queue_spec_append length_items)
  next
    case Get2
    have s': "l = []" "s' = s\<lparr>bbuf := ?b, at := (at s)(t := At (Get3 (slots ?b ! bhead ?b)))\<rparr>"
      using assms(3,4) Get2 by (auto simp: exec_def)
    have "slots_ok (bbuf s') (at s')" using i(4) by (auto simp: slots_ok_def s' split: if_splits)
    then show ?thesis using i q0 Get2 by (simp add: buffer_inv_def s' accounts_def queue_spec_append length_items)
  next
    case (Get3 r)
    have s': "l = [Taken r]" "s' = s\<lparr>bbuf := ?b\<lparr>bhead := (bhead ?b + 1) mod bcap ?b\<rparr>, at := (at s)(t := At (Get4 r))\<rparr>"
      using assms(3,4) Get3 by (auto simp: exec_def)
    have v: "slots ?b ! bhead ?b = r" "0 < cnt_value ?b" using i(4) assms(2) h(2) Get3 by (simp_all add: slots_ok_def)
    have "slots_ok (bbuf s') (at s')"
      using i(4) h(4) Get3 by (force simp: slots_ok_def s' split: if_splits)
    then show ?thesis
      using i q v items_take [OF i(2) v(2)] m(3) c(5) Get3 by (simp add: buffer_inv_def s' accounts_def queue_spec_append length_items)
  next
    case Cnt2
    have s': "l = [Counted (cnt_value ?b)]" "s' = s\<lparr>bbuf := ?b, at := (at s)(t := At (Cnt3 (cnt_value ?b)))\<rparr>"
      using assms(3,4) Cnt2 by (auto simp: exec_def)
    have "slots_ok (bbuf s') (at s')" using i(4) by (auto simp: slots_ok_def s' split: if_splits)
    then show ?thesis using i q0 Cnt2 by (simp add: buffer_inv_def s' accounts_def queue_spec_append length_items)
  qed (use assms(3) in auto)
qed


lemma Buffer_init_inv:
  assumes "length arr = n + 1"
  shows "buffer_inv n [] (Buffer_init n arr)"
proof -
  have u: "units k (Buffer_init n arr) = sval (bsem (Buffer_init n arr) k)" for k
    by (simp add: units_def users_def Buffer_init_def split: semaphores.splits)
  have "waiting k (at (Buffer_init n arr)) = {}" for k by (simp add: waiting_def Buffer_init_def)
  then have "queues_ok (Buffer_init n arr)" by (simp add: queues_ok_def Buffer_init_def split: semaphores.splits)
  then show ?thesis using assms by (simp add: buffer_inv_def accounts_def u) (simp add: Buffer_init_def ring_ok_def cnt_value_def slots_ok_def items_def)
qed

lemma inv_call:
  assumes "buffer_inv n ls s" "at s t = At Out" "p \<in> range Put0 \<union> {Get0, Cnt0}"
  shows "buffer_inv n ls (s\<lparr>at := (at s)(t := At p)\<rparr>)"
proof -
  have i: "queues_ok s" "slots_ok (bbuf s) (at s)" using assms(1) by (simp_all add: buffer_inv_def)
  have p: "holds p = holds Out" "\<not> critical (At p)" using assms(3) by auto
  show ?thesis
    by (rule inv_moves [OF assms(1)]) (use goto_queues [OF i(1) assms(2)] slots_ok_upd [OF i(2) p(2)] p(1) in simp_all)
qed

lemma inv_stmt:
  assumes "buffer_inv n ls s" "stmt t s = Some (l, s')"
  shows "buffer_inv n (ls @ l) s'"
proof -
  obtain p c where p: "at s t = At p" "statement_at p = Some c" "exec t c s = (l, s')"
    using assms(2) by (auto simp: stmt_def split: place_of.splits)
  show ?thesis
    by (cases c) (use p inv_wait [OF assms(1) p(1)] inv_signal [OF assms(1) p(1)] inv_compute [OF assms(1) p(1)] in simp_all)
qed

lemma buffer_run_inv: "buffer_run n ls s \<Longrightarrow> buffer_inv n ls s"
  by (induction rule: buffer_run.induct) (auto intro: Buffer_init_inv inv_call inv_stmt)

end
