(* ===== verification/BufferProps.thy ===== *)
theory BufferProps
  imports BufferInvariant SemaphoreProps
begin

text \<open>
  The bounded buffer is a queue, and its users block only when it is full or empty. The semaphores that it assumes
  are those that \<open>sem_wait\<close> and \<open>sem_signal\<close> of the kernel provide.
\<close>

subsection \<open>The kernel's semaphores are the semaphores of the buffer\<close>

definition kernel_view :: "kernel \<Rightarrow> u64 \<Rightarrow> semaphore_view" where
  "kernel_view s p = \<lparr>sval = sem_val s p, squeue = waiters s p\<rparr>"

lemma kernel_sem_down:
  assumes "kernel_inv m s U (Suc (Suc f))" "m \<noteq> running s" "sems s p \<noteq> None"
  shows "\<exists>r s'. syscall 0x23 p a2 a3 a4 s = Some (r, s') \<and>
    (case sem_down (running s) (kernel_view s p) of (goes_on, x) \<Rightarrow> kernel_view s' p = x \<and>
       (if goes_on then running s' = running s else running s' = hd (ready s)))"
proof -
  obtain r s' where s': "syscall 0x23 p a2 a3 a4 s = Some (r, s')" "sem_val s' p = sem_val s p - 1"
    "if 0 < sem_val s p then waiters s' p = waiters s p \<and> running s' = running s
     else waiters s' p = waiters s p @ [running s] \<and> running s' = hd (ready s)"
    using sem_wait_call [OF assms, of a2 a3 a4] by (auto split: if_splits)
  then show ?thesis by (intro exI [of _ r] exI [of _ s']) (auto simp: kernel_view_def sem_down_def Let_def split: if_splits)
qed

lemma kernel_sem_up:
  assumes "kernel_inv m s U f" "sems s p \<noteq> None" "sem_val s p < 2 ^ 63 - 1"
  shows "\<exists>r s'. syscall 0x24 p a2 a3 a4 s = Some (r, s') \<and> running s' = running s \<and>
    (case sem_up (kernel_view s p) of (w, x) \<Rightarrow> kernel_view s' p = x \<and>
       ready s' = ready s @ (case w of None \<Rightarrow> [] | Some t \<Rightarrow> [t]))"
proof -
  obtain z where z: "asems (abs s) p = Some z" using assms(2) by auto
  have "sems_ok (abs s)" using assms(1) by (simp add: kernel_inv_def ainv_def shape_def)
  then have "int (length (awaiters z)) = max 0 (- sint (aval z))" using z by (simp add: sems_ok_def)
  moreover have "waiters s p = awaiters z" "sem_val s p = sint (aval z)" unfolding a_queue_def a_val_def z by simp_all
  ultimately have n: "sem_val s p < 0 \<longleftrightarrow> waiters s p \<noteq> []" by (cases "awaiters z") auto
  obtain r s' where s': "syscall 0x24 p a2 a3 a4 s = Some (Some r, s')" "sem_val s' p = sem_val s p + 1" "running s' = running s"
    "waiters s' p = tl (waiters s p)" "ready s' = ready s @ take 1 (waiters s p)"
    using sem_signal_call [OF assms, of a2 a3 a4] by (cases "waiters s p") auto
  then show ?thesis
    by (intro exI [of _ "Some r"] exI [of _ s'], cases "waiters s p") (use n in \<open>auto simp: kernel_view_def sem_up_def Let_def\<close>)
qed

subsection \<open>The destructor\<close>

lemma drain_items:
  assumes "ring_ok n b"
  shows "drain b = Some (map of_int (items b))"
  using assms
proof (induction "cnt_value b" arbitrary: b)
  case 0
  then show ?case by (subst drain.simps) (simp add: items_def)
next
  case (Suc k)
  let ?b = "b\<lparr>bhead := (bhead b + 1) mod bcap b\<rparr>"
  have c: "0 < cnt_value b" using Suc.hyps(2) by simp
  have "drain ?b = Some (map of_int (items ?b))"
    by (rule Suc.hyps(1)) (use ring_cnt(5) [OF Suc.prems c] Suc.hyps(2) ring_ok_moves(3) [OF Suc.prems] in simp_all)
  then show ?case unfolding items_take [OF Suc.prems c] by (subst drain.simps) (simp add: c)
qed

subsection \<open>An example\<close>

text \<open>\<open>k\<close> statements of one thread.\<close>

primrec stmts :: "nat \<Rightarrow> u64 \<Rightarrow> buffer_sys \<Rightarrow> (label list \<times> buffer_sys) option" where
  "stmts 0 t s = Some ([], s)"
| "stmts (Suc k) t s = do { (l, s) \<leftarrow> stmt t s; (ls, s) \<leftarrow> stmts k t s; Some (l @ ls, s) }"

lemma run_stmts: "buffer_run n ls s \<Longrightarrow> stmts k t s = Some (l, s') \<Longrightarrow> buffer_run n (ls @ l) s'"
proof (induction k arbitrary: ls s l)
  case (Suc k)
  then obtain l1 s1 l2 where "stmt t s = Some (l1, s1)" "stmts k t s1 = Some (l2, s')" "l = l1 @ l2"
    by (auto split: bind_splits)
  then show ?case using Suc.IH [OF buffer_run.exec [OF Suc.prems(1)]] by simp
qed simp

text \<open>A buffer for one item; thread 1 has stored 7, thread 2 waits to store 8.\<close>

definition full_buffer :: buffer_sys where
  "full_buffer = \<lparr>bbuf = \<lparr>bcap = 2, slots = [7, 0], bhead = 0, btail = 1\<rparr>,
     bsem = (\<lambda>k. case k of SpaceAvailable \<Rightarrow> \<lparr>sval = -1, squeue = [2]\<rparr> | _ \<Rightarrow> \<lparr>sval = 1, squeue = []\<rparr>),
     at = (\<lambda>t. At Out)(2 := Waits (Put1 8))\<rparr>"

lemma full_buffer_run: "buffer_run 1 [Stored 7] full_buffer"
proof -
  let ?i = "Buffer_init 1 [0, 0]"
  have "buffer_run 1 [] ?i" by (rule buffer_run.start) simp
  then have 1: "buffer_run 1 [] (?i\<lparr>at := (at ?i)(1 := At (Put0 7))\<rparr>)"
    by (rule buffer_run.call) (simp_all add: Buffer_init_def)
  let ?s = "\<lparr>bbuf = \<lparr>bcap = 2, slots = [7, 0], bhead = 0, btail = 1\<rparr>,
     bsem = (\<lambda>k. case k of SpaceAvailable \<Rightarrow> \<lparr>sval = 0, squeue = []\<rparr> | _ \<Rightarrow> \<lparr>sval = 1, squeue = []\<rparr>), at = (\<lambda>t. At Out)\<rparr>"
  have "stmts 6 1 (?i\<lparr>at := (at ?i)(1 := At (Put0 7))\<rparr>) = Some ([Stored 7], ?s)"
    by (simp add: numeral_eq_Suc Buffer_init_def stmt_def exec_def sem_down_def sem_up_def let_go_def fun_eq_iff split: semaphores.splits)
  from run_stmts [OF 1 this] have 2: "buffer_run 1 [Stored 7] ?s" by simp
  then have 3: "buffer_run 1 [Stored 7] (?s\<lparr>at := (at ?s)(2 := At (Put0 8))\<rparr>)" by (rule buffer_run.call) simp_all
  have "stmts 1 2 (?s\<lparr>at := (at ?s)(2 := At (Put0 8))\<rparr>) = Some ([], full_buffer)"
    by (simp add: full_buffer_def stmt_def exec_def sem_down_def fun_eq_iff split: semaphores.splits)
  from run_stmts [OF 3 this] show ?thesis by simp
qed

text \<open>
  C18: Whatever number of threads call \<open>put\<close>, \<open>get\<close> and \<open>getCnt\<close>, and wherever they are interrupted, a buffer for \<open>n\<close> items is
  a queue: items are taken in the order in which they were stored, each once, never more than \<open>n\<close> are in the
  buffer, and \<open>getCnt\<close> returns their number at the time it computes it.
\<close>

theorem buffer_fifo:
  assumes "buffer_run n ls s"
  shows "queue_spec n ls [] = Some (items (bbuf s))"
  using buffer_run_inv [OF assms] by (simp add: buffer_inv_def)

lemma buffer_fifo_witness: "queue_spec 1 [Stored 7] [] = Some (items (bbuf full_buffer)) \<and> items (bbuf full_buffer) = [7]"
  using buffer_fifo [OF full_buffer_run] by simp

subsection \<open>No deadlock\<close>

lemma stuck_waits:
  assumes "buffer_inv n ls s" "\<And>t. stmt t s = None"
  shows "at s t = At Out \<or> (\<exists>q k. at s t = Waits q \<and> passed q = Some k)"
proof (cases "at s t")
  case (At p)
  then show ?thesis using assms(2) [of t] by (cases p) (simp_all add: stmt_def)
next
  case (Waits q)
  then show ?thesis using assms(1) by (auto simp: buffer_inv_def queues_ok_def)
qed

lemma nobody_waits:
  assumes "buffer_inv n ls s" "1 \<le> sval (bsem s k)" "passed q = Some k"
  shows "at s t \<noteq> Waits q"
proof
  assume "at s t = Waits q"
  then have t: "t \<in> waiting k (at s)" using assms(3) by (auto simp: waiting_def)
  have "set (squeue (bsem s k)) = waiting k (at s)" "int (length (squeue (bsem s k))) = max 0 (- sval (bsem s k))"
    using assms(1) by (simp_all add: buffer_inv_def queues_ok_def)
  then show False using t assms(2) by simp
qed

lemma mutex_free:
  assumes "accounts n s" "users k (at s) = {}" "k = MutexHead \<or> k = MutexTail"
  shows "1 \<le> sval (bsem s k)"
  using assms by (auto simp: accounts_def units_def max_def split: if_splits)

text \<open>Threads that can go no further hold no mutex, so nobody waits for one.\<close>

lemma waiter_units:
  "passed q = Some k \<Longrightarrow> MutexTail \<notin> units_of (Waits q) \<and> (MutexHead \<in> units_of (Waits q) \<longrightarrow> q = Cnt2)"
  by (cases q) auto

lemma stuck_outside:
  assumes i: "buffer_inv n ls s" and n: "\<And>t. stmt t s = None"
  shows "at s t = At Out \<or> (\<exists>v. at s t = Waits (Put1 v)) \<or> at s t = Waits Get1"
proof -
  have m: "MutexHead \<in> units_of (at s u) \<Longrightarrow> at s u = Waits Cnt2" "MutexTail \<notin> units_of (at s u)" for u
    using stuck_waits [OF i n, of u] waiter_units by fastforce+
  have a: "accounts n s" using i by (simp add: buffer_inv_def)
  have "users MutexTail (at s) = {}" using m(2) by (simp add: users_def)
  from nobody_waits [OF i mutex_free [OF a this]] have nt: "passed q = Some MutexTail \<Longrightarrow> at s u \<noteq> Waits q" for q u by simp
  have "users MutexHead (at s) = {}" using m(1) nt [of Cnt2] by (auto simp: users_def)
  from nobody_waits [OF i mutex_free [OF a this]] have nh: "passed q = Some MutexHead \<Longrightarrow> at s u \<noteq> Waits q" for q u by simp
  consider "at s t = At Out" | q k where "at s t = Waits q" "passed q = Some k" using stuck_waits [OF i n, of t] by blast
  then show ?thesis
  proof cases
    case (2 q k)
    then show ?thesis using nt [of q t] nh [of q t] by (cases q) auto
  qed simp
qed

lemma stuck_places:
  assumes i: "buffer_inv n ls s" and n: "\<And>t. stmt t s = None"
  shows "at s t = At Out \<or> (\<exists>v. at s t = Waits (Put1 v)) \<and> cnt_value (bbuf s) = n \<or> at s t = Waits Get1 \<and> cnt_value (bbuf s) = 0"
proof -
  have w: "at s u = At Out \<or> (\<exists>v. at s u = Waits (Put1 v)) \<or> at s u = Waits Get1" for u by (rule stuck_outside [OF i n])
  have a: "accounts n s" using i by (simp add: buffer_inv_def)
  have e: "units_of (at s u) = {}" for u using w [of u] by auto
  then have "users k (at s) = {}" for k by (simp add: users_def)
  then have c: "max 0 (sval (bsem s SpaceAvailable)) + int (cnt_value (bbuf s)) = int n" "max 0 (sval (bsem s ItemAvailable)) = int (cnt_value (bbuf s))"
    using a by (simp_all add: accounts_def units_def)
  consider "at s t = At Out" | v where "at s t = Waits (Put1 v)" | "at s t = Waits Get1" using w by blast
  then show ?thesis
  proof cases
    case (2 v)
    then have "\<not> 1 \<le> sval (bsem s SpaceAvailable)" using nobody_waits [OF i, of SpaceAvailable "Put1 v" t] by auto
    then show ?thesis using c(1) 2 by simp
  next
    case 3
    then have "\<not> 1 \<le> sval (bsem s ItemAvailable)" using nobody_waits [OF i, of ItemAvailable Get1 t] by auto
    then show ?thesis using c(2) 3 by simp
  qed simp
qed

text \<open>
  C19: The users of a buffer do not block each other: if none of them can execute its next statement, those inside a
  method are all in \<open>put\<close>, waiting for space in a buffer that is full, or all in \<open>get\<close>, waiting for an item in one that is
  empty. No thread waits for a mutex then, and none in \<open>getCnt\<close>.
\<close>

theorem buffer_no_deadlock:
  assumes "buffer_run n ls s" "0 < n" "\<forall>t. stmt t s = None"
  shows "(\<forall>t. at s t = At Out \<or> (\<exists>v. at s t = Waits (Put1 v)) \<and> length (items (bbuf s)) = n) \<or>
    (\<forall>t. at s t = At Out \<or> at s t = Waits Get1 \<and> items (bbuf s) = [])"
proof -
  have "items (bbuf s) = [] \<longleftrightarrow> cnt_value (bbuf s) = 0" by (simp add: items_def)
  then show ?thesis using stuck_places [OF buffer_run_inv [OF assms(1)]] assms(2,3) length_items [of "bbuf s"] by (metis less_not_refl)
qed

lemma buffer_no_deadlock_witness: "\<exists>v. at full_buffer 2 = Waits (Put1 v) \<and> length (items (bbuf full_buffer)) = 1"
proof -
  have "\<forall>t. stmt t full_buffer = None" by (simp add: stmt_def full_buffer_def)
  from buffer_no_deadlock [OF full_buffer_run _ this] show ?thesis by (auto simp: full_buffer_def dest: spec [of _ 2])
qed

end
