(* ===== verification/Spec2Isabelle.thy ===== *)
theory Spec2Isabelle
  imports AllocatorProps ListProps SemaphoreProps TimeProps TrapProps BootProps Traces Registers BufferProps
begin

text \<open>
  A model of a small preemptive kernel for one RISC-V hart, written in C++ (headers in \<open>src/h\<close>, code in
  \<open>src/src\<close>), and its properties.

  \<^bold>\<open>The program.\<close> User programs call C functions (\<open>syscall_c.cpp\<close>) or C++ classes (\<open>CPP_*.cpp\<close>), which put a code and
  arguments into registers and execute \<open>ecall\<close>. The trap handler (\<open>_riscv.cpp\<close>) passes a system call to the
  dispatcher of \<open>_sysCalls.cpp\<close>, a timer interrupt to \<open>_time.cpp\<close>, a console interrupt to \<open>_console.cpp\<close>, and reports any
  other cause and switches the machine off. The handlers work on threads (\<open>_thread.cpp\<close>), the queue of ready
  threads (\<open>_scheduler.cpp\<close>), the list of sleeping threads and semaphores (\<open>_sem.cpp\<close>), all kept in instances of
  the list template (\<open>_list.hpp\<close>) whose elements, like the threads, stacks and semaphores, come from the kernel's
  allocator (\<open>_memoryAllocator.cpp\<close>). A handler may switch to another thread (\<open>_context.cpp\<close>); the old one is then in the
  middle of its call and goes on from there when it is switched to. \<open>main\<close> creates the system threads: itself,
  two threads that move characters between the rings of the console and the terminal, and the idle thread,
  which starts the user's program.

  \<^bold>\<open>The model.\<close> One theory per part, in the order of the calls; a routine that may fault or not return has a
  result in the option monad (\<open>None\<close>), a member function takes the state and returns it.
    \<^item> \<open>Prelude\<close>: the machine's integers (\<open>u64\<close>, \<open>u8\<close> are words), shared facts.
    \<^item> \<open>MemoryAllocator\<close>: \<open>heap\<close> is the memory as a function from addresses to words, with the static members;
      \<open>init\<close>, \<open>kmalloc\<close>, \<open>kmfree\<close>, with the loops and the linking steps as functions of their own.
    \<^item> \<open>ListTemplate\<close>: the list template over that memory, with its merge sort. \<open>KList\<close>: the same functions on the
      sequence of elements, still allocating the cells; the kernel's lists are of this kind.
    \<^item> \<open>KernelState\<close>: threads, semaphores and the console as records, \<open>kernel\<close> with the static members of all classes;
      objects are in maps from addresses, so an access to a null pointer or to a deleted object is \<open>None\<close>.
      The saved \<open>ra\<close> and \<open>sp\<close> of a thread are a \<open>resume_point\<close>, the call of \<open>_context::dispatch\<close> it is in. The one access of the
      code to a deleted object that the model carries out is the store of these two words after \<open>delete old\<close> in \<open>_context::dispatch\<close>:
      it changes the freed block in the heap's memory (\<open>write_late_context\<close>), with any values.
    \<^item> \<open>Threads\<close>, \<open>Context\<close>, \<open>Sleep\<close>, \<open>Semaphore\<close>, \<open>TimerInterrupt\<close>, \<open>Console\<close>: the classes of these names (\<open>_thread\<close> and
      \<open>Scheduler\<close>, \<open>_context\<close>, \<open>_time\<close>, \<open>_sem\<close>, \<open>_console\<close>), a function per member function; a function with a context switch
      in it is cut there, and its second half has the suffix \<open>_resume\<close>.
    \<^item> \<open>SysCalls\<close>: the wrappers and the dispatcher; \<open>syscall\<close> and \<open>timer_trap\<close> are whole traps, from the entry to the
      return of the thread that is running then, which may be another one than before.
    \<^item> \<open>Printer\<close>, \<open>Trap\<close>: the printing of errors (\<open>_SModePrinter.hpp\<close>), and \<open>handleSupervisorTrap\<close> on the machine: kernel,
      device, control registers, and the local variables of the handler for each thread that is switched out inside it. The message of
      the default case of \<open>_sysCallsHandler::ecall_handler\<close> is here, since the kernel of \<open>SysCalls\<close> has no terminal.
    \<^item> \<open>UserApi\<close>, \<open>CppApi\<close>, \<open>SystemThreads\<close>: the C and C++ interfaces, \<open>main\<close> and the threads of the kernel, an endless loop as
      its turns.

    \<^item> \<open>Registers\<close>: the general registers and the stack of a thread, instruction by instruction: \<open>supervisorTrap.S\<close>,
      \<open>pushRegisters\<close>, \<open>popRegisters\<close> and \<open>contextSwitch\<close>. It justifies the resume points and the argument and answer registers
      of the theories above, and is not part of their state.
    \<^item> \<open>BoundedBuffer\<close>: the buffer of \<open>test/buffer.cpp\<close> that the users' producers and consumers share, a transition per
      statement, over the semaphores as their users see them.

  \<^bold>\<open>Abstract specifications and refinement.\<close>
    \<^item> \<open>HeapRep\<close>, \<open>KmallocProof\<close>, \<open>KmfreeProof\<close>: the words of the heap represent two lists of blocks; \<open>kmalloc\<close> is first fit on
      the sorted free list and \<open>kmfree\<close> ordered insertion with coalescing. \<open>HeapInterface\<close> states what the rest of
      the kernel relies on, as the locale \<open>kernel_heap\<close>, and interprets it on the code's functions.
    \<^item> \<open>ListCells\<close>, \<open>ListSim\<close>, \<open>ListInsert\<close>, \<open>ListRemove\<close>, \<open>ListSort\<close>: the pointer lists simulate the lists of \<open>KList\<close>, any number of
      them in one heap.
    \<^item> \<open>AbstractKernel\<close>: the kernel without memory: queues are lists, the operations are total. \<open>RefineBase\<close>, \<open>RefineObjects\<close>,
      \<open>RefineDispatch\<close>, \<open>RefineSem\<close>, \<open>RefineLife\<close>: each operation of the code implements the abstract one while memory lasts, owns
      the blocks of its objects and frees them. \<open>AbstractInvariant\<close>, \<open>InvariantOps\<close>, \<open>InvariantCalls\<close>: the invariant of the
      abstract kernel. \<open>KernelCalls\<close>, \<open>KernelSafe\<close>: from this, for every system call and the timer: no fault, the
      invariant, and the step of the abstract kernel (\<open>a_call\<close>).
    \<^item> \<open>ConsoleRing\<close>: the rings as bounded queues (locale \<open>bounded_fifo\<close>). \<open>TrapFrames\<close>: every switched-out thread has its frame.

  \<^bold>\<open>Properties.\<close> \<open>AllocatorProps\<close>, \<open>ListProps\<close>: allocator and list template. \<open>SchedulerProps\<close>: safety of every admissible call, the
  invariant of every run of such calls and of interrupts, round robin, creation and exit. \<open>SemaphoreProps\<close>, \<open>TimeProps\<close>: the semaphore calls, sleeping
  and the tick. \<open>BufferInvariant\<close>, \<open>BufferProps\<close>: the buffer is a queue and its users do not block each other; the
  semaphores it assumes are the kernel's. \<open>Deadlines\<close>, \<open>Traces\<close>: every run of admissible calls refines a run of the abstract kernel; while the time does not
  wrap, nobody oversleeps. \<open>ConsoleProps\<close>,
  \<open>PrinterProps\<close>: order of output, the rings' indices, polling loops, number printing, the exact output of fatal traps. \<open>TrapProps\<close>: a
  thread returns from a trap to where it was trapped; unknown system calls. \<open>ApiProps\<close>, \<open>BootProps\<close>: the user's interfaces, the start of the
  kernel. \<open>KernelExample\<close> has the states on which the properties are applied.

  \<^bold>\<open>Bounds.\<close> Words are 64 bits wide and wrap as in the code; heap addresses stay below \<open>2 ^ 64\<close> (\<open>geom\<close>). A
  call is proved safe if it is admissible, that is, \<open>call_ok\<close> holds (live semaphore handles, an own stack, a positive value for
  \<open>sem_trywait\<close>, no \<open>sem_close\<close> under a thread in \<open>sem_timedwait\<close>, the first thread not blocking), and \<open>f + 4\<close> blocks are free: no call allocates more than four for
  itself. A timer interrupt needs one free block. Loops of the code are partial functions, so that they are shown to return; polling loops return if
  the status register, a sequence of readings, is ready often enough (at most 1026 readings for a turn of a
  console thread). \<open>main\<close> and its threads take exactly 271 blocks. There is no fuel.

  \<^bold>\<open>Not modelled.\<close> \<open>sret\<close> and the hardware. The kernel's state has no general registers and no stacks, apart from the
  arguments and the answer of a call; \<open>Registers\<close> has them, but not together with the kernel, since between its
  instructions there is compiled code; so the model does not show that a thread that exits is still on its freed stack until the
  switch. That a user program does not write to the kernel's memory is an assumption. The
  console threads are in user mode and can be interrupted inside a turn; the model has their turns atomic.
  The prebuilt library in \<open>lib\<close> is a parameter (heap bounds, PLIC, device). Of the programs in \<open>test\<close> only the buffer is
  modelled; the others, and those in \<open>test_modifications\<close>, are drivers that create threads and print, with no state and no
  contract of their own.
\<close>

end
